(* ===== verification/Onlyio_Prelude.thy ===== *)
theory Onlyio_Prelude
  imports Main "HOL-Library.Word"
begin

unbundle bit_operations_syntax

text \<open>
  Shared vocabulary of the development: the machine integers of the source as
  fixed-width words, the faults a Rust operation of the crate can end in, the
  result type with its sequencing operator, the checked arithmetic of the
  standard library, and the list and word lemmas the components share.

  Arithmetic follows the default (development) profile, which the crate's
  \<open>Cargo.toml\<close> does not override: overflow checks and \<open>debug_assert!\<close> are on, so an
  overflowing \<open>+\<close> or \<open>-\<close> and a failing debug assertion are faults. A theorem that an
  operation returns \<open>Inr\<close> therefore also says that no check fires, and that the release
  profile computes the same value.
\<close>

subsection \<open>Machine integers\<close>

type_synonym u8 = "8 word"
type_synonym u16 = "16 word"
type_synonym u32 = "32 word"
type_synonym u64 = "64 word"
type_synonym i32 = "32 word" \<comment> \<open>read with \<open>sint\<close>\<close>

abbreviation U16_MAX :: u16 where "U16_MAX \<equiv> 0xFFFF"
abbreviation U32_MAX :: u32 where "U32_MAX \<equiv> 0xFFFFFFFF"
abbreviation I32_MIN :: i32 where "I32_MIN \<equiv> 0x80000000"
abbreviation I32_MAX :: i32 where "I32_MAX \<equiv> 0x7FFFFFFF"

subsection \<open>Faults and results\<close>

text \<open>One constructor per panicking expression of the crate (an \<open>assert!\<close>, \<open>expect\<close>,
  \<open>panic!\<close>, \<open>unreachable!\<close>, a slice index, an arithmetic overflow check).\<close>

datatype panic =
    Capacity_too_large         \<comment> \<open>\<open>Slab::with_capacity\<close>: capacity above \<open>u32::MAX / 2\<close>\<close>
  | Slab_alloc_failed          \<comment> \<open>null from the allocator in \<open>with_capacity\<close>, \<open>growth\<close>\<close>
  | Slab_full                  \<comment> \<open>\<open>Slab::growth\<close>\<close>
  | Remove_out_of_bounds       \<comment> \<open>\<open>Slab::remove\<close>, \<open>remove_dropped_task\<close>\<close>
  | Remove_free_slot
  | Index_out_of_bounds        \<comment> \<open>\<open>Index\<close>/\<open>IndexMut\<close> of the slab\<close>
  | Index_free_slot
  | Next_free_on_task          \<comment> \<open>debug assertion of \<open>SlabSlot::next_free\<close>\<close>
  | Future_overaligned         \<comment> \<open>\<open>Task::new\<close>\<close>
  | Future_offset              \<comment> \<open>debug assertion of \<open>Task::new\<close>\<close>
  | Task_too_large
  | Task_alloc_failed
  | Syscall_nb_overflow        \<comment> \<open>\<open>Task::augmente_syscall_nb\<close>\<close>
  | Rc_overflow                \<comment> \<open>\<open>checked_add\<close> in \<open>inc_rc\<close>/\<open>add_rc\<close>\<close>
  | Rc_multiple                \<comment> \<open>the mask assertion of \<open>inc_rc\<close>/\<open>add_rc\<close>\<close>
  | Arith_overflow             \<comment> \<open>an overflow check of \<open>+\<close>, \<open>-\<close>\<close>
  | Slice_index                \<comment> \<open>an out-of-range \<open>[i]\<close>\<close>
  | Pool_counts                \<comment> \<open>\<open>BufPool::new\<close>: a zero count\<close>
  | Layout_invalid             \<comment> \<open>\<open>Layout::from_size_align\<close> refused\<close>
  | Pool_oom                   \<comment> \<open>null from \<open>alloc_zeroed\<close>\<close>
  | Write_pool_exhausted       \<comment> \<open>\<open>BufPool::alloc_write\<close>\<close>
  | Write_slot_state           \<comment> \<open>debug assertions on \<open>write_rc\<close>\<close>
  | Read_index                 \<comment> \<open>debug assertions \<open>buf_idx < read_count\<close>\<close>
  | Not_wbuf_udata             \<comment> \<open>debug assertion of \<open>decode_wbuf_udata\<close>\<close>
  | Ring_creation_failed       \<comment> \<open>\<open>expect\<close> on \<open>IoUring::build\<close> in \<open>Runtime::new\<close>\<close>
  | Buf_ring_oom               \<comment> \<open>null from \<open>alloc_zeroed\<close> for the buffer ring\<close>
  | Runtime_creation_failed    \<comment> \<open>\<open>expect\<close> in the initialiser of \<open>GLOBAL_RUNTIME\<close>\<close>
  | Newer_cqe                  \<comment> \<open>\<open>handle_cqe_entry\<close>\<close>
  | No_entries                 \<comment> \<open>\<open>block_on\<close>: woken with no completion\<close>
  | Sq_full                    \<comment> \<open>\<open>push_multiple\<close> in \<open>submit_and_wait\<close>\<close>
  | Missing_buf_id             \<comment> \<open>\<open>expect\<close> on \<open>buffer_select\<close>\<close>
  | Duplicate_gen              \<comment> \<open>\<open>WriteMultipleFuture::poll\<close>\<close>
  | Unreachable                \<comment> \<open>\<open>unreachable!()\<close> in \<open>SocketFuture::poll\<close>\<close>
  | Resumed_after_completion   \<comment> \<open>a completed \<open>async\<close> block is polled again\<close>
  | Already_borrowed           \<comment> \<open>a \<open>RefCell\<close> borrowed while it is borrowed\<close>
  | Client_panic               \<comment> \<open>raised by the polled client code itself\<close>

text \<open>Undefined behaviour the unsafe code could run into.\<close>

datatype ub =
    Dangling_task              \<comment> \<open>a \<open>Task\<close> handle whose allocation was freed is dereferenced\<close>
  | Slot_out_of_bounds         \<comment> \<open>a slot pointer past the end of the slab is dereferenced\<close>
  | Unreachable_unchecked      \<comment> \<open>\<open>unreachable_unchecked()\<close>\<close>

datatype fault = Panic panic | Ub ub

type_synonym 'a res = "fault + 'a"

definition and_then :: "'a res \<Rightarrow> ('a \<Rightarrow> 'b res) \<Rightarrow> 'b res" where
  "and_then m f = (case m of Inl e \<Rightarrow> Inl e | Inr x \<Rightarrow> f x)"

definition assert_or :: "panic \<Rightarrow> bool \<Rightarrow> unit res" where
  "assert_or e b = (if b then Inr () else Inl (Panic e))"

definition expect :: "panic \<Rightarrow> 'a option \<Rightarrow> 'a res" where
  "expect e x = (case x of None \<Rightarrow> Inl (Panic e) | Some y \<Rightarrow> Inr y)"

named_theorems res_simps \<open>rewriting of results: sequencing, assertions, checked arithmetic\<close>

lemma and_then_Inl [simp, res_simps]: "and_then (Inl e) f = Inl e"
  by (simp add: and_then_def)

lemma and_then_Inr [simp, res_simps]: "and_then (Inr x) f = f x"
  by (simp add: and_then_def)

lemma and_then_eq_Inr [res_simps]:
  "and_then m f = Inr y \<longleftrightarrow> (\<exists>x. m = Inr x \<and> f x = Inr y)"
  by (cases m) simp_all

lemma and_then_eq_Inl [res_simps]:
  "and_then m f = Inl e \<longleftrightarrow> m = Inl e \<or> (\<exists>x. m = Inr x \<and> f x = Inl e)"
  by (cases m) auto

lemma and_then_assoc: "and_then (and_then m f) g = and_then m (\<lambda>x. and_then (f x) g)"
  by (cases m) simp_all

lemma assert_or_eq_Inr [simp, res_simps]: "assert_or e b = Inr u \<longleftrightarrow> b"
  by (simp add: assert_or_def)

lemma assert_or_eq_Inl [simp, res_simps]: "assert_or e b = Inl f \<longleftrightarrow> \<not> b \<and> f = Panic e"
  by (auto simp: assert_or_def)

lemma assert_or_True [simp]: "assert_or e True = Inr ()"
  by (simp add: assert_or_def)

lemma assert_or_False [simp]: "assert_or e False = Inl (Panic e)"
  by (simp add: assert_or_def)

lemma expect_simps [simp]: "expect e None = Inl (Panic e)" "expect e (Some x) = Inr x"
  by (simp_all add: expect_def)

lemma expect_eq_Inr [res_simps]: "expect e x = Inr y \<longleftrightarrow> x = Some y"
  by (cases x) simp_all

lemma expect_eq_Inl [res_simps]: "expect e x = Inl f \<longleftrightarrow> x = None \<and> f = Panic e"
  by (cases x) auto

text \<open>A result is free of undefined behaviour: it returned, or it panicked.\<close>

definition no_ub :: "'a res \<Rightarrow> bool" where
  "no_ub r \<longleftrightarrow> (\<forall>u. r \<noteq> Inl (Ub u))"

lemma no_ub_simps [simp]:
  "no_ub (Inr x)" "no_ub (Inl (Panic p))" "\<not> no_ub (Inl (Ub u))"
  by (simp_all add: no_ub_def)

lemma no_ub_and_then:
  "no_ub m \<Longrightarrow> (\<And>x. m = Inr x \<Longrightarrow> no_ub (f x)) \<Longrightarrow> no_ub (and_then m f)"
  by (cases m) (auto simp: no_ub_def)

lemma no_ub_assert_or [simp]: "no_ub (assert_or e b)"
  by (simp add: assert_or_def)

lemma no_ub_expect [simp]: "no_ub (expect e x)"
  by (cases x) simp_all

text \<open>A \<open>for\<close> loop whose body may fault.\<close>

primrec fold_res :: "('a \<Rightarrow> 's \<Rightarrow> 's res) \<Rightarrow> 'a list \<Rightarrow> 's \<Rightarrow> 's res" where
  "fold_res f [] s = Inr s"
| "fold_res f (x # xs) s = and_then (f x s) (fold_res f xs)"

lemma fold_res_append: "fold_res f (xs @ ys) s = and_then (fold_res f xs s) (fold_res f ys)"
proof (induction xs arbitrary: s)
  case (Cons x xs)
  then show ?case by (cases "f x s") simp_all
qed simp

subsection \<open>Checked arithmetic\<close>

definition checked_add :: "'a::len word \<Rightarrow> 'a word \<Rightarrow> 'a word option" where
  "checked_add a b = (if unat a + unat b < 2 ^ LENGTH('a) then Some (a + b) else None)"

definition checked_mul :: "'a::len word \<Rightarrow> 'a word \<Rightarrow> 'a word option" where
  "checked_mul a b = (if unat a * unat b < 2 ^ LENGTH('a) then Some (a * b) else None)"

definition add_ovf :: "'a::len word \<Rightarrow> 'a word \<Rightarrow> 'a word res" where
  "add_ovf a b = expect Arith_overflow (checked_add a b)"

definition sub_ovf :: "'a::len word \<Rightarrow> 'a word \<Rightarrow> 'a word res" where
  "sub_ovf a b = (if b \<le> a then Inr (a - b) else Inl (Panic Arith_overflow))"

lemma checked_add_Some_iff:
  "checked_add a b = Some c \<longleftrightarrow>
    unat (a::'a::len word) + unat b < 2 ^ LENGTH('a) \<and> unat c = unat a + unat b"
  by (auto simp: checked_add_def unat_word_ariths word_unat_eq_iff)

lemma checked_mul_Some_iff:
  "checked_mul a b = Some c \<longleftrightarrow>
    unat (a::'a::len word) * unat b < 2 ^ LENGTH('a) \<and> unat c = unat a * unat b"
  by (auto simp: checked_mul_def unat_word_ariths word_unat_eq_iff)

lemma add_ovf_Inr_iff:
  "add_ovf a b = Inr c \<longleftrightarrow>
    unat (a::'a::len word) + unat b < 2 ^ LENGTH('a) \<and> unat c = unat a + unat b"
  by (simp add: add_ovf_def expect_eq_Inr checked_add_Some_iff)

lemma sub_ovf_Inr_iff:
  "sub_ovf a b = Inr c \<longleftrightarrow> b \<le> a \<and> unat c = unat a - unat b"
  by (auto simp: sub_ovf_def unat_sub word_unat_eq_iff)

lemmas checked_arith = checked_add_Some_iff checked_mul_Some_iff add_ovf_Inr_iff sub_ovf_Inr_iff

lemma no_ub_arith [simp]: "no_ub (add_ovf a b)" "no_ub (sub_ovf a b)"
  by (simp_all add: add_ovf_def sub_ovf_def)

subsection \<open>Words\<close>

lemma unat_lt_2p: "unat (w::'a::len word) < 2 ^ LENGTH('a)"
  by (rule unsigned_less)

lemma unat_u16_lt: "unat (w::u16) < 65536"
  using unat_lt_2p [of w] by simp

lemma unat_u32_lt: "unat (w::u32) < 4294967296"
  using unat_lt_2p [of w] by simp

lemma unat_add_one_of_lt:
  "unat (w::'a::len word) + 1 < 2 ^ LENGTH('a) \<Longrightarrow> unat (w + 1) = unat w + 1"
  by (simp add: unat_word_ariths)

lemma unat_of_nat_lt: "n < 2 ^ LENGTH('a) \<Longrightarrow> unat (of_nat n :: 'a::len word) = n"
  by (simp add: unat_of_nat)

lemma unat_sub_one: "(w::'a::len word) \<noteq> 0 \<Longrightarrow> unat (w - 1) = unat w - 1"
  by (metis unat_minus_one)

lemma unat_eq_0_iff: "unat (w::'a::len word) = 0 \<longleftrightarrow> w = 0"
  by (simp add: unat_eq_zero)

lemma and_exp_eq_if: "(w::'a::len word) AND 2 ^ k = (if bit w k then 2 ^ k else 0)"
  by (rule bit_word_eqI) (auto simp: bit_and_iff bit_exp_iff)

lemma bit_top_u16: "bit (0x8000 :: u16) n \<longleftrightarrow> n = 15"
proof -
  have "(0x8000 :: u16) = 2 ^ 15" by simp
  then show ?thesis by (simp only: bit_exp_iff possible_bit_word) auto
qed

lemma bit_top_u64: "bit (0x8000000000000000 :: u64) n \<longleftrightarrow> n = 63"
proof -
  have "(0x8000000000000000 :: u64) = 2 ^ 63" by simp
  then show ?thesis by (simp only: bit_exp_iff possible_bit_word) auto
qed

subsection \<open>Lists\<close>

lemma nth_list_update_if:
  "i < length xs \<Longrightarrow> xs[i := v] ! j = (if i = j then v else xs ! j)"
  by simp

end
