(* ===== verification/Raw_Task.thy ===== *)
theory Raw_Task
  imports Onlyio_Prelude
begin

text \<open>
  The task header of \<open>src/src/task.rs\<close>: \<open>RawTask\<close> with its reference counter and its
  system-call number, and the operations of \<open>Task\<close> that touch only the header. A \<open>Task\<close>
  handle is a pointer into a heap of headers; the operations that also touch the runtime
  (\<open>release\<close>, \<open>drop\<close>) are in the runtime theory.

  The future stored inline after the header, and the two function pointers that poll and drop
  it, are the type parameter \<open>'f\<close> and arguments of the operations that call them.
\<close>

subsection \<open>The header\<close>

record 'f raw_task =
  task_fut :: 'f
  alloc_size :: u32
  ref_counter :: u16
  syscall_nb :: u16
  slab_idx :: "u32 option"

datatype SyscallNbCompResult = Expired | Normal | Multiple | Error

definition MULTIPLE_MASK :: u16 where
  "MULTIPLE_MASK = 0x8000"

subsection \<open>Allocation layout of \<open>Task::new\<close>\<close>

text \<open>\<open>size_of\<close> and \<open>align_of\<close> of \<open>RawTask\<close>, which is \<open>repr(C, align(32))\<close>.\<close>

definition RAW_TASK_SIZE :: nat where "RAW_TASK_SIZE = 32"
definition RAW_TASK_ALIGN :: nat where "RAW_TASK_ALIGN = 32"

definition round_up :: "nat \<Rightarrow> nat \<Rightarrow> nat" where
  "round_up n a = (n + a - 1) div a * a"

text \<open>\<open>Layout::new::<RawTask>().extend(Layout::new::<F>())\<close> followed by \<open>pad_to_align()\<close>:
  the padded size and the offset of the future.\<close>

definition task_layout :: "nat \<Rightarrow> nat \<Rightarrow> nat \<times> nat" where
  "task_layout sz align =
     (let future_offset = round_up RAW_TASK_SIZE align
      in (round_up (future_offset + sz) (max RAW_TASK_ALIGN align), future_offset))"

text \<open>\<open>Task::new\<close> up to the allocation itself: the checks, and the header it writes.\<close>

definition task_new :: "nat \<Rightarrow> nat \<Rightarrow> 'f \<Rightarrow> 'f raw_task res" where
  "task_new sz align future =
     and_then (assert_or Future_overaligned (align \<le> RAW_TASK_ALIGN)) (\<lambda>_.
     case task_layout sz align of (alloc, future_offset) \<Rightarrow>
       and_then (assert_or Future_offset (future_offset = RAW_TASK_SIZE)) (\<lambda>_.
       and_then (assert_or Task_too_large (alloc \<le> unat U32_MAX)) (\<lambda>_.
       Inr \<lparr>task_fut = future, alloc_size = of_nat alloc, ref_counter = 1, syscall_nb = 0,
            slab_idx = None\<rparr>)))"

text \<open>\<open>Task::data_ptr\<close>: the future, as \<open>poll\<close> and \<open>release\<close> reach it through a handle.\<close>

definition data_ptr :: "u64 \<Rightarrow> u64" where
  "data_ptr p = p + of_nat RAW_TASK_SIZE"

subsection \<open>System-call numbers\<close>

definition evaluate_syscall_nb :: "u16 \<Rightarrow> 'f raw_task \<Rightarrow> SyscallNbCompResult" where
  "evaluate_syscall_nb incoming t =
     (let stored = syscall_nb t;
          stored_rank = stored AND NOT MULTIPLE_MASK;
          incoming_rank = incoming AND NOT MULTIPLE_MASK
      in if incoming_rank < stored_rank then Expired
         else if stored_rank < incoming_rank then Error
         else let stored_multiple = stored AND MULTIPLE_MASK;
                  incoming_multiple = incoming AND MULTIPLE_MASK
              in if stored_multiple \<noteq> incoming_multiple then Error
                 else if stored_multiple \<noteq> 0 then Multiple
                 else Normal)"

definition augmente_syscall_nb :: "'f raw_task \<Rightarrow> 'f raw_task res" where
  "augmente_syscall_nb t =
     and_then (expect Syscall_nb_overflow (checked_add (syscall_nb t AND NOT MULTIPLE_MASK) 1))
       (\<lambda>nb_inc. Inr (t\<lparr>syscall_nb := nb_inc\<rparr>))"

definition set_multishot :: "'f raw_task \<Rightarrow> 'f raw_task" where
  "set_multishot t = t\<lparr>syscall_nb := syscall_nb t OR 0x8000\<rparr>"

subsection \<open>The reference counter\<close>

definition add_rc :: "u16 \<Rightarrow> 'f raw_task \<Rightarrow> 'f raw_task res" where
  "add_rc n t =
     and_then (expect Rc_overflow (checked_add (ref_counter t) n)) (\<lambda>inc_rc.
     and_then (assert_or Rc_multiple
       (ref_counter t OR MULTIPLE_MASK \<noteq> inc_rc OR MULTIPLE_MASK)) (\<lambda>_.
     Inr (t\<lparr>ref_counter := inc_rc\<rparr>)))"

definition inc_rc :: "'f raw_task \<Rightarrow> 'f raw_task res" where
  "inc_rc t =
     and_then (expect Rc_overflow (checked_add (ref_counter t) 1)) (\<lambda>inc_rc.
     and_then (assert_or Rc_multiple
       (ref_counter t OR MULTIPLE_MASK \<noteq> inc_rc OR MULTIPLE_MASK)) (\<lambda>_.
     Inr (t\<lparr>ref_counter := inc_rc\<rparr>)))"

definition set_task_idx :: "u32 \<Rightarrow> 'f raw_task \<Rightarrow> 'f raw_task" where
  "set_task_idx i t = t\<lparr>slab_idx := Some i\<rparr>"

subsection \<open>The heap of headers\<close>

text \<open>\<open>Some\<close> is a live allocation, \<open>None\<close> memory that no live task occupies. Reading through
  a handle whose allocation is gone is undefined behaviour.\<close>

type_synonym 'f heap = "u64 \<Rightarrow> 'f raw_task option"

definition task_deref :: "u64 \<Rightarrow> 'f heap \<Rightarrow> 'f raw_task res" where
  "task_deref p h = (case h p of None \<Rightarrow> Inl (Ub Dangling_task) | Some t \<Rightarrow> Inr t)"

definition task_update :: "u64 \<Rightarrow> ('f raw_task \<Rightarrow> 'f raw_task res) \<Rightarrow> 'f heap \<Rightarrow> 'f heap res" where
  "task_update p f h = and_then (task_deref p h) (\<lambda>t. and_then (f t) (\<lambda>t'. Inr (h(p \<mapsto> t'))))"

text \<open>\<open>Clone for Task\<close>: a second handle on the same header, counted.\<close>

definition task_clone :: "u64 \<Rightarrow> 'f heap \<Rightarrow> (u64 \<times> 'f heap) res" where
  "task_clone p h = and_then (task_update p inc_rc h) (\<lambda>h'. Inr (p, h'))"

subsection \<open>Ranks and the multiple flag\<close>

text \<open>A system-call number is a 15-bit rank and, in its top bit, the multiple flag.\<close>

definition rank :: "u16 \<Rightarrow> nat" where
  "rank n = unat n mod 32768"

definition is_multiple :: "u16 \<Rightarrow> bool" where
  "is_multiple n \<longleftrightarrow> bit n 15"

lemma u16_and_rank: "unat (n AND NOT MULTIPLE_MASK) = rank n"
proof -
  have "(NOT MULTIPLE_MASK :: u16) = mask 15"
    by (simp add: MULTIPLE_MASK_def mask_eq_exp_minus_1)
  then have "n AND NOT MULTIPLE_MASK = take_bit 15 n"
    by (simp add: take_bit_eq_mask)
  then have "unat (n AND NOT MULTIPLE_MASK) = take_bit 15 (unat n)"
    by (simp add: unsigned_take_bit_eq)
  then show ?thesis
    by (simp add: rank_def take_bit_eq_mod)
qed

lemma u16_and_mask: "n AND MULTIPLE_MASK = (if is_multiple n then 0x8000 else 0)"
proof -
  have m: "MULTIPLE_MASK = (2 :: u16) ^ 15" and p: "(0x8000 :: u16) = 2 ^ 15"
    by (simp_all add: MULTIPLE_MASK_def)
  show ?thesis unfolding m p is_multiple_def by (rule and_exp_eq_if)
qed

lemma rank_bound: "rank n < 32768"
  by (simp add: rank_def)

lemma is_multiple_iff: "is_multiple n \<longleftrightarrow> 32768 \<le> unat n"
proof -
  have "bit n 15 \<longleftrightarrow> bit (unat n) 15"
    by (simp add: bit_unsigned_iff)
  also have "\<dots> \<longleftrightarrow> odd (unat n div 32768)"
    by (simp add: bit_iff_odd)
  finally have odd: "is_multiple n \<longleftrightarrow> odd (unat n div 32768)"
    by (simp add: is_multiple_def)
  have "unat n div 32768 < 2" using unat_u16_lt [of n] by (simp add: div_less_iff_less_mult)
  then have "odd (unat n div 32768) \<longleftrightarrow> unat n div 32768 \<noteq> 0"
    by (metis One_nat_def even_zero less_2_cases odd_one)
  then show ?thesis using odd by auto
qed

lemma u16_eq_iff: "m = n \<longleftrightarrow> rank m = rank n \<and> is_multiple m = is_multiple n"
proof -
  have split: "unat k = rank k + (if is_multiple k then 32768 else 0)" for k
    using unat_u16_lt [of k] by (auto simp: rank_def is_multiple_iff mod_if)
  show ?thesis
    by (metis split word_unat_eq_iff)
qed

text \<open>The five cases of the comparison, as equations on rank and flag.\<close>

lemma evaluate_syscall_nb_eq:
  "evaluate_syscall_nb n t =
    (if rank n < rank (syscall_nb t) then Expired
     else if rank (syscall_nb t) < rank n \<or> is_multiple n \<noteq> is_multiple (syscall_nb t) then Error
     else if is_multiple n then Multiple else Normal)"
  by (auto simp: evaluate_syscall_nb_def Let_def word_less_nat_alt u16_and_rank u16_and_mask)

lemma evaluate_Normal_iff:
  "evaluate_syscall_nb n t = Normal \<longleftrightarrow> n = syscall_nb t \<and> \<not> is_multiple n"
  by (auto simp: evaluate_syscall_nb_eq u16_eq_iff [of n])

lemma evaluate_Multiple_iff:
  "evaluate_syscall_nb n t = Multiple \<longleftrightarrow> n = syscall_nb t \<and> is_multiple n"
  by (auto simp: evaluate_syscall_nb_eq u16_eq_iff [of n])

lemma evaluate_Expired_iff:
  "evaluate_syscall_nb n t = Expired \<longleftrightarrow> rank n < rank (syscall_nb t)"
  by (auto simp: evaluate_syscall_nb_eq)

subsection \<open>Advancing a system-call number\<close>

lemma unat_masked_succ: "unat ((n AND NOT MULTIPLE_MASK) + 1) = rank n + 1"
  using rank_bound [of n] by (simp add: unat_word_ariths u16_and_rank)

text \<open>The \<open>checked_add\<close> of \<open>augmente_syscall_nb\<close> works on a 15-bit value, so it always succeeds.\<close>

lemma augmente_syscall_nb_eq:
  "augmente_syscall_nb t = Inr (t\<lparr>syscall_nb := (syscall_nb t AND NOT MULTIPLE_MASK) + 1\<rparr>)"
  using rank_bound [of "syscall_nb t"]
  by (simp add: augmente_syscall_nb_def checked_add_def u16_and_rank)

lemma rank_succ: "rank ((n AND NOT MULTIPLE_MASK) + 1) = (rank n + 1) mod 32768"
  by (simp add: rank_def unat_masked_succ [unfolded rank_def])

lemma is_multiple_succ: "is_multiple ((n AND NOT MULTIPLE_MASK) + 1) \<longleftrightarrow> rank n = 32767"
  using rank_bound [of n] by (auto simp: is_multiple_iff unat_masked_succ)

lemma or_exp_15: "bit (n OR 0x8000) 15" for n :: u16
proof -
  have "(0x8000 :: u16) = 2 ^ 15" by simp
  then show ?thesis by (simp only: bit_or_iff bit_exp_iff) simp
qed

lemma or_mask_rank: "rank (n OR 0x8000) = rank n"
proof -
  have p: "(0x8000 :: u16) = 2 ^ 15" by simp
  have "take_bit 15 (n OR 2 ^ 15) = take_bit 15 n"
    by (rule bit_word_eqI) (auto simp only: bit_take_bit_iff bit_or_iff bit_exp_iff)
  then have "take_bit 15 (unat (n OR 0x8000)) = take_bit 15 (unat n)"
    unfolding p by (metis unsigned_take_bit_eq)
  then show ?thesis by (simp add: rank_def take_bit_eq_mod)
qed

lemma set_multishot_nb:
  "rank (syscall_nb (set_multishot t)) = rank (syscall_nb t)"
  "is_multiple (syscall_nb (set_multishot t))"
  by (simp_all add: set_multishot_def or_mask_rank is_multiple_def or_exp_15)

subsection \<open>Counting references\<close>

lemma or_mask_eq_iff: "m OR MULTIPLE_MASK = n OR MULTIPLE_MASK \<longleftrightarrow> rank m = rank n"
  by (metis MULTIPLE_MASK_def is_multiple_def or_exp_15 or_mask_rank u16_eq_iff)

lemma rank_add: "rank (m + n) = (rank m + rank n) mod 32768"
proof -
  have "unat (m + n) mod 32768 = (unat m + unat n) mod 65536 mod 32768"
    by (simp add: unat_word_ariths)
  also have "\<dots> = (unat m + unat n) mod 32768"
    by (rule mod_mod_cancel) simp
  finally show ?thesis by (simp add: rank_def mod_add_eq)
qed

lemma rank_add_eq_iff: "rank (m + n) = rank m \<longleftrightarrow> rank n = 0"
  using rank_bound [of m] rank_bound [of n] by (auto simp: rank_add mod_if split: if_splits)

lemma add_rc_eq:
  "add_rc n t =
    (if 65536 \<le> unat (ref_counter t) + unat n then Inl (Panic Rc_overflow)
     else if rank n = 0 then Inl (Panic Rc_multiple)
     else Inr (t\<lparr>ref_counter := ref_counter t + n\<rparr>))"
proof -
  have "ref_counter t OR MULTIPLE_MASK \<noteq> (ref_counter t + n) OR MULTIPLE_MASK \<longleftrightarrow> rank n \<noteq> 0"
    by (metis or_mask_eq_iff rank_add_eq_iff)
  then show ?thesis by (simp add: add_rc_def checked_add_def assert_or_def)
qed

text \<open>The mask assertion of \<open>inc_rc\<close> can never fire; the counter runs up to \<open>u16::MAX\<close>.\<close>

lemma inc_rc_eq:
  "inc_rc t =
    (if ref_counter t = U16_MAX then Inl (Panic Rc_overflow)
     else Inr (t\<lparr>ref_counter := ref_counter t + 1\<rparr>))"
proof -
  have "inc_rc t = add_rc 1 t" by (simp add: inc_rc_def add_rc_def)
  moreover have "65536 \<le> unat (ref_counter t) + 1 \<longleftrightarrow> ref_counter t = U16_MAX"
    using unat_u16_lt [of "ref_counter t"] by (auto simp: word_unat_eq_iff)
  ultimately show ?thesis by (simp add: add_rc_eq rank_def)
qed

lemma inc_rc_Inr:
  "inc_rc t = Inr t' \<longleftrightarrow> unat (ref_counter t) < 65535 \<and> t' = t\<lparr>ref_counter := ref_counter t + 1\<rparr>"
  using unat_u16_lt [of "ref_counter t"] by (auto simp: inc_rc_eq word_unat_eq_iff)

lemma no_ub_inc_rc [simp]: "no_ub (inc_rc t)" and no_ub_add_rc [simp]: "no_ub (add_rc n t)"
  by (simp_all add: inc_rc_eq add_rc_eq)

subsection \<open>Layout\<close>

lemma round_up_ge: "0 < a \<Longrightarrow> n \<le> round_up n a"
proof -
  assume "0 < a"
  then have "(n + a - 1) mod a < a" by simp
  moreover have "(n + a - 1) div a * a + (n + a - 1) mod a = n + a - 1" by simp
  ultimately show ?thesis unfolding round_up_def by linarith
qed

lemma round_up_dvd: "a dvd round_up n a"
  by (simp add: round_up_def)

lemma round_up_dvd_id: "0 < a \<Longrightarrow> a dvd n \<Longrightarrow> round_up n a = n"
proof -
  assume a: "0 < a" and "a dvd n"
  then obtain k where k: "n = k * a" by (auto simp: mult.commute)
  have "n + a - 1 = (a - 1) + k * a" using a k by simp
  then have "(n + a - 1) div a = k" using a by (simp only: div_mult_self1) simp
  then show ?thesis by (simp add: round_up_def k)
qed

subsection \<open>Properties\<close>

text \<open>The classification of a completion by its system-call number is total and exact: it is
  delivered (once or as one of many) iff it carries the task's number, expired iff its 15-bit rank is
  older, and an error iff its rank is newer or the ranks agree and the multiple flags do not.\<close>

theorem evaluate_classifies:
  "(evaluate_syscall_nb n t = Normal \<longleftrightarrow> n = syscall_nb t \<and> \<not> is_multiple n) \<and>
   (evaluate_syscall_nb n t = Multiple \<longleftrightarrow> n = syscall_nb t \<and> is_multiple n) \<and>
   (evaluate_syscall_nb n t = Expired \<longleftrightarrow> rank n < rank (syscall_nb t)) \<and>
   (evaluate_syscall_nb n t = Error \<longleftrightarrow> rank (syscall_nb t) < rank n
      \<or> rank n = rank (syscall_nb t) \<and> is_multiple n \<noteq> is_multiple (syscall_nb t))"
  using evaluate_Normal_iff [of n t] evaluate_Multiple_iff [of n t] evaluate_Expired_iff [of n t]
  by (auto simp: evaluate_syscall_nb_eq)

text \<open>C20. A single-shot completion is delivered at most once: after the runtime has advanced the task for
  it, no number of the same or an older rank is taken for the task's single-shot call again. Below the
  last of the 32768 ranks all of them are expired. At the last rank the advanced number is 0x8000, rank 0
  with the multiple flag: the completed number and every other number are refused as newer (the runtime
  panics), but for 0x8000 itself, which is taken for a multishot completion.\<close>

theorem delivered_once:
  assumes "evaluate_syscall_nb n t = Normal"
  shows "\<exists>t'. augmente_syscall_nb t = Inr t' \<and> ref_counter t' = ref_counter t \<and> task_fut t' = task_fut t \<and>
    (\<forall>m. rank m \<le> rank n \<longrightarrow> evaluate_syscall_nb m t' =
      (if rank n < 32767 then Expired else if m = 0x8000 then Multiple else Error)) \<and>
    evaluate_syscall_nb n t' \<in> {Expired, Error}"
proof -
  have n: "n = syscall_nb t" "\<not> is_multiple n" using assms unfolding evaluate_Normal_iff by blast+
  have top: "m = 0x8000 \<longleftrightarrow> rank m = 0 \<and> is_multiple m" for m :: u16
    by (auto simp: u16_eq_iff [of m "0x8000"] rank_def is_multiple_iff)
  show ?thesis
  proof (cases "rank n < 32767")
    case True
    then show ?thesis using n by (auto simp: augmente_syscall_nb_eq evaluate_syscall_nb_eq rank_succ)
  next
    case False
    moreover have "rank n < 32768" by (simp add: rank_def)
    ultimately have "rank (syscall_nb t) = 32767" using n(1) by simp
    then show ?thesis using n
      by (auto simp: augmente_syscall_nb_eq evaluate_syscall_nb_eq rank_succ is_multiple_succ top)
  qed
qed

theorem delivered_once_witness:
  "\<exists>t'. augmente_syscall_nb \<lparr>task_fut = (), alloc_size = 64, ref_counter = 2, syscall_nb = 5,
       slab_idx = Some 0\<rparr> = Inr t' \<and> evaluate_syscall_nb 5 t' = Expired
     \<and> ref_counter t' = 2 \<and> task_fut t' = ()"
  using delivered_once [of 5 "\<lparr>task_fut = (), alloc_size = 64, ref_counter = 2, syscall_nb = 5, slab_idx = Some 0\<rparr>"]
  by (auto simp: evaluate_Normal_iff is_multiple_iff rank_def)

text \<open>Counting references: \<open>inc_rc\<close> adds one or panics at \<open>u16::MAX\<close>, and its mask assertion never
  fires; \<open>add_rc\<close> adds its argument exactly, panics when the sum leaves 16 bits, and panics for the
  arguments 0 and 0x8000, which its mask assertion mistakes for an overflow.\<close>

theorem rc_operations_exact:
  "inc_rc t =
    (if ref_counter t = U16_MAX then Inl (Panic Rc_overflow)
     else Inr (t\<lparr>ref_counter := ref_counter t + 1\<rparr>)) \<and>
   add_rc n t =
    (if 65536 \<le> unat (ref_counter t) + unat n then Inl (Panic Rc_overflow)
     else if n = 0 \<or> n = 0x8000 then Inl (Panic Rc_multiple)
     else Inr (t\<lparr>ref_counter := ref_counter t + n\<rparr>))"
proof -
  have "rank n = 0 \<longleftrightarrow> n = 0 \<or> n = 0x8000"
    using unat_u16_lt [of n] by (auto simp: rank_def word_unat_eq_iff mod_if split: if_splits)
  then show ?thesis by (simp add: inc_rc_eq add_rc_eq)
qed

text \<open>\<open>Task::new\<close> lays out header and future in one block: for a future of alignment 1, 2, 4, 8, 16
  or 32 whose block fits the 32-bit size field it returns, the future starts right after the 32-byte
  header, the block holds header and future with less than one alignment unit to spare, and the
  header starts with one reference, number 0 and no slab index. Larger alignments panic. In a block
  at an address that is a multiple of 32, the pointer through which the future is polled and dropped
  is where it was written, and is aligned for it.\<close>

theorem task_new_layout:
  assumes "align dvd 32" "sz < 2 ^ 31" "32 dvd unat p"
  shows "\<exists>t alloc offset. task_layout sz align = (alloc, offset) \<and> offset = RAW_TASK_SIZE \<and> task_new sz align f = Inr t
    \<and> alloc_size t = of_nat alloc \<and> unat (alloc_size t) = alloc \<and> 32 dvd alloc
    \<and> RAW_TASK_SIZE + sz \<le> alloc \<and> alloc < RAW_TASK_SIZE + sz + 32
    \<and> data_ptr p = p + of_nat offset \<and> align dvd unat (data_ptr p)
    \<and> ref_counter t = 1 \<and> syscall_nb t = 0 \<and> slab_idx t = None \<and> task_fut t = f"
proof -
  have al: "0 < align" "align \<le> 32" using assms(1) by (auto intro: dvd_imp_le Nat.gr0I)
  have off: "round_up 32 align = 32" by (rule round_up_dvd_id [OF al(1) assms(1)])
  let ?a = "round_up (32 + sz) 32"
  have lay: "task_layout sz align = (?a, 32)"
    using off al(2) by (simp add: task_layout_def RAW_TASK_SIZE_def RAW_TASK_ALIGN_def)
  have ge: "32 + sz \<le> ?a" by (rule round_up_ge) simp
  have "?a = (32 + sz + 31) div 32 * 32" by (simp add: round_up_def)
  then have lt: "?a < 32 + sz + 32"
    using div_mult_mod_eq [of "32 + sz + 31" 32] by linarith
  have fits: "?a \<le> 4294967295" using lt assms(2) by simp
  have "unat (of_nat ?a :: u32) = ?a" by (rule unat_of_nat_lt) (use fits in simp)
  moreover have "32 dvd unat (p + 32)"
    using assms(3) by (simp add: unat_word_ariths dvd_mod)
  then have "align dvd unat (data_ptr p)"
    using assms(1) dvd_trans by (simp add: data_ptr_def RAW_TASK_SIZE_def) blast
  ultimately show ?thesis
    using lay ge lt fits round_up_dvd [of 32 "32 + sz"] al(2)
    by (simp add: task_new_def RAW_TASK_SIZE_def RAW_TASK_ALIGN_def data_ptr_def)
qed

theorem task_new_layout_witness:
  "\<exists>t alloc. task_layout 100 8 = (alloc, RAW_TASK_SIZE) \<and> task_new 100 8 () = Inr t
    \<and> alloc_size t = of_nat alloc \<and> 132 \<le> alloc \<and> alloc < 164 \<and> 8 dvd unat (data_ptr 0x1000)"
proof -
  have "(8::nat) dvd 32" "32 dvd unat (0x1000 :: u64)" by simp_all
  from task_new_layout [OF this(1) _ this(2), of 100 "()"] show ?thesis by (auto simp: RAW_TASK_SIZE_def)
qed

end
