(* ===== verification/User_Data.thy ===== *)
theory User_Data
  imports Raw_Task
begin

text \<open>
  The 64-bit \<open>user_data\<close> of a submission and the task information carried through a
  completion (\<open>src/src/runtime.rs\<close>): \<open>UserDataPayload\<close>, \<open>Tag\<close>, \<open>TaskInfo\<close>, \<open>Waker\<close>, and the
  internal encodings of \<open>src/src/buf_pool.rs\<close> that share the same 64 bits.

  \<open>UserDataPayload\<close> is \<open>repr(C, align(8))\<close> and is reinterpreted through a union, on a
  little-endian target (the io_uring targets of the crate): the first field is the low word.
\<close>

subsection \<open>A codec interface\<close>

text \<open>What every user of an encoding relies on: decoding an encoded value of the domain gives
  it back.\<close>

locale codec =
  fixes enc :: "'a \<Rightarrow> 'b" and dec :: "'b \<Rightarrow> 'a" and ok :: "'a \<Rightarrow> bool"
  assumes dec_enc: "ok x \<Longrightarrow> dec (enc x) = x"
begin

lemma enc_inj: "ok x \<Longrightarrow> ok y \<Longrightarrow> enc x = enc y \<longleftrightarrow> x = y"
  by (metis dec_enc)

lemma map_dec_enc: "list_all ok xs \<Longrightarrow> map (dec \<circ> enc) xs = xs"
  by (induction xs) (simp_all add: dec_enc)

lemma count_enc: "ok x \<Longrightarrow> list_all ok xs \<Longrightarrow> count_list (map enc xs) (enc x) = count_list xs x"
  by (induction xs) (auto simp: enc_inj)

end

locale bicodec = codec +
  assumes enc_dec: "enc (dec y) = y" and dec_ok: "ok (dec y)"
begin

lemma dec_inj: "dec x = dec y \<longleftrightarrow> x = y"
  by (metis enc_dec)

end

subsection \<open>Data\<close>

type_synonym SlabIdx = u32

definition SlabIdx_dummy :: SlabIdx where
  "SlabIdx_dummy = U32_MAX"

record user_data_payload =
  up_task_idx :: SlabIdx
  up_response_gen :: u16
  up_syscall_nb :: u16

record tag =
  tag_task_idx :: SlabIdx
  tag_syscall_nb :: u16

record task_info =
  ti_tag :: tag
  ti_result :: i32
  ti_flags :: u32
  ti_response_gen :: u16

text \<open>A completion queue entry, as far as the crate reads it: \<open>user_data()\<close>, \<open>result()\<close>,
  \<open>flags()\<close>.\<close>

record cqe =
  cqe_user_data :: u64
  cqe_result :: i32
  cqe_flags :: u32

subsection \<open>Packing\<close>

definition into_user_data :: "user_data_payload \<Rightarrow> u64" where
  "into_user_data p =
     push_bit 48 (ucast (up_syscall_nb p)) OR push_bit 32 (ucast (up_response_gen p))
       OR ucast (up_task_idx p)"

definition from_user_data :: "u64 \<Rightarrow> user_data_payload" where
  "from_user_data d =
     \<lparr>up_task_idx = ucast d, up_response_gen = ucast (drop_bit 32 d),
      up_syscall_nb = ucast (drop_bit 48 d)\<rparr>"

definition payload_from_entry :: "cqe \<Rightarrow> user_data_payload" where
  "payload_from_entry e = from_user_data (cqe_user_data e)"

subsection \<open>Tags and task information\<close>

definition Tag_new :: "SlabIdx \<Rightarrow> tag" where
  "Tag_new i = \<lparr>tag_task_idx = i, tag_syscall_nb = 0\<rparr>"

definition Tag_augmente_syscall_nb :: "tag \<Rightarrow> tag" where
  "Tag_augmente_syscall_nb t =
     t\<lparr>tag_syscall_nb := ((tag_syscall_nb t AND NOT MULTIPLE_MASK) + 1) mod MULTIPLE_MASK\<rparr>"

definition TaskInfo_dummy :: task_info where
  "TaskInfo_dummy =
     \<lparr>ti_tag = Tag_new SlabIdx_dummy, ti_result = I32_MIN, ti_flags = U32_MAX,
      ti_response_gen = U16_MAX\<rparr>"

definition set_to_next_task :: "task_info \<Rightarrow> task_info" where
  "set_to_next_task i =
     i\<lparr>ti_result := I32_MIN, ti_response_gen := 0, ti_flags := 0,
       ti_tag := Tag_augmente_syscall_nb (ti_tag i)\<rparr>"

definition initial_poll :: "SlabIdx \<Rightarrow> task_info" where
  "initial_poll i =
     \<lparr>ti_tag = Tag_new i, ti_result = I32_MAX, ti_flags = 0, ti_response_gen = U16_MAX\<rparr>"

definition TaskInfo_from_entry :: "cqe \<Rightarrow> task_info" where
  "TaskInfo_from_entry e =
     (let payload = payload_from_entry e
      in \<lparr>ti_tag = \<lparr>tag_task_idx = up_task_idx payload, tag_syscall_nb = up_syscall_nb payload\<rparr>,
          ti_result = cqe_result e, ti_flags = cqe_flags e,
          ti_response_gen = up_response_gen payload\<rparr>)"

text \<open>A \<open>Waker\<close> is a payload; \<open>TaskInfo::from_waker\<close> reads \<open>response_gen\<close> for both fields.\<close>

definition TaskInfo_from_waker :: "user_data_payload \<Rightarrow> task_info" where
  "TaskInfo_from_waker w =
     \<lparr>ti_tag = \<lparr>tag_task_idx = up_task_idx w, tag_syscall_nb = up_response_gen w\<rparr>,
      ti_result = I32_MIN, ti_flags = U32_MAX, ti_response_gen = up_response_gen w\<rparr>"

definition TaskInfo_into_payload :: "task_info \<Rightarrow> user_data_payload" where
  "TaskInfo_into_payload i =
     \<lparr>up_task_idx = tag_task_idx (ti_tag i), up_response_gen = ti_response_gen i,
      up_syscall_nb = tag_syscall_nb (ti_tag i)\<rparr>"

subsection \<open>Internal encodings of the buffer pool\<close>

definition INTERNAL_FLAG :: u64 where
  "INTERNAL_FLAG = push_bit 63 1"

definition RWBUF_WRITE_UDATA :: u64 where
  "RWBUF_WRITE_UDATA = INTERNAL_FLAG OR push_bit 32 1"

definition wbuf_write_udata :: "u32 \<Rightarrow> u64" where
  "wbuf_write_udata abs_idx = INTERNAL_FLAG OR ucast abs_idx"

definition decode_wbuf_udata :: "u64 \<Rightarrow> u32 res" where
  "decode_wbuf_udata udata =
     and_then (assert_or Not_wbuf_udata (udata AND INTERNAL_FLAG \<noteq> 0 \<and> drop_bit 32 udata = 1))
       (\<lambda>_. Inr (ucast (udata AND 0xFFFFFFFF)))"

definition is_internal_cqe :: "u64 \<Rightarrow> bool" where
  "is_internal_cqe udata \<longleftrightarrow> udata AND INTERNAL_FLAG \<noteq> 0"

subsection \<open>Round trips\<close>

lemma from_into_user_data: "from_user_data (into_user_data p) = p"
proof -
  have "ucast (into_user_data p) = up_task_idx p"
    by (rule bit_word_eqI) (auto simp: into_user_data_def bit_simps)
  moreover have "ucast (drop_bit 32 (into_user_data p)) = up_response_gen p"
    by (rule bit_word_eqI) (auto simp: into_user_data_def bit_simps dest: bit_imp_le_length)
  moreover have "ucast (drop_bit 48 (into_user_data p)) = up_syscall_nb p"
    by (rule bit_word_eqI) (auto simp: into_user_data_def bit_simps dest: bit_imp_le_length)
  ultimately show ?thesis by (simp add: from_user_data_def)
qed

lemma into_from_user_data: "into_user_data (from_user_data d) = d"
proof (rule bit_word_eqI)
  fix n assume "n < LENGTH(64)"
  then have "n < 32 \<or> 32 \<le> n \<and> n < 48 \<or> 48 \<le> n \<and> n < 64" by auto
  then show "bit (into_user_data (from_user_data d)) n = bit d n"
    by (auto simp: into_user_data_def from_user_data_def bit_simps)
qed

text \<open>The place of each field.\<close>

lemma into_user_data_value:
  "unat (into_user_data p) =
     unat (up_task_idx p) + 2 ^ 32 * unat (up_response_gen p) + 2 ^ 48 * unat (up_syscall_nb p)"
proof -
  let ?i = "ucast (up_task_idx p) :: u64" and ?g = "push_bit 32 (ucast (up_response_gen p)) :: u64"
    and ?n = "push_bit 48 (ucast (up_syscall_nb p)) :: u64"
  have "?n AND ?g = 0" "(?n OR ?g) AND ?i = 0"
    by (auto simp: bit_eq_iff bit_simps dest: bit_imp_le_length)
  then have sum: "into_user_data p = ?n + ?g + ?i"
    by (simp add: into_user_data_def disjunctive_add_eq_or or.assoc)
  have i: "unat ?i = unat (up_task_idx p)" and g: "unat ?g = 2 ^ 32 * unat (up_response_gen p)"
    and n: "unat ?n = 2 ^ 48 * unat (up_syscall_nb p)"
    using unsigned_less [of "up_task_idx p", where ?'a = nat] unsigned_less [of "up_response_gen p", where ?'a = nat]
      unsigned_less [of "up_syscall_nb p", where ?'a = nat]
    by (simp_all add: unsigned_ucast_eq push_bit_eq_mult unat_word_ariths take_bit_nat_eq_self)
  have "unat ?n + unat ?g + unat ?i < 2 ^ 64"
    using unsigned_less [of "up_task_idx p", where ?'a = nat] unsigned_less [of "up_response_gen p", where ?'a = nat]
      unsigned_less [of "up_syscall_nb p", where ?'a = nat] unfolding i g n by simp
  then have "unat (?n + ?g + ?i) = unat ?n + unat ?g + unat ?i"
    by (simp add: unat_word_ariths)
  then show ?thesis unfolding sum i g n by simp
qed

interpretation udata: bicodec into_user_data from_user_data "\<lambda>_. True"
  by unfold_locales (simp_all add: from_into_user_data into_from_user_data)

subsection \<open>Internal encodings collide with task encodings\<close>

text \<open>The internal bit is the multiple flag of the packed system-call number.\<close>

lemma is_internal_iff_bit: "is_internal_cqe d \<longleftrightarrow> bit d 63"
proof -
  have flag: "INTERNAL_FLAG = 2 ^ 63" by (simp add: INTERNAL_FLAG_def)
  show ?thesis unfolding is_internal_cqe_def flag and_exp_eq_if by simp
qed

lemma bit_63_into_user_data: "bit (into_user_data p) 63 \<longleftrightarrow> is_multiple (up_syscall_nb p)"
  by (auto simp: into_user_data_def is_multiple_def bit_simps dest: bit_imp_le_length)

lemma bit_INTERNAL_FLAG: "bit INTERNAL_FLAG n \<longleftrightarrow> n = 63"
proof -
  have flag: "INTERNAL_FLAG = 0x8000000000000000" by (simp add: INTERNAL_FLAG_def)
  show ?thesis unfolding flag by (rule bit_top_u64)
qed

lemma from_wbuf_write_udata:
  "from_user_data (wbuf_write_udata i) =
     \<lparr>up_task_idx = i, up_response_gen = 0, up_syscall_nb = 0x8000\<rparr>"
proof -
  have "ucast (wbuf_write_udata i) = i"
    by (rule bit_word_eqI) (auto simp: wbuf_write_udata_def bit_INTERNAL_FLAG bit_simps)
  moreover have "ucast (drop_bit 32 (wbuf_write_udata i)) = (0 :: u16)"
    by (rule bit_word_eqI)
      (auto simp: wbuf_write_udata_def bit_INTERNAL_FLAG bit_simps dest: bit_imp_le_length)
  moreover have "ucast (drop_bit 48 (wbuf_write_udata i)) = (0x8000 :: u16)"
    by (rule bit_word_eqI, unfold bit_top_u16)
      (auto simp: wbuf_write_udata_def bit_INTERNAL_FLAG bit_simps dest: bit_imp_le_length)
  ultimately show ?thesis by (simp add: from_user_data_def)
qed

lemma wbuf_write_udata_high: "bit (drop_bit 32 (wbuf_write_udata i)) 31"
  by (simp add: wbuf_write_udata_def bit_INTERNAL_FLAG bit_drop_bit_eq bit_or_iff)

subsection \<open>Advancing a tag\<close>

lemma Tag_augmente_rank:
  "rank (tag_syscall_nb (Tag_augmente_syscall_nb t)) = (rank (tag_syscall_nb t) + 1) mod 32768"
  "\<not> is_multiple (tag_syscall_nb (Tag_augmente_syscall_nb t))"
  by (simp_all add: Tag_augmente_syscall_nb_def rank_def is_multiple_iff unat_mod
      unat_masked_succ [unfolded rank_def] MULTIPLE_MASK_def [THEN arg_cong [where f = unat], simplified])

lemma TaskInfo_from_into:
  "payload_from_entry e = into_payload \<Longrightarrow> TaskInfo_into_payload (TaskInfo_from_entry e) = into_payload"
  by (simp add: TaskInfo_into_payload_def TaskInfo_from_entry_def Let_def)

text \<open>A completion is delivered with the context its submission packed.\<close>

lemma completion_context:
  "TaskInfo_from_entry \<lparr>cqe_user_data = into_user_data (TaskInfo_into_payload i), cqe_result = r,
     cqe_flags = fl\<rparr> = i\<lparr>ti_result := r, ti_flags := fl\<rparr>"
  by (simp add: TaskInfo_from_entry_def TaskInfo_into_payload_def payload_from_entry_def Let_def
      from_into_user_data)

subsection \<open>Properties\<close>

text \<open>C29. The packing of \<open>user_data\<close>, field by field: the task index is the low 32 bits, the response
  generation the next 16 and the system-call number the top 16. It loses nothing: unpacking a packed
  payload gives it back, and every 64-bit value is the packing of exactly the payload it unpacks to.\<close>

theorem user_data_roundtrip:
  "unat (into_user_data p) =
     unat (up_task_idx p) + 2 ^ 32 * unat (up_response_gen p) + 2 ^ 48 * unat (up_syscall_nb p) \<and>
   from_user_data (into_user_data p) = p \<and> into_user_data (from_user_data d) = d \<and>
   (into_user_data p = d \<longleftrightarrow> p = from_user_data d)"
  using udata.dec_enc [of p] udata.enc_dec [of d] by (auto simp: into_user_data_value)

text \<open>The internal encodings of the buffer pool are not disjoint from task user data: a packed
  payload counts as internal exactly when its multiple flag is set; the user data of \<open>WBuffer::submit\<close>
  for slot \<open>i\<close> is at the same time the multiple-flagged user data of task \<open>i\<close>, and the decoder meant
  for it rejects it.\<close>

theorem internal_encoding_collides:
  "is_internal_cqe (into_user_data p) = is_multiple (up_syscall_nb p) \<and>
   is_internal_cqe (wbuf_write_udata i) \<and>
   from_user_data (wbuf_write_udata i) =
     \<lparr>up_task_idx = i, up_response_gen = 0, up_syscall_nb = MULTIPLE_MASK\<rparr> \<and>
   decode_wbuf_udata (wbuf_write_udata i) = Inl (Panic Not_wbuf_udata)"
proof -
  have "bit (wbuf_write_udata i) 63"
    by (simp add: wbuf_write_udata_def bit_INTERNAL_FLAG bit_or_iff)
  moreover have "drop_bit 32 (wbuf_write_udata i) \<noteq> 1"
  proof
    assume "drop_bit 32 (wbuf_write_udata i) = 1"
    then have "bit (1 :: u64) 31" using wbuf_write_udata_high [of i] by simp
    then show False by (simp add: bit_1_iff)
  qed
  ultimately show ?thesis
    by (simp add: is_internal_iff_bit bit_63_into_user_data from_wbuf_write_udata MULTIPLE_MASK_def
        decode_wbuf_udata_def)
qed

text \<open>The context and the header advance differently: both increment the 15-bit rank and clear the
  flag, except after rank 32767, where \<open>Tag::augmente_syscall_nb\<close> wraps to 0 and
  \<open>Task::augmente_syscall_nb\<close> stores 0x8000, that is rank 0 with the multiple flag set.\<close>

theorem tag_and_task_advance:
  assumes "rank (tag_syscall_nb g) = rank (syscall_nb t)"
  shows "\<exists>t'. augmente_syscall_nb t = Inr t' \<and>
    rank (syscall_nb t') = rank (tag_syscall_nb (Tag_augmente_syscall_nb g)) \<and>
    (syscall_nb t' = tag_syscall_nb (Tag_augmente_syscall_nb g) \<longleftrightarrow> rank (syscall_nb t) \<noteq> 32767)"
  using assms Tag_augmente_rank [of g] u16_eq_iff
  by (simp add: augmente_syscall_nb_eq rank_succ is_multiple_succ)

theorem tag_and_task_advance_witness:
  "\<exists>t'. augmente_syscall_nb \<lparr>task_fut = (), alloc_size = 64, ref_counter = 1, syscall_nb = 0x7FFF,
       slab_idx = None\<rparr> = Inr t' \<and>
     syscall_nb t' \<noteq> tag_syscall_nb (Tag_augmente_syscall_nb \<lparr>tag_task_idx = 0, tag_syscall_nb = 0x7FFF\<rparr>)"
  using tag_and_task_advance [of "\<lparr>tag_task_idx = 0, tag_syscall_nb = 0x7FFF\<rparr>"
      "\<lparr>task_fut = (), alloc_size = 64, ref_counter = 1, syscall_nb = 0x7FFF, slab_idx = None\<rparr>"]
  by (auto simp: rank_def)

end
