(* ===== verification/Task_Slab.thy ===== *)
theory Task_Slab
  imports User_Data
begin

text \<open>
  The task slab of \<open>src/src/task_slab.rs\<close>: an array of 8-byte slots, each either a \<open>Task\<close>
  pointer or a link of an intrusive free list, told apart by bit 0. A slot is modelled by its
  64 bits, so that the tagging, the encoding of the links and its range are those of the code.
\<close>

subsection \<open>Slots\<close>

type_synonym slab_slot = u64

definition slot_lo :: "slab_slot \<Rightarrow> u32" where
  "slot_lo sl = ucast sl"

definition slot_is_free :: "slab_slot \<Rightarrow> bool" where
  "slot_is_free sl \<longleftrightarrow> slot_lo sl AND 1 = 1"

definition slot_is_task :: "slab_slot \<Rightarrow> bool" where
  "slot_is_task sl \<longleftrightarrow> slot_lo sl AND 1 = 0"

definition slot_link :: "slab_slot \<Rightarrow> u32" where
  "slot_link sl = drop_bit 1 (slot_lo sl)"

definition slot_next_free :: "slab_slot \<Rightarrow> u32 res" where
  "slot_next_free sl =
     and_then (assert_or Next_free_on_task (slot_is_free sl)) (\<lambda>_. Inr (slot_link sl))"

definition slot_from_task :: "u64 \<Rightarrow> slab_slot" where
  "slot_from_task p = p"

text \<open>\<open>idx: [(next << 1) | 1, 0]\<close>: the shift drops the top bit of \<open>next\<close>.\<close>

definition free_slot :: "u32 \<Rightarrow> slab_slot" where
  "free_slot nxt = ucast (push_bit 1 nxt OR 1)"

subsection \<open>The slab\<close>

record slab =
  slots :: "slab_slot list"
  slab_head :: u32
  slab_len :: u32
  task_count :: u32

text \<open>\<open>alloc_ok n\<close>: the allocator can provide an array of \<open>n\<close> slots.\<close>

definition with_capacity :: "(u32 \<Rightarrow> bool) \<Rightarrow> u32 \<Rightarrow> slab res" where
  "with_capacity alloc_ok cap =
     and_then (assert_or Capacity_too_large (cap \<le> U32_MAX div 2)) (\<lambda>_.
     and_then (assert_or Slab_alloc_failed (alloc_ok cap)) (\<lambda>_.
     Inr \<lparr>slots = map (\<lambda>i. free_slot (of_nat (i + 1))) [0..<unat cap - 1] @ [free_slot cap],
          slab_head = 0, slab_len = cap, task_count = 0\<rparr>))"

definition growth :: "(u32 \<Rightarrow> bool) \<Rightarrow> slab \<Rightarrow> slab res" where
  "growth alloc_ok s =
     (let old_len = slab_len s
      in if old_len = U32_MAX then Inl (Panic Slab_full)
         else let new_len = (case checked_mul old_len 2 of None \<Rightarrow> U32_MAX | Some n \<Rightarrow> n)
              in and_then (assert_or Slab_alloc_failed (alloc_ok new_len)) (\<lambda>_.
                 Inr (s\<lparr>slots := slots s
                          @ map (\<lambda>i. free_slot (of_nat (i + 1))) [unat old_len..<unat new_len - 1]
                          @ [free_slot new_len],
                        slab_len := new_len\<rparr>)))"

definition slot_at :: "u32 \<Rightarrow> slab \<Rightarrow> slab_slot res" where
  "slot_at i s =
     (if unat i < length (slots s) then Inr (slots s ! unat i) else Inl (Ub Slot_out_of_bounds))"

definition slab_insert :: "(u32 \<Rightarrow> bool) \<Rightarrow> u64 \<Rightarrow> slab \<Rightarrow> (SlabIdx \<times> slab) res" where
  "slab_insert alloc_ok p s =
     and_then (if slab_head s = slab_len s then growth alloc_ok s else Inr s) (\<lambda>s.
     and_then (slot_at (slab_head s) s) (\<lambda>slot.
     and_then (slot_next_free slot) (\<lambda>nxt.
     and_then (add_ovf (task_count s) 1) (\<lambda>n.
     Inr (slab_head s,
          s\<lparr>slots := (slots s)[unat (slab_head s) := slot_from_task p],
            slab_head := nxt, task_count := n\<rparr>)))))"

text \<open>\<open>Slab::insert\<close> also stores the index in the header of the task it is given.\<close>

definition insert_task :: "(u32 \<Rightarrow> bool) \<Rightarrow> u64 \<Rightarrow> 'f heap \<Rightarrow> slab \<Rightarrow> (SlabIdx \<times> 'f heap \<times> slab) res" where
  "insert_task alloc_ok p h s =
     and_then (slab_insert alloc_ok p s) (\<lambda>(i, s').
     and_then (task_update p (\<lambda>t. Inr (set_task_idx i t)) h) (\<lambda>h'. Inr (i, h', s')))"

definition slab_remove :: "SlabIdx \<Rightarrow> slab \<Rightarrow> (u64 \<times> slab) res" where
  "slab_remove i s =
     and_then (assert_or Remove_out_of_bounds (i < slab_len s)) (\<lambda>_.
     and_then (slot_at i s) (\<lambda>slot.
     and_then (assert_or Remove_free_slot (slot_is_task slot)) (\<lambda>_.
     and_then (sub_ovf (task_count s) 1) (\<lambda>n.
     Inr (slot, s\<lparr>slots := (slots s)[unat i := free_slot (slab_head s)],
                  slab_head := i, task_count := n\<rparr>)))))"

definition remove_dropped_task :: "SlabIdx \<Rightarrow> slab \<Rightarrow> slab res" where
  "remove_dropped_task i s =
     and_then (assert_or Remove_out_of_bounds (i < slab_len s)) (\<lambda>_.
     and_then (slot_at i s) (\<lambda>slot.
     and_then (assert_or Remove_free_slot (slot_is_task slot)) (\<lambda>_.
     and_then (sub_ovf (task_count s) 1) (\<lambda>n.
     Inr (s\<lparr>slots := (slots s)[unat i := free_slot (slab_head s)],
            slab_head := i, task_count := n\<rparr>)))))"

text \<open>\<open>Index\<close> and \<open>IndexMut\<close>.\<close>

definition slab_index :: "SlabIdx \<Rightarrow> slab \<Rightarrow> u64 res" where
  "slab_index i s =
     and_then (assert_or Index_out_of_bounds (i < slab_len s)) (\<lambda>_.
     and_then (slot_at i s) (\<lambda>slot.
     and_then (assert_or Index_free_slot (slot_is_task slot)) (\<lambda>_. Inr slot)))"

definition slab_count :: "slab \<Rightarrow> u32" where
  "slab_count s = task_count s"

text \<open>\<open>Drop for SlabSlot\<close> and \<open>Drop for Slab\<close>: the handles dropped, in slot order.\<close>

definition slot_drop :: "u64 \<Rightarrow> u64 list" where
  "slot_drop sl = (if slot_is_free sl then [] else [sl])"

definition slab_drop :: "slab \<Rightarrow> u64 list" where
  "slab_drop s = concat (map slot_drop (slots s))"

subsection \<open>Encoding of links\<close>

lemma slot_is_free_iff: "slot_is_free sl \<longleftrightarrow> bit sl 0"
proof -
  have "slot_is_free sl \<longleftrightarrow> odd (slot_lo sl)"
    by (simp add: slot_is_free_def and_one_eq odd_iff_mod_2_eq_one)
  also have "\<dots> \<longleftrightarrow> bit (slot_lo sl) 0" by (simp only: bit_0)
  also have "\<dots> \<longleftrightarrow> bit sl 0" by (simp only: slot_lo_def bit_unsigned_iff possible_bit_word) simp
  finally show ?thesis .
qed

lemma slot_is_task_iff: "slot_is_task sl \<longleftrightarrow> \<not> slot_is_free sl"
  by (simp add: slot_is_task_def slot_is_free_def and_one_eq odd_iff_mod_2_eq_one even_iff_mod_2_eq_zero)

lemma slot_lo_free_slot: "slot_lo (free_slot n) = push_bit 1 n OR 1"
  by (rule bit_word_eqI) (auto simp: slot_lo_def free_slot_def bit_simps)

lemma free_slot_is_free [simp]: "slot_is_free (free_slot n)"
  by (auto simp: slot_is_free_iff free_slot_def bit_simps)

lemma next_free_slot_eq: "slot_next_free (free_slot n) = Inr (take_bit 31 n)"
proof -
  have "drop_bit 1 (push_bit 1 n OR 1) = take_bit 31 n"
    by (rule bit_word_eqI, simp only: bit_drop_bit_eq comp_def bit_or_iff bit_push_bit_iff
        bit_take_bit_iff bit_1_iff possible_bit_word) auto
  then show ?thesis by (simp only: slot_next_free_def slot_link_def slot_lo_free_slot) simp
qed

lemma next_free_slot: "unat n < 2 ^ 31 \<Longrightarrow> slot_next_free (free_slot n) = Inr n"
proof -
  assume "unat n < 2 ^ 31"
  then have "take_bit 31 (unat n) = unat n" by (simp add: take_bit_eq_mod)
  then have "take_bit 31 n = n" by (metis unsigned_take_bit_eq word_unat_eq_iff)
  then show ?thesis by (simp only: next_free_slot_eq)
qed

interpretation link: codec free_slot slot_link "\<lambda>n. unat n < 2 ^ 31"
proof
  fix n :: u32 assume "unat n < 2 ^ 31"
  from next_free_slot [OF this] show "slot_link (free_slot n) = n"
    by (simp add: slot_next_free_def)
qed

subsection \<open>The free list as a path\<close>

text \<open>The indices visited from \<open>h\<close> until the end marker \<open>e\<close>.\<close>

primrec free_path :: "slab_slot list \<Rightarrow> nat \<Rightarrow> nat list \<Rightarrow> nat \<Rightarrow> bool" where
  "free_path sl h [] e \<longleftrightarrow> h = e"
| "free_path sl h (a # as) e \<longleftrightarrow>
     h = a \<and> a < length sl \<and> slot_is_free (sl ! a)
     \<and> free_path sl (unat (slot_link (sl ! a))) as e"

lemma free_path_bounds: "free_path sl h as e \<Longrightarrow> i \<in> set as \<Longrightarrow> i < length sl \<and> slot_is_free (sl ! i)"
  by (induction as arbitrary: h) auto

lemma free_path_update:
  "i \<notin> set as \<Longrightarrow> free_path (sl[i := v]) h as e \<longleftrightarrow> free_path sl h as e"
  by (induction as arbitrary: h) auto

lemma free_path_append:
  "free_path sl h as e \<Longrightarrow> free_path (sl @ sl') h as e"
  by (induction as arbitrary: h) (auto simp: nth_append)

text \<open>A freshly linked range: slot \<open>i\<close> points to \<open>i + 1\<close>.\<close>

lemma free_path_range:
  assumes "\<And>i. lo \<le> i \<Longrightarrow> i < hi \<Longrightarrow> sl ! i = free_slot (of_nat (i + 1))"
    and "hi \<le> length sl" "hi < 2 ^ 31" "lo \<le> hi"
  shows "free_path sl lo [lo..<hi] hi"
  using assms(4,1)
proof (induction lo rule: inc_induct)
  case base
  then show ?case by simp
next
  case (step lo)
  have "unat (of_nat (lo + 1) :: u32) = lo + 1"
    by (rule unat_of_nat_lt) (use step.hyps assms(3) in simp)
  with link.dec_enc [of "of_nat (lo + 1)"] step.hyps assms(3)
  have "unat (slot_link (free_slot (of_nat (lo + 1)))) = Suc lo" by simp
  with step show ?case using assms(2) by (simp add: upt_conv_Cons)
qed

subsection \<open>Invariant\<close>

definition slab_inv :: "slab \<Rightarrow> bool" where
  "slab_inv s \<longleftrightarrow>
     length (slots s) = unat (slab_len s) \<and> 0 < unat (slab_len s) \<and> unat (slab_len s) < 2 ^ 31 \<and>
     (\<exists>ns. free_path (slots s) (unat (slab_head s)) ns (unat (slab_len s)) \<and> distinct ns \<and>
        set ns = {i. i < length (slots s) \<and> slot_is_free (slots s ! i)} \<and>
        unat (task_count s) + length ns = unat (slab_len s))"

text \<open>The abstract view: the partial map from indices to task pointers.\<close>

definition slots_lookup :: "slab_slot list \<Rightarrow> SlabIdx \<Rightarrow> u64 option" where
  "slots_lookup sl i =
     (if unat i < length sl \<and> slot_is_task (sl ! unat i) then Some (sl ! unat i) else None)"

definition slab_lookup :: "slab \<Rightarrow> SlabIdx \<Rightarrow> u64 option" where
  "slab_lookup s = slots_lookup (slots s)"

lemma slots_lookup_update:
  assumes "unat i < length sl"
  shows "slots_lookup (sl[unat i := v]) =
    (slots_lookup sl)(i := if slot_is_task v then Some v else None)"
proof
  fix j
  have "unat i = unat j \<longleftrightarrow> i = j" by (simp add: word_unat_eq_iff)
  then show "slots_lookup (sl[unat i := v]) j =
      ((slots_lookup sl)(i := if slot_is_task v then Some v else None)) j"
    using assms by (auto simp: slots_lookup_def)
qed

lemma slab_inv_bounds:
  "slab_inv s \<Longrightarrow> length (slots s) = unat (slab_len s)"
  "slab_inv s \<Longrightarrow> unat (slab_len s) < 2 ^ 31"
  by (simp_all add: slab_inv_def)

lemma slab_index_lookup:
  assumes "slab_inv s"
  shows "slab_index i s =
    (case slab_lookup s i of Some p \<Rightarrow> Inr p
     | None \<Rightarrow> Inl (Panic (if i < slab_len s then Index_free_slot else Index_out_of_bounds)))"
  using slab_inv_bounds (1) [OF assms]
  by (auto simp: slab_index_def slot_at_def slab_lookup_def slots_lookup_def word_less_nat_alt)

lemma linked_range:
  "hi > lo \<Longrightarrow> map (\<lambda>i. free_slot (of_nat (i + 1))) [lo..<hi - 1] @ [free_slot (of_nat hi)]
     = map (\<lambda>i. free_slot (of_nat (i + 1))) [lo..<hi]"
  by (cases hi) simp_all

lemma slab_invI:
  assumes "length (slots s) = unat (slab_len s)" "0 < unat (slab_len s)" "unat (slab_len s) < 2 ^ 31"
    and "free_path (slots s) (unat (slab_head s)) ns (unat (slab_len s))" "distinct ns"
    and "set ns = {i. i < length (slots s) \<and> slot_is_free (slots s ! i)}"
    and "unat (task_count s) + length ns = unat (slab_len s)"
  shows "slab_inv s"
  using assms unfolding slab_inv_def by blast

lemma slab_invE:
  assumes "slab_inv s"
  obtains ns where "length (slots s) = unat (slab_len s)" "0 < unat (slab_len s)"
    "unat (slab_len s) < 2 ^ 31"
    "free_path (slots s) (unat (slab_head s)) ns (unat (slab_len s))" "distinct ns"
    "set ns = {i. i < length (slots s) \<and> slot_is_free (slots s ! i)}"
    "unat (task_count s) + length ns = unat (slab_len s)"
  using assms unfolding slab_inv_def by blast

subsection \<open>Construction\<close>

lemma with_capacity_inv:
  assumes "0 < cap" "cap \<le> U32_MAX div 2" "alloc_ok cap"
  shows "\<exists>s. with_capacity alloc_ok cap = Inr s \<and> slab_inv s \<and> slab_lookup s = Map.empty
    \<and> slab_len s = cap \<and> slab_head s = 0 \<and> task_count s = 0"
proof -
  have pos: "0 < unat cap" using assms(1) by (simp add: word_less_nat_alt)
  have small: "unat cap < 2 ^ 31" using assms(2) by (simp add: word_le_nat_alt)
  let ?sl = "map (\<lambda>i. free_slot (of_nat (i + 1))) [0..<unat cap]"
  let ?s = "\<lparr>slots = ?sl, slab_head = 0, slab_len = cap, task_count = 0\<rparr>"
  have eq: "with_capacity alloc_ok cap = Inr ?s"
    using assms linked_range [OF pos] by (simp add: with_capacity_def)
  have "slab_inv ?s"
  proof (rule slab_invI)
    show "free_path (slots ?s) (unat (slab_head ?s)) [0..<unat cap] (unat (slab_len ?s))"
      using free_path_range [of 0 "unat cap" ?sl] small by simp
  qed (use pos small in auto)
  moreover have "slab_lookup ?s = Map.empty"
    by (auto simp: slab_lookup_def slots_lookup_def slot_is_task_iff)
  ultimately show ?thesis using eq by auto
qed

subsection \<open>Growth\<close>

lemma growth_eq:
  assumes "0 < unat (slab_len s)" "2 * unat (slab_len s) < 2 ^ 32" "alloc_ok (slab_len s * 2)"
  shows "growth alloc_ok s = Inr (s\<lparr>slots := slots s
      @ map (\<lambda>i. free_slot (of_nat (i + 1))) [unat (slab_len s)..<2 * unat (slab_len s)],
      slab_len := slab_len s * 2\<rparr>)"
proof -
  have neq: "slab_len s \<noteq> U32_MAX" using assms(2) by auto
  have mul: "checked_mul (slab_len s) 2 = Some (slab_len s * 2)"
    using assms(2) by (simp add: checked_mul_def mult.commute)
  have u: "unat (slab_len s * 2) = 2 * unat (slab_len s)"
    using assms(2) by (simp add: unat_word_ariths mult.commute)
  have "(of_nat (2 * unat (slab_len s)) :: u32) = slab_len s * 2"
    by (simp add: mult.commute)
  with linked_range [of "unat (slab_len s)" "2 * unat (slab_len s)"] assms(1) u neq mul assms(3)
  show ?thesis by (simp add: growth_def Let_def mult.commute)
qed

lemma growth_inv:
  assumes inv: "slab_inv s" and full: "slab_head s = slab_len s"
    and room: "2 * unat (slab_len s) < 2 ^ 31" "alloc_ok (slab_len s * 2)"
  shows "\<exists>s'. growth alloc_ok s = Inr s' \<and> slab_inv s' \<and> slab_lookup s' = slab_lookup s
    \<and> slab_head s' = slab_head s \<and> slab_head s' \<noteq> slab_len s' \<and> task_count s' = task_count s
    \<and> slab_len s' = slab_len s * 2"
proof -
  from inv obtain ns where len: "length (slots s) = unat (slab_len s)"
    and pos: "0 < unat (slab_len s)"
    and path: "free_path (slots s) (unat (slab_head s)) ns (unat (slab_len s))"
    and ns: "set ns = {i. i < length (slots s) \<and> slot_is_free (slots s ! i)}"
    and cnt: "unat (task_count s) + length ns = unat (slab_len s)" by (rule slab_invE)
  have "ns = []" using path full len by (cases ns) auto
  with ns have tasks: "\<not> slot_is_free (slots s ! i)" if "i < length (slots s)" for i
    using that by auto
  let ?n = "unat (slab_len s)"
  let ?new = "map (\<lambda>i. free_slot (of_nat (i + 1))) [?n..<2 * ?n]"
  let ?s = "s\<lparr>slots := slots s @ ?new, slab_len := slab_len s * 2\<rparr>"
  have u: "unat (slab_len s * 2) = 2 * ?n" using room(1) by (simp add: unat_word_ariths mult.commute)
  have eq: "growth alloc_ok s = Inr ?s" using growth_eq [of s alloc_ok] pos room by simp
  have nth: "(slots s @ ?new) ! i = free_slot (of_nat (i + 1))" if "?n \<le> i" "i < 2 * ?n" for i
    using that len by (auto simp: nth_append)
  have "slab_inv ?s"
  proof (rule slab_invI)
    have "free_path (slots s @ ?new) ?n [?n..<2 * ?n] (2 * ?n)"
      by (rule free_path_range) (use nth len room(1) in simp_all)
    then show "free_path (slots ?s) (unat (slab_head ?s)) [?n..<2 * ?n] (unat (slab_len ?s))"
      using full u by simp
    show "set [?n..<2 * ?n] = {i. i < length (slots ?s) \<and> slot_is_free (slots ?s ! i)}"
      using len nth tasks by (auto simp: nth_append)
  qed (use len pos room(1) u cnt \<open>ns = []\<close> in auto)
  moreover have "slab_lookup ?s = slab_lookup s"
    using len by (auto simp: slab_lookup_def slots_lookup_def fun_eq_iff nth_append slot_is_task_iff)
  moreover have "slab_head s \<noteq> slab_len s * 2" using full u pos by (auto simp: word_unat_eq_iff)
  ultimately show ?thesis using eq by auto
qed

subsection \<open>Insertion and removal\<close>

lemma insert_no_growth:
  assumes inv: "slab_inv s" and room: "slab_head s \<noteq> slab_len s" and p: "slot_is_task p"
  shows "\<exists>s'. slab_insert alloc_ok p s = Inr (slab_head s, s') \<and> slab_inv s'
    \<and> slab_lookup s (slab_head s) = None \<and> slab_lookup s' = (slab_lookup s)(slab_head s \<mapsto> p)
    \<and> unat (task_count s') = unat (task_count s) + 1 \<and> slab_len s' = slab_len s"
proof -
  from inv obtain ns where len: "length (slots s) = unat (slab_len s)"
    and pos: "0 < unat (slab_len s)" and small: "unat (slab_len s) < 2 ^ 31"
    and path: "free_path (slots s) (unat (slab_head s)) ns (unat (slab_len s))"
    and dist: "distinct ns"
    and ns: "set ns = {i. i < length (slots s) \<and> slot_is_free (slots s ! i)}"
    and cnt: "unat (task_count s) + length ns = unat (slab_len s)" by (rule slab_invE)
  let ?h = "unat (slab_head s)"
  obtain ms where ms: "ns = ?h # ms" using path room by (cases ns) (auto simp: word_unat_eq_iff)
  let ?nxt = "slot_link (slots s ! ?h)"
  have h: "?h < length (slots s)" "slot_is_free (slots s ! ?h)"
    and path': "free_path (slots s) (unat ?nxt) ms (unat (slab_len s))" using path ms by auto
  have ge: "unat (task_count s) + 1 \<le> unat (slab_len s)" using cnt ms by simp
  then have u: "unat (task_count s + 1) = unat (task_count s) + 1"
    using small by (simp add: unat_word_ariths)
  have add: "add_ovf (task_count s) 1 = Inr (task_count s + 1)"
    using ge small u by (simp add: add_ovf_Inr_iff)
  let ?s = "s\<lparr>slots := (slots s)[?h := p], slab_head := ?nxt, task_count := task_count s + 1\<rparr>"
  have eq: "slab_insert alloc_ok p s = Inr (slab_head s, ?s)"
    using room h add
    by (simp add: slab_insert_def slot_at_def slot_next_free_def slot_from_task_def)
  have free: "\<not> slot_is_free p" using p by (simp add: slot_is_task_iff)
  have "slab_inv ?s"
  proof (rule slab_invI)
    show "free_path (slots ?s) (unat (slab_head ?s)) ms (unat (slab_len ?s))"
      using path' dist ms by (simp add: free_path_update)
    have "set ms = set ns - {?h}" using dist ms by auto
    then show "set ms = {i. i < length (slots ?s) \<and> slot_is_free (slots ?s ! i)}"
      unfolding ns using h free by (auto simp: nth_list_update)
  qed (use len pos small dist ms cnt u in auto)
  moreover have "slab_lookup s (slab_head s) = None"
    using h by (simp add: slab_lookup_def slots_lookup_def slot_is_task_iff)
  moreover have "slab_lookup ?s = (slab_lookup s)(slab_head s \<mapsto> p)"
    using h p by (simp add: slab_lookup_def slots_lookup_update)
  ultimately show ?thesis using eq u by auto
qed

lemma remove_present:
  assumes inv: "slab_inv s" and i: "slab_lookup s i = Some p"
  shows "\<exists>s'. remove_dropped_task i s = Inr s' \<and> slab_remove i s = Inr (p, s') \<and> slab_inv s'
    \<and> slab_lookup s' = (slab_lookup s)(i := None) \<and> slab_head s' = i
    \<and> unat (task_count s) = unat (task_count s') + 1 \<and> slab_len s' = slab_len s"
proof -
  from inv obtain ns where len: "length (slots s) = unat (slab_len s)"
    and pos: "0 < unat (slab_len s)" and small: "unat (slab_len s) < 2 ^ 31"
    and path: "free_path (slots s) (unat (slab_head s)) ns (unat (slab_len s))"
    and dist: "distinct ns"
    and ns: "set ns = {i. i < length (slots s) \<and> slot_is_free (slots s ! i)}"
    and cnt: "unat (task_count s) + length ns = unat (slab_len s)" by (rule slab_invE)
  have ii: "unat i < length (slots s)" "slot_is_task (slots s ! unat i)" "slots s ! unat i = p"
    using i by (auto simp: slab_lookup_def slots_lookup_def split: if_splits)
  have notin: "unat i \<notin> set ns" using ns ii by (auto simp: slot_is_task_iff)
  have "set (unat i # ns) \<subseteq> {..<length (slots s)}" using ns ii by auto
  then have "card (set (unat i # ns)) \<le> length (slots s)"
    by (metis card_lessThan card_mono finite_lessThan)
  then have "Suc (length ns) \<le> unat (slab_len s)"
    using dist notin len by (simp add: distinct_card)
  then have c1: "1 \<le> unat (task_count s)" using cnt by simp
  then have sub: "sub_ovf (task_count s) 1 = Inr (task_count s - 1)"
    by (simp add: sub_ovf_def word_le_nat_alt)
  have u: "unat (task_count s) = unat (task_count s - 1) + 1"
    using c1 unat_sub_one [of "task_count s"] by (cases "task_count s = 0") auto
  have hb: "unat (slab_head s) < 2 ^ 31"
    using path small len by (cases ns) auto
  let ?s = "s\<lparr>slots := (slots s)[unat i := free_slot (slab_head s)], slab_head := i,
             task_count := task_count s - 1\<rparr>"
  have eq: "remove_dropped_task i s = Inr ?s" "slab_remove i s = Inr (p, ?s)"
    using ii sub len
    by (simp_all add: remove_dropped_task_def slab_remove_def slot_at_def word_less_nat_alt)
  have "slab_inv ?s"
  proof (rule slab_invI)
    have "free_path ((slots s)[unat i := free_slot (slab_head s)]) (unat i) (unat i # ns)
        (unat (slab_len s))"
      using link.dec_enc [OF hb] ii(1) path notin by (simp add: free_path_update)
    then show "free_path (slots ?s) (unat (slab_head ?s)) (unat i # ns) (unat (slab_len ?s))"
      using ii(1) by simp
    show "set (unat i # ns) = {j. j < length (slots ?s) \<and> slot_is_free (slots ?s ! j)}"
      using ns ii by (auto simp: nth_list_update)
  qed (use len pos small dist notin cnt u in auto)
  moreover have "slab_lookup ?s = (slab_lookup s)(i := None)"
    using ii by (simp add: slab_lookup_def slots_lookup_update slot_is_task_iff)
  ultimately show ?thesis using eq u by auto
qed

subsection \<open>The store interface\<close>

text \<open>What the runtime relies on: a store of task pointers under indices it chooses itself.\<close>

locale task_store =
  fixes inv :: "'s \<Rightarrow> bool"
    and lookup :: "'s \<Rightarrow> 'i \<Rightarrow> 'p option"
    and insert :: "'p \<Rightarrow> 's \<Rightarrow> ('i \<times> 's) res"
    and remove :: "'i \<Rightarrow> 's \<Rightarrow> 's res"
    and count :: "'s \<Rightarrow> nat"
    and room :: "'s \<Rightarrow> bool"
    and ok :: "'p \<Rightarrow> bool"
  assumes insert_spec: "inv s \<Longrightarrow> room s \<Longrightarrow> ok p \<Longrightarrow> \<exists>i s'. insert p s = Inr (i, s') \<and> inv s'
      \<and> lookup s i = None \<and> lookup s' = (lookup s)(i \<mapsto> p)"
    and remove_spec: "inv s \<Longrightarrow> lookup s i = Some p \<Longrightarrow> \<exists>s'. remove i s = Inr s' \<and> inv s'
      \<and> lookup s' = (lookup s)(i := None)"
    and count_spec: "inv s \<Longrightarrow> count s = card (dom (lookup s))"
    and finite_dom: "inv s \<Longrightarrow> finite (dom (lookup s))"
begin

lemma insert_Inr:
  assumes "inv s" "room s" "ok p" "insert p s = Inr (i, s')"
  shows "inv s'" "lookup s i = None" "lookup s' = (lookup s)(i \<mapsto> p)" "count s' = Suc (count s)"
proof -
  from insert_spec [OF assms(1-3)] assms(4)
  show inv: "inv s'" and new: "lookup s i = None" and upd: "lookup s' = (lookup s)(i \<mapsto> p)" by auto
  from new have "i \<notin> dom (lookup s)" by auto
  with inv upd assms(1) show "count s' = Suc (count s)" by (simp add: count_spec finite_dom)
qed

lemma insert_fresh:
  assumes "inv s" "room s" "ok p" "insert p s = Inr (i, s')" "lookup s j = Some q"
  shows "j \<noteq> i \<and> lookup s' j = Some q"
  using insert_Inr [OF assms(1-4)] assms(5) by auto

lemma count_zero_iff: "inv s \<Longrightarrow> count s = 0 \<longleftrightarrow> lookup s = Map.empty"
  by (simp add: count_spec finite_dom)

text \<open>Draining a list of distinct present indices, as the runtime does with its free list.\<close>

lemma remove_all:
  assumes "inv s" "distinct is" "set is \<subseteq> dom (lookup s)"
  shows "\<exists>s'. fold_res remove is s = Inr s' \<and> inv s' \<and> lookup s' = lookup s |` (- set is)
    \<and> count s = count s' + length is"
  using assms
proof (induction "is" arbitrary: s)
  case Nil
  then show ?case by (simp add: restrict_map_def)
next
  case (Cons i "is")
  then obtain p where p: "lookup s i = Some p" by auto
  from remove_spec [OF Cons.prems(1) this] obtain s1 where
    s1: "remove i s = Inr s1" "inv s1" "lookup s1 = (lookup s)(i := None)" by blast
  have "set is \<subseteq> dom (lookup s1)" using Cons.prems s1(3) by auto
  from Cons.IH [OF s1(2) _ this] Cons.prems(2) obtain s' where
    s': "fold_res remove is s1 = Inr s'" "inv s'" "lookup s' = lookup s1 |` (- set is)"
      "count s1 = count s' + length is" by auto
  have "lookup s' = lookup s |` (- set (i # is))"
    unfolding s'(3) s1(3) by (auto simp: restrict_map_def fun_eq_iff)
  moreover have "i \<in> dom (lookup s)" using p by auto
  then have "count s = Suc (count s1)"
    using s1 Cons.prems(1) by (simp add: count_spec card_gt_0_iff finite_dom) (metis Suc_pred card_gt_0_iff empty_iff finite_dom)
  ultimately show ?case using s1(1) s' by auto
qed

end

definition slab_room :: "(u32 \<Rightarrow> bool) \<Rightarrow> slab \<Rightarrow> bool" where
  "slab_room alloc_ok s \<longleftrightarrow>
     slab_head s \<noteq> slab_len s \<or> 2 * unat (slab_len s) < 2 ^ 31 \<and> alloc_ok (slab_len s * 2)"

lemma slab_insert_spec:
  assumes "slab_inv s" "slab_room alloc_ok s" "slot_is_task p"
  shows "\<exists>s'. slab_insert alloc_ok p s = Inr (slab_head s, s') \<and> slab_inv s'
    \<and> slab_lookup s (slab_head s) = None \<and> slab_lookup s' = (slab_lookup s)(slab_head s \<mapsto> p)"
proof (cases "slab_head s = slab_len s")
  case False
  with insert_no_growth [OF assms(1) False assms(3)] show ?thesis by blast
next
  case True
  with assms(2) have "2 * unat (slab_len s) < 2 ^ 31" "alloc_ok (slab_len s * 2)"
    by (auto simp: slab_room_def)
  from growth_inv [OF assms(1) True, of alloc_ok] this obtain g where
    g: "growth alloc_ok s = Inr g" "slab_inv g" "slab_lookup g = slab_lookup s"
      "slab_head g = slab_head s" "slab_head g \<noteq> slab_len g" by blast
  have "slab_insert alloc_ok p s = slab_insert alloc_ok p g"
    using True g by (simp add: slab_insert_def)
  with insert_no_growth [OF g(2,5) assms(3)] g(3,4) show ?thesis by auto
qed

lemma slab_count_spec:
  assumes "slab_inv s"
  shows "unat (slab_count s) = card (dom (slab_lookup s))"
proof -
  from assms obtain ns where len: "length (slots s) = unat (slab_len s)"
    and small: "unat (slab_len s) < 2 ^ 31" and dist: "distinct ns"
    and ns: "set ns = {i. i < length (slots s) \<and> slot_is_free (slots s ! i)}"
    and total: "unat (task_count s) + length ns = unat (slab_len s)" by (rule slab_invE)
  let ?T = "{..<length (slots s)} - set ns"
  have cast: "unat (of_nat i :: u32) = i" if "i < length (slots s)" for i
    using that small len by (intro unat_of_nat_lt) simp
  have "dom (slab_lookup s) = of_nat ` ?T"
  proof
    show "dom (slab_lookup s) \<subseteq> of_nat ` ?T"
    proof
      fix i assume "i \<in> dom (slab_lookup s)"
      then have "unat i \<in> ?T"
        by (auto simp: slab_lookup_def slots_lookup_def ns slot_is_task_iff split: if_splits)
      then show "i \<in> of_nat ` ?T" by (rule image_eqI [rotated]) simp
    qed
    show "of_nat ` ?T \<subseteq> dom (slab_lookup s)"
      by (auto simp: slab_lookup_def slots_lookup_def ns cast slot_is_task_iff)
  qed
  moreover have "inj_on (of_nat :: nat \<Rightarrow> u32) ?T"
    by (rule inj_on_inverseI [of _ unat]) (simp add: cast)
  ultimately have "card (dom (slab_lookup s)) = card ?T" by (simp add: card_image)
  also have "\<dots> = length (slots s) - length ns"
  proof -
    have "set ns \<subseteq> {..<length (slots s)}" unfolding ns by auto
    then show ?thesis using dist by (simp add: card_Diff_subset distinct_card)
  qed
  finally show ?thesis using total len by (simp add: slab_count_def)
qed

interpretation slab: task_store slab_inv slab_lookup "slab_insert alloc_ok" remove_dropped_task
  "\<lambda>s. unat (slab_count s)" "slab_room alloc_ok" slot_is_task
  for alloc_ok
proof
  fix s p assume "slab_inv s" "slab_room alloc_ok s" "slot_is_task p"
  from slab_insert_spec [OF this]
  show "\<exists>i s'. slab_insert alloc_ok p s = Inr (i, s') \<and> slab_inv s'
      \<and> slab_lookup s i = None \<and> slab_lookup s' = (slab_lookup s)(i \<mapsto> p)" by blast
next
  fix s i p assume "slab_inv s" "slab_lookup s i = Some p"
  from remove_present [OF this]
  show "\<exists>s'. remove_dropped_task i s = Inr s' \<and> slab_inv s'
      \<and> slab_lookup s' = (slab_lookup s)(i := None)" by blast
next
  fix s assume "slab_inv s"
  then show "unat (slab_count s) = card (dom (slab_lookup s))" by (rule slab_count_spec)
  have "dom (slab_lookup s) \<subseteq> {i. unat i < length (slots s)}"
    by (auto simp: slab_lookup_def slots_lookup_def split: if_splits)
  then show "finite (dom (slab_lookup s))" by (rule finite_subset) simp
qed

subsection \<open>Filling a fresh slab\<close>

primrec insert_all :: "(u32 \<Rightarrow> bool) \<Rightarrow> u64 list \<Rightarrow> slab \<Rightarrow> (SlabIdx list \<times> slab) res" where
  "insert_all alloc_ok [] s = Inr ([], s)"
| "insert_all alloc_ok (p # ps) s =
     and_then (slab_insert alloc_ok p s) (\<lambda>(i, s).
     and_then (insert_all alloc_ok ps s) (\<lambda>(is, s). Inr (i # is, s)))"

text \<open>A slab filled up to slot \<open>k\<close>, the slots from there on still linked in order.\<close>

definition filled :: "nat \<Rightarrow> slab \<Rightarrow> bool" where
  "filled k s \<longleftrightarrow> slab_head s = of_nat k \<and> k \<le> unat (slab_len s) \<and> task_count s = of_nat k
     \<and> length (slots s) = unat (slab_len s) \<and> unat (slab_len s) < 2 ^ 31
     \<and> (\<forall>j. k \<le> j \<and> j < unat (slab_len s) \<longrightarrow> slots s ! j = free_slot (of_nat (j + 1)))"

lemma filled_insert:
  assumes f: "filled k s" and k: "k < unat (slab_len s)"
  shows "\<exists>s'. slab_insert alloc_ok p s = Inr (of_nat k, s') \<and> filled (Suc k) s'
    \<and> slots s' = (slots s)[k := p] \<and> slab_len s' = slab_len s"
proof -
  have s: "slab_head s = of_nat k" "task_count s = of_nat k" "length (slots s) = unat (slab_len s)"
    "unat (slab_len s) < 2 ^ 31" "slots s ! k = free_slot (of_nat (k + 1))"
    using f k by (auto simp: filled_def)
  have u: "unat (of_nat k :: u32) = k" by (rule unat_of_nat_lt) (use k s(4) in simp)
  have u1: "unat (of_nat (k + 1) :: u32) = k + 1" by (rule unat_of_nat_lt) (use k s(4) in simp)
  have ne: "slab_head s \<noteq> slab_len s" using k u s(1) by auto
  have nxt: "slot_next_free (free_slot (of_nat (k + 1))) = Inr (of_nat (k + 1))"
    by (rule next_free_slot) (use u1 k s(4) in simp)
  have cnt: "add_ovf (task_count s) 1 = Inr (of_nat (k + 1))"
    unfolding s(2) add_ovf_Inr_iff u u1 using k s(4) by simp
  let ?s = "s\<lparr>slots := (slots s)[k := p], slab_head := of_nat (k + 1), task_count := of_nat (k + 1)\<rparr>"
  have at: "slot_at (slab_head s) s = Inr (free_slot (of_nat (k + 1)))"
    using u k s(3,5) by (simp add: slot_at_def s(1))
  have "slab_insert alloc_ok p s = Inr (of_nat k, ?s)"
    unfolding slab_insert_def if_not_P [OF ne] and_then_Inr at nxt cnt
    by (simp only: s(1) u slot_from_task_def)
  moreover have "filled (Suc k) ?s" using f k by (auto simp: filled_def)
  ultimately show ?thesis by auto
qed

lemma filled_insert_all:
  assumes "filled k s" "k + length ps \<le> unat (slab_len s)"
  shows "\<exists>s'. insert_all alloc_ok ps s = Inr (map of_nat [k..<k + length ps], s')
    \<and> take (k + length ps) (slots s') = take k (slots s) @ ps \<and> slab_len s' = slab_len s"
  using assms
proof (induction ps arbitrary: k s)
  case (Cons p ps)
  from filled_insert [OF Cons.prems(1), of alloc_ok p] Cons.prems(2) obtain s1 where
    s1: "slab_insert alloc_ok p s = Inr (of_nat k, s1)" "filled (Suc k) s1"
      "slots s1 = (slots s)[k := p]" "slab_len s1 = slab_len s" by auto
  from Cons.IH [OF s1(2)] Cons.prems(2) s1(4) obtain s' where
    s': "insert_all alloc_ok ps s1 = Inr (map of_nat [Suc k..<Suc k + length ps], s')"
      "take (Suc k + length ps) (slots s') = take (Suc k) (slots s1) @ ps" "slab_len s' = slab_len s"
    by auto
  have "k < length (slots s)" using Cons.prems by (simp add: filled_def)
  then have "take (Suc k) (slots s1) = take k (slots s) @ [p]"
    by (simp add: s1(3) take_Suc_conv_app_nth)
  moreover have "[k..<k + length (p # ps)] = k # [Suc k..<Suc k + length ps]"
    by (simp add: upt_conv_Cons del: upt_Suc)
  ultimately show ?case using s1(1) s' by (simp del: upt_Suc)
qed simp

lemma with_capacity_filled:
  assumes "0 < cap" "cap \<le> U32_MAX div 2" "alloc_ok cap"
  shows "\<exists>s. with_capacity alloc_ok cap = Inr s \<and> filled 0 s \<and> slab_len s = cap"
proof -
  have pos: "0 < unat cap" using assms(1) by (simp add: word_less_nat_alt)
  have small: "unat cap < 2 ^ 31" using assms(2) by (simp add: word_le_nat_alt)
  let ?sl = "map (\<lambda>i. free_slot (of_nat (i + 1))) [0..<unat cap]"
  let ?s = "\<lparr>slots = ?sl, slab_head = 0, slab_len = cap, task_count = 0\<rparr>"
  have "with_capacity alloc_ok cap = Inr ?s"
    using assms linked_range [of 0 "unat cap"] pos by (simp add: with_capacity_def)
  moreover have "filled 0 ?s" using small by (simp add: filled_def)
  ultimately show ?thesis by auto
qed

subsection \<open>Properties\<close>

text \<open>C17. Insertion refines a finite map from indices to task handles: with room (a free slot, or an
  allocator that provides the doubled array within the range of the links) it returns a fresh index,
  maps it to the task, keeps every other entry and adds one to the count; indexing with the returned
  index gives the task back. Growth changes no entry.\<close>

theorem slab_insert_refines:
  assumes "slab_inv s" "slab_room alloc_ok s" "slot_is_task p"
  shows "\<exists>i s'. slab_insert alloc_ok p s = Inr (i, s') \<and> slab_inv s' \<and> slab_lookup s i = None
    \<and> slab_lookup s' = (slab_lookup s)(i \<mapsto> p) \<and> slab_index i s' = Inr p
    \<and> unat (slab_count s') = unat (slab_count s) + 1"
proof -
  from slab_insert_spec [OF assms] obtain i s' where
    s': "slab_insert alloc_ok p s = Inr (i, s')" "slab_inv s'" "slab_lookup s i = None"
      "slab_lookup s' = (slab_lookup s)(i \<mapsto> p)" by blast
  moreover have "slab_index i s' = Inr p" using slab_index_lookup [OF s'(2)] s'(4) by simp
  moreover have "unat (slab_count s') = unat (slab_count s) + 1"
    using slab.insert_Inr(4) [OF assms s'(1)] by simp
  ultimately show ?thesis by blast
qed

theorem slab_insert_refines_witness:
  "\<exists>i s'. slab_insert (\<lambda>n. n \<le> 64) 0x1000
       \<lparr>slots = [free_slot 1], slab_head = 0, slab_len = 1, task_count = 0\<rparr> = Inr (i, s')
     \<and> slab_index i s' = Inr 0x1000 \<and> unat (slab_count s') = 1"
proof -
  let ?s = "\<lparr>slots = [free_slot 1], slab_head = 0, slab_len = 1, task_count = 0\<rparr>"
  have "with_capacity (\<lambda>_. True) 1 = Inr ?s" by (simp add: with_capacity_def)
  with with_capacity_inv [of 1 "\<lambda>_. True"] have "slab_inv ?s" by auto
  moreover have "slab_room (\<lambda>n. n \<le> 64) ?s" by (simp add: slab_room_def)
  moreover have "slot_is_task 0x1000" by code_simp
  ultimately show ?thesis using slab_insert_refines [of ?s "\<lambda>n. n \<le> 64" "0x1000"]
    by (auto simp: slab_count_def)
qed

text \<open>C18. Removal, in both forms (\<open>remove\<close>, \<open>remove_dropped_task\<close>), refines deletion from the map: a
  present index is deleted and nothing else changes; a free slot or an index past the end panics.
  Neither ever reads outside the slot array.\<close>

theorem slab_remove_refines:
  assumes "slab_inv s"
  shows "case slab_lookup s i of
      Some p \<Rightarrow> \<exists>s'. slab_remove i s = Inr (p, s') \<and> remove_dropped_task i s = Inr s' \<and> slab_inv s'
        \<and> slab_lookup s' = (slab_lookup s)(i := None)
        \<and> unat (slab_count s) = unat (slab_count s') + 1
    | None \<Rightarrow> (let e = Inl (Panic (if i < slab_len s then Remove_free_slot else Remove_out_of_bounds))
        in slab_remove i s = e \<and> remove_dropped_task i s = Inl (projl e))"
proof (cases "slab_lookup s i")
  case None
  have len: "length (slots s) = unat (slab_len s)" by (rule slab_inv_bounds [OF assms])
  show ?thesis
  proof (cases "i < slab_len s")
    case True
    then have i: "unat i < length (slots s)" using len by (simp add: word_less_nat_alt)
    then have "\<not> slot_is_task (slots s ! unat i)"
      using None by (auto simp: slab_lookup_def slots_lookup_def)
    with True i None show ?thesis
      by (simp add: slab_remove_def remove_dropped_task_def slot_at_def)
  qed (use None in \<open>simp add: slab_remove_def remove_dropped_task_def\<close>)
next
  case (Some p)
  with remove_present [OF assms Some] show ?thesis by (auto simp: slab_count_def)
qed

theorem slab_remove_refines_witness:
  "slab_remove 0 \<lparr>slots = [free_slot 1], slab_head = 0, slab_len = 1, task_count = 0\<rparr> =
     Inl (Panic Remove_free_slot)"
proof -
  let ?s = "\<lparr>slots = [free_slot 1], slab_head = 0, slab_len = 1, task_count = 0\<rparr>"
  have "with_capacity (\<lambda>_. True) 1 = Inr ?s" by (simp add: with_capacity_def)
  with with_capacity_inv [of 1 "\<lambda>_. True"]
  have "slab_inv ?s" "slab_lookup ?s = Map.empty" by auto
  with slab_remove_refines [of ?s 0] show ?thesis by (simp add: Let_def)
qed

text \<open>Slots are reused last-in first-out: the insertion after a removal takes the removed index,
  without growing the slab.\<close>

theorem slab_reuse_lifo:
  assumes "slab_inv s" "slab_lookup s i = Some p" "slot_is_task q"
  shows "\<exists>s1 s2. slab_remove i s = Inr (p, s1) \<and> slab_insert alloc_ok q s1 = Inr (i, s2)
    \<and> slab_inv s2 \<and> slab_lookup s2 = (slab_lookup s)(i \<mapsto> q) \<and> slab_len s2 = slab_len s"
proof -
  from remove_present [OF assms(1,2)] obtain s1 where
    s1: "slab_remove i s = Inr (p, s1)" "slab_inv s1" "slab_lookup s1 = (slab_lookup s)(i := None)"
      "slab_head s1 = i" "slab_len s1 = slab_len s" by blast
  have "unat i < unat (slab_len s)"
    using assms(2) slab_inv_bounds(1) [OF assms(1)]
    by (auto simp: slab_lookup_def slots_lookup_def split: if_splits)
  then have "slab_head s1 \<noteq> slab_len s1" using s1(4,5) by auto
  from insert_no_growth [OF s1(2) this assms(3), of alloc_ok] s1 show ?thesis by auto
qed

theorem slab_reuse_lifo_witness:
  "\<exists>s0 s1 s2. slab_insert (\<lambda>_. False) 0x1000
       \<lparr>slots = [free_slot 1], slab_head = 0, slab_len = 1, task_count = 0\<rparr> = Inr (0, s0)
     \<and> slab_remove 0 s0 = Inr (0x1000, s1) \<and> slab_insert (\<lambda>_. False) 0x2000 s1 = Inr (0, s2)"
proof -
  let ?s = "\<lparr>slots = [free_slot 1], slab_head = 0, slab_len = 1, task_count = 0\<rparr>"
  have "with_capacity (\<lambda>_. True) 1 = Inr ?s" by (simp add: with_capacity_def)
  with with_capacity_inv [of 1 "\<lambda>_. True"] have "slab_inv ?s" by auto
  moreover have t: "slot_is_task 0x1000" "slot_is_task 0x2000" by code_simp+
  ultimately obtain s0 where s0: "slab_insert (\<lambda>_. False) 0x1000 ?s = Inr (0, s0)" "slab_inv s0"
    "slab_lookup s0 0 = Some 0x1000"
    using insert_no_growth [of ?s "0x1000" "\<lambda>_. False"] by auto
  from slab_reuse_lifo [OF s0(2,3) t(2), of "\<lambda>_. False"] s0(1) show ?thesis by auto
qed

text \<open>\<open>with_capacity\<close> accepts exactly the capacities up to \<open>u32::MAX / 2\<close> the allocator provides, and
  the fresh slab then hands out the indices 0, 1, 2, ... in order, storing each task at its index,
  without growing, until it is full.\<close>

theorem fresh_slab_fills_in_order:
  assumes "0 < cap" "length ps \<le> unat cap"
  shows "if cap \<le> U32_MAX div 2 \<and> alloc_ok cap
    then \<exists>s s'. with_capacity alloc_ok cap = Inr s \<and> slab_inv s \<and> slab_lookup s = Map.empty
      \<and> insert_all grow_ok ps s = Inr (map of_nat [0..<length ps], s')
      \<and> take (length ps) (slots s') = ps \<and> slab_len s' = cap
    else \<exists>e. with_capacity alloc_ok cap = Inl (Panic e)"
proof (cases "cap \<le> U32_MAX div 2 \<and> alloc_ok cap")
  case True
  with with_capacity_filled [OF assms(1), of alloc_ok] with_capacity_inv [OF assms(1), of alloc_ok]
  obtain s where s: "with_capacity alloc_ok cap = Inr s" "filled 0 s" "slab_len s = cap" "slab_inv s"
    "slab_lookup s = Map.empty" by auto
  from filled_insert_all [OF s(2), of ps grow_ok] assms(2) s True show ?thesis by auto
next
  case False
  then have "with_capacity alloc_ok cap = Inl (Panic Capacity_too_large)
      \<or> with_capacity alloc_ok cap = Inl (Panic Slab_alloc_failed)"
    by (simp add: with_capacity_def assert_or_def)
  with False show ?thesis by (simp only: if_False) blast
qed

theorem fresh_slab_fills_in_order_witness:
  "\<exists>s s'. with_capacity (\<lambda>_. True) 4 = Inr s
     \<and> insert_all (\<lambda>_. False) [0x1000, 0x2000, 0x3000] s = Inr ([0, 1, 2], s')
     \<and> take 3 (slots s') = [0x1000, 0x2000, 0x3000]"
  using fresh_slab_fills_in_order [of 4 "[0x1000, 0x2000, 0x3000]" "\<lambda>_. True" "\<lambda>_. False"]
  by (auto simp: upt_conv_Cons numeral_3_eq_3)

text \<open>The range of the free-list links: a link stored by \<open>free_slot\<close> is read back modulo \<open>2 ^ 31\<close>, so
  it is exact precisely below \<open>2 ^ 31\<close>. The end marker of a slab of \<open>2 ^ 31\<close> slots, which \<open>growth\<close>
  does not exclude, would read back as slot 0.\<close>

theorem free_link_range:
  "slot_next_free (free_slot n) = Inr (take_bit 31 n) \<and>
   (slot_link (free_slot n) = n \<longleftrightarrow> unat n < 2 ^ 31) \<and>
   slot_next_free (free_slot 0x80000000) = Inr 0"
proof -
  have link: "slot_link (free_slot n) = take_bit 31 n" for n
    using next_free_slot_eq [of n] by (simp add: slot_next_free_def)
  have "unat (take_bit 31 n) = unat n mod 2 ^ 31"
    by (simp only: unsigned_take_bit_eq) (simp add: take_bit_eq_mod)
  then have "take_bit 31 n = n \<longleftrightarrow> unat n < 2 ^ 31"
    by (metis mod_less mod_less_divisor word_unat_eq_iff zero_less_numeral zero_less_power)
  then show ?thesis by (simp add: next_free_slot_eq link)
qed

end
