(* ===== verification/Buf_Pool.thy ===== *)
theory Buf_Pool
  imports User_Data "HOL-Library.Multiset"
begin

text \<open>
  The buffer pool of \<open>src/src/buf_pool.rs\<close>: one allocation of \<open>read_count + write_count\<close>
  buffers of \<open>N\<close> pages, the reference-counted write slots with their free queue, and the
  buffer handles \<open>RwBuffer\<close> and \<open>WBuffer\<close>. Addresses are 64-bit words; the contents of the
  buffers are not modelled. The raw pointer from a \<open>WBuffer\<close> to its pool is the pool argument
  of the operations on the handle.
\<close>

subsection \<open>Data\<close>

definition PAGE_SIZE :: nat where "PAGE_SIZE = 4096"

definition BUF_SIZE :: "nat \<Rightarrow> nat" where "BUF_SIZE N = N * PAGE_SIZE"

record buf_pool =
  pool_base :: u64
  pool_layout :: "nat \<times> nat" \<comment> \<open>size and alignment\<close>
  read_count :: u32
  write_free :: "u32 list"
  write_rc :: "u32 list"

record rw_buffer =
  rw_ptr :: u64
  rw_buf_idx :: u32
  rw_fd_idx :: u32
  rw_bytes :: u32
  rw_committed :: bool

record w_buffer =
  w_ptr :: u64
  w_abs_idx :: u32

subsection \<open>Operations of the pool\<close>

text \<open>The address of buffer \<open>i\<close>: \<open>base.add(i * BUF_SIZE)\<close>.\<close>

definition buf_addr :: "nat \<Rightarrow> buf_pool \<Rightarrow> nat \<Rightarrow> u64" where
  "buf_addr N pool i = pool_base pool + of_nat (i * BUF_SIZE N)"

text \<open>\<open>BufPool::new\<close>; the second argument is what \<open>alloc_zeroed\<close> returns (\<open>None\<close> for null).\<close>

definition BufPool_new :: "nat \<Rightarrow> u64 option \<Rightarrow> u32 \<Rightarrow> u32 \<Rightarrow> buf_pool res" where
  "BufPool_new N alloc rcount wcount =
     and_then (assert_or Pool_counts (rcount > 0 \<and> wcount > 0)) (\<lambda>_.
     and_then (add_ovf rcount wcount) (\<lambda>total32.
     (let bytes = unat total32 * BUF_SIZE N
      in and_then (assert_or Arith_overflow (bytes < 2 ^ 64)) (\<lambda>_.
         and_then (assert_or Layout_invalid (round_up bytes PAGE_SIZE < 2 ^ 63)) (\<lambda>_.
         and_then (expect Pool_oom alloc) (\<lambda>base.
         Inr \<lparr>pool_base = base, pool_layout = (bytes, PAGE_SIZE), read_count = rcount,
              write_free = map of_nat [unat rcount..<unat total32],
              write_rc = replicate (unat wcount) 0\<rparr>))))))"

definition write_buf_ptr :: "nat \<Rightarrow> u16 \<Rightarrow> buf_pool \<Rightarrow> u64" where
  "write_buf_ptr N buf_id pool = buf_addr N pool (unat (read_count pool) + unat buf_id)"

definition read_buf_addr :: "nat \<Rightarrow> u32 \<Rightarrow> buf_pool \<Rightarrow> u64 res" where
  "read_buf_addr N buf_idx pool =
     and_then (assert_or Read_index (buf_idx < read_count pool)) (\<lambda>_.
     Inr (buf_addr N pool (unat buf_idx)))"

definition build_iovecs :: "nat \<Rightarrow> buf_pool \<Rightarrow> (u64 \<times> nat) list" where
  "build_iovecs N pool =
     map (\<lambda>i. (buf_addr N pool i, BUF_SIZE N)) [0..<unat (read_count pool) + length (write_rc pool)]"

definition checkout_read :: "nat \<Rightarrow> u32 \<Rightarrow> u32 \<Rightarrow> u32 \<Rightarrow> buf_pool \<Rightarrow> rw_buffer res" where
  "checkout_read N buf_idx fd_idx bytes pool =
     and_then (assert_or Read_index (buf_idx < read_count pool)) (\<lambda>_.
     Inr \<lparr>rw_ptr = buf_addr N pool (unat buf_idx), rw_buf_idx = buf_idx, rw_fd_idx = fd_idx,
          rw_bytes = bytes, rw_committed = False\<rparr>)"

text \<open>\<open>self.write_rc[rel]\<close> with its bounds check.\<close>

definition write_rc_at :: "u32 \<Rightarrow> buf_pool \<Rightarrow> u32 res" where
  "write_rc_at rel pool =
     (if unat rel < length (write_rc pool) then Inr (write_rc pool ! unat rel)
      else Inl (Panic Slice_index))"

definition alloc_write :: "nat \<Rightarrow> buf_pool \<Rightarrow> (w_buffer \<times> buf_pool) res" where
  "alloc_write N pool =
     (case write_free pool of
        [] \<Rightarrow> Inl (Panic Write_pool_exhausted)
      | abs_idx # rest \<Rightarrow>
          and_then (sub_ovf abs_idx (read_count pool)) (\<lambda>rel.
          and_then (write_rc_at rel pool) (\<lambda>rc.
          and_then (assert_or Write_slot_state (rc = 0)) (\<lambda>_.
          Inr (\<lparr>w_ptr = buf_addr N pool (unat abs_idx), w_abs_idx = abs_idx\<rparr>,
               pool\<lparr>write_free := rest, write_rc := (write_rc pool)[unat rel := 1]\<rparr>)))))"

definition on_write_cqe :: "u32 \<Rightarrow> buf_pool \<Rightarrow> buf_pool res" where
  "on_write_cqe abs_idx pool =
     and_then (sub_ovf abs_idx (read_count pool)) (\<lambda>rel.
     and_then (write_rc_at rel pool) (\<lambda>rc.
     and_then (assert_or Write_slot_state (rc > 0)) (\<lambda>_.
     and_then (sub_ovf rc 1) (\<lambda>rc'.
     let pool' = pool\<lparr>write_rc := (write_rc pool)[unat rel := rc']\<rparr>
     in Inr (if rc' = 0 then pool'\<lparr>write_free := write_free pool' @ [abs_idx]\<rparr> else pool')))))"

subsection \<open>Operations of the handles\<close>

text \<open>\<open>Clone for WBuffer\<close>.\<close>

definition wbuffer_clone :: "w_buffer \<Rightarrow> buf_pool \<Rightarrow> (w_buffer \<times> buf_pool) res" where
  "wbuffer_clone w pool =
     and_then (sub_ovf (w_abs_idx w) (read_count pool)) (\<lambda>rel.
     and_then (write_rc_at rel pool) (\<lambda>rc.
     and_then (assert_or Write_slot_state (rc > 0)) (\<lambda>_.
     and_then (add_ovf rc 1) (\<lambda>rc'.
     Inr (w, pool\<lparr>write_rc := (write_rc pool)[unat rel := rc']\<rparr>)))))"

text \<open>\<open>Drop for WBuffer\<close>.\<close>

definition wbuffer_drop :: "w_buffer \<Rightarrow> buf_pool \<Rightarrow> buf_pool res" where
  "wbuffer_drop w pool =
     and_then (sub_ovf (w_abs_idx w) (read_count pool)) (\<lambda>rel.
     and_then (write_rc_at rel pool) (\<lambda>rc.
     and_then (assert_or Write_slot_state (rc > 0)) (\<lambda>_.
     and_then (sub_ovf rc 1) (\<lambda>rc'.
     let pool' = pool\<lparr>write_rc := (write_rc pool)[unat rel := rc']\<rparr>
     in Inr (if rc' = 0 then pool'\<lparr>write_free := write_free pool' @ [w_abs_idx w]\<rparr> else pool')))))"

text \<open>\<open>WBuffer::index\<close>: the index as the \<open>u16\<close> field of a submission.\<close>

definition wbuffer_index :: "w_buffer \<Rightarrow> u16" where
  "wbuffer_index w = ucast (w_abs_idx w)"

text \<open>The slices handed out: start address and length.\<close>

definition rw_read_slice :: "rw_buffer \<Rightarrow> u64 \<times> nat" where
  "rw_read_slice b = (rw_ptr b, unat (rw_bytes b))"

definition rw_write_slice :: "nat \<Rightarrow> rw_buffer \<Rightarrow> u64 \<times> nat" where
  "rw_write_slice N b = (rw_ptr b, BUF_SIZE N)"

definition w_write_slice :: "nat \<Rightarrow> w_buffer \<Rightarrow> u64 \<times> nat" where
  "w_write_slice N w = (w_ptr w, BUF_SIZE N)"

text \<open>\<open>Deref\<close> and \<open>DerefMut\<close> for \<open>WBuffer\<close>.\<close>

definition w_deref :: "nat \<Rightarrow> w_buffer \<Rightarrow> u64 \<times> nat" where
  "w_deref N w = (w_ptr w, N * PAGE_SIZE)"

subsection \<open>Ownership of write slots\<close>

definition slot_abs :: "buf_pool \<Rightarrow> nat \<Rightarrow> u32" where
  "slot_abs pool i = of_nat (unat (read_count pool) + i)"

text \<open>\<open>H\<close> is the multiset of live handles, by absolute index.\<close>

definition pool_owns :: "u32 multiset \<Rightarrow> buf_pool \<Rightarrow> bool" where
  "pool_owns H pool \<longleftrightarrow>
     unat (read_count pool) + length (write_rc pool) < 2 ^ 32 \<and>
     distinct (write_free pool) \<and>
     set (write_free pool) \<union> set_mset H \<subseteq> slot_abs pool ` {..<length (write_rc pool)} \<and>
     (\<forall>i < length (write_rc pool). unat (write_rc pool ! i) = count H (slot_abs pool i) \<and>
        (write_rc pool ! i = 0 \<longleftrightarrow> slot_abs pool i \<in> set (write_free pool)))"

lemma unat_slot_abs:
  assumes "unat (read_count pool) + length (write_rc pool) < 2 ^ 32" "i < length (write_rc pool)"
  shows "unat (slot_abs pool i) = unat (read_count pool) + i"
  unfolding slot_abs_def using assms by (intro unat_of_nat_lt) simp

lemma slot_abs_inj:
  assumes "unat (read_count pool) + length (write_rc pool) < 2 ^ 32"
    and "i < length (write_rc pool)" "j < length (write_rc pool)"
  shows "slot_abs pool i = slot_abs pool j \<longleftrightarrow> i = j"
  using unat_slot_abs [OF assms(1,2)] unat_slot_abs [OF assms(1,3)]
  by (metis add_left_cancel)

text \<open>The relative index of a slot, as the operations compute it.\<close>

lemma rel_of_slot:
  assumes "unat (read_count pool) + length (write_rc pool) < 2 ^ 32" "i < length (write_rc pool)"
  shows "sub_ovf (slot_abs pool i) (read_count pool) = Inr (of_nat i)"
    and "unat (of_nat i :: u32) = i"
    and "write_rc_at (of_nat i) pool = Inr (write_rc pool ! i)"
proof -
  show i: "unat (of_nat i :: u32) = i" by (rule unat_of_nat_lt) (use assms in simp)
  show "write_rc_at (of_nat i) pool = Inr (write_rc pool ! i)"
    using assms(2) i by (simp add: write_rc_at_def)
  show "sub_ovf (slot_abs pool i) (read_count pool) = Inr (of_nat i)"
    using unat_slot_abs [OF assms] i by (simp add: sub_ovf_Inr_iff word_le_nat_alt)
qed

lemma pool_ownsD:
  assumes "pool_owns H pool"
  shows "unat (read_count pool) + length (write_rc pool) < 2 ^ 32" "distinct (write_free pool)"
    "i < length (write_rc pool) \<Longrightarrow> unat (write_rc pool ! i) = count H (slot_abs pool i)"
    "i < length (write_rc pool) \<Longrightarrow>
       write_rc pool ! i = 0 \<longleftrightarrow> slot_abs pool i \<in> set (write_free pool)"
    "a \<in> set (write_free pool) \<or> a \<in># H \<Longrightarrow> \<exists>i < length (write_rc pool). a = slot_abs pool i"
  using assms unfolding pool_owns_def by auto

text \<open>Changing one slot: the common part of allocation, cloning and dropping.\<close>

lemma pool_owns_update:
  assumes own: "pool_owns H pool" and i: "i < length (write_rc pool)"
    and v: "unat v = count H' (slot_abs pool i)"
    and H': "\<And>a. a \<noteq> slot_abs pool i \<Longrightarrow> count H' a = count H a"
    and free: "distinct fr" "v = 0 \<longleftrightarrow> slot_abs pool i \<in> set fr"
      "\<And>a. a \<noteq> slot_abs pool i \<Longrightarrow> a \<in> set fr \<longleftrightarrow> a \<in> set (write_free pool)"
  shows "pool_owns H' (pool\<lparr>write_free := fr, write_rc := (write_rc pool)[i := v]\<rparr>)"
proof -
  note b = pool_ownsD(1) [OF own]
  let ?p = "pool\<lparr>write_free := fr, write_rc := (write_rc pool)[i := v]\<rparr>"
  have abs: "slot_abs ?p = slot_abs pool" by (simp add: slot_abs_def fun_eq_iff)
  have sub: "a \<in> slot_abs pool ` {..<length (write_rc pool)}" if "a \<in> set fr \<or> a \<in># H'" for a
  proof (cases "a = slot_abs pool i")
    case False
    then have "a \<in> set (write_free pool) \<or> a \<in># H"
      using that free(3) H' by (metis count_greater_zero_iff)
    with pool_ownsD(5) [OF own] show ?thesis by blast
  qed (use i in blast)
  have slots: "unat ((write_rc pool)[i := v] ! j) = count H' (slot_abs pool j) \<and>
      ((write_rc pool)[i := v] ! j = 0 \<longleftrightarrow> slot_abs pool j \<in> set fr)"
    if j: "j < length (write_rc pool)" for j
  proof (cases "j = i")
    case True
    then show ?thesis using i v free(2) by simp
  next
    case False
    then have "slot_abs pool j \<noteq> slot_abs pool i" using slot_abs_inj [OF b j i] by simp
    with False show ?thesis
      using pool_ownsD(3,4) [OF own, of j] j H' free(3) by simp
  qed
  show ?thesis
    unfolding pool_owns_def abs using b free(1) sub slots by auto
qed

lemma alloc_write_owns:
  assumes own: "pool_owns H pool" and free: "write_free pool = a # rest"
  shows "\<exists>pool'. alloc_write N pool =
      Inr (\<lparr>w_ptr = buf_addr N pool (unat a), w_abs_idx = a\<rparr>, pool')
    \<and> pool_owns (add_mset a H) pool' \<and> write_free pool' = rest \<and> a \<notin># H"
proof -
  note b = pool_ownsD(1) [OF own]
  obtain i where i: "i < length (write_rc pool)" and a: "a = slot_abs pool i"
    using pool_ownsD(5) [OF own, of a] free by auto
  have zero: "write_rc pool ! i = 0" using pool_ownsD(4) [OF own i] a free by simp
  then have notin: "a \<notin># H" using pool_ownsD(3) [OF own i] a by (simp flip: count_eq_zero_iff)
  let ?p = "pool\<lparr>write_free := rest, write_rc := (write_rc pool)[i := 1]\<rparr>"
  have "alloc_write N pool = Inr (\<lparr>w_ptr = buf_addr N pool (unat a), w_abs_idx = a\<rparr>, ?p)"
    using rel_of_slot [OF b i] zero by (simp add: alloc_write_def free a)
  moreover have "pool_owns (add_mset a H) ?p"
    by (rule pool_owns_update [OF own i])
      (use a notin free pool_ownsD(2) [OF own] in \<open>auto simp: not_in_iff\<close>)
  ultimately show ?thesis using notin by auto
qed

lemma wbuffer_clone_owns:
  assumes own: "pool_owns H pool" and a: "w_abs_idx w \<in># H"
    and max: "count H (w_abs_idx w) < 2 ^ 32 - 1"
  shows "\<exists>pool'. wbuffer_clone w pool = Inr (w, pool') \<and> pool_owns (add_mset (w_abs_idx w) H) pool'
    \<and> write_free pool' = write_free pool"
proof -
  note b = pool_ownsD(1) [OF own]
  obtain i where i: "i < length (write_rc pool)" and abs: "w_abs_idx w = slot_abs pool i"
    using pool_ownsD(5) [OF own, of "w_abs_idx w"] a by auto
  let ?rc = "write_rc pool ! i"
  have rc: "unat ?rc = count H (w_abs_idx w)" using pool_ownsD(3) [OF own i] abs by simp
  have pos: "0 < ?rc" using rc a by (simp add: word_less_nat_alt)
  have u: "unat (?rc + 1) = unat ?rc + 1" using rc max by (intro unat_add_one_of_lt) simp
  have add: "add_ovf ?rc 1 = Inr (?rc + 1)" using rc max u by (simp add: add_ovf_Inr_iff)
  let ?p = "pool\<lparr>write_free := write_free pool, write_rc := (write_rc pool)[i := ?rc + 1]\<rparr>"
  have "wbuffer_clone w pool = Inr (w, ?p)"
    using rel_of_slot [OF b i] pos add by (simp add: wbuffer_clone_def abs)
  moreover have "?rc + 1 \<noteq> 0" using u by (metis add_is_0 unsigned_0 zero_neq_one)
  then have "pool_owns (add_mset (w_abs_idx w) H) ?p"
    by (intro pool_owns_update [OF own i])
      (use abs rc u pos pool_ownsD(2) [OF own] pool_ownsD(4) [OF own i] in auto)
  ultimately show ?thesis by auto
qed

lemma wbuffer_drop_owns:
  assumes own: "pool_owns H pool" and a: "w_abs_idx w \<in># H"
  shows "\<exists>pool'. wbuffer_drop w pool = Inr pool' \<and> pool_owns (H - {#w_abs_idx w#}) pool'
    \<and> write_free pool' =
        write_free pool @ (if count H (w_abs_idx w) = 1 then [w_abs_idx w] else [])"
proof -
  note b = pool_ownsD(1) [OF own]
  obtain i where i: "i < length (write_rc pool)" and abs: "w_abs_idx w = slot_abs pool i"
    using pool_ownsD(5) [OF own, of "w_abs_idx w"] a by auto
  let ?rc = "write_rc pool ! i"
  have rc: "unat ?rc = count H (w_abs_idx w)" using pool_ownsD(3) [OF own i] abs by simp
  have pos: "0 < ?rc" using rc a by (simp add: word_less_nat_alt)
  then have nz: "?rc \<noteq> 0" by auto
  then have u: "unat (?rc - 1) = unat ?rc - 1" by (rule unat_sub_one)
  have sub: "sub_ovf ?rc 1 = Inr (?rc - 1)"
    using pos by (simp add: sub_ovf_def word_le_nat_alt word_less_nat_alt)
  have last: "?rc - 1 = 0 \<longleftrightarrow> count H (w_abs_idx w) = 1"
  proof -
    have "0 < count H (w_abs_idx w)" using a by simp
    then show ?thesis unfolding unat_eq_0_iff [symmetric] u rc by arith
  qed
  let ?fr = "write_free pool @ (if count H (w_abs_idx w) = 1 then [w_abs_idx w] else [])"
  let ?p = "pool\<lparr>write_free := ?fr, write_rc := (write_rc pool)[i := ?rc - 1]\<rparr>"
  have "wbuffer_drop w pool = Inr ?p"
    using rel_of_slot [OF b i] pos sub last by (simp add: wbuffer_drop_def abs Let_def)
  moreover have notfree: "w_abs_idx w \<notin> set (write_free pool)"
    using pool_ownsD(4) [OF own i] nz abs by simp
  have "pool_owns (H - {#w_abs_idx w#}) ?p"
    by (rule pool_owns_update [OF own i], unfold abs [symmetric])
      (use rc u notfree last pool_ownsD(2) [OF own] in auto)
  ultimately show ?thesis by auto
qed

lemma on_write_cqe_drop: "on_write_cqe (w_abs_idx w) pool = wbuffer_drop w pool"
  by (simp add: on_write_cqe_def wbuffer_drop_def)

subsection \<open>The reference-counting interface\<close>

text \<open>What a user of shared slots relies on. \<open>owns H s\<close>: exactly the handles of the multiset
  \<open>H\<close> are live in state \<open>s\<close>; \<open>free s\<close>: the queue of free slots.\<close>

locale refcounted =
  fixes owns :: "'a multiset \<Rightarrow> 's \<Rightarrow> bool"
    and free :: "'s \<Rightarrow> 'a list"
    and alloc :: "'s \<Rightarrow> ('a \<times> 's) res"
    and clone :: "'a \<Rightarrow> 's \<Rightarrow> 's res"
    and drop :: "'a \<Rightarrow> 's \<Rightarrow> 's res"
    and limit :: nat
  assumes alloc_spec: "owns H s \<Longrightarrow> free s = a # as \<Longrightarrow>
      \<exists>s'. alloc s = Inr (a, s') \<and> owns (add_mset a H) s' \<and> free s' = as \<and> a \<notin># H"
    and clone_spec: "owns H s \<Longrightarrow> a \<in># H \<Longrightarrow> count H a < limit \<Longrightarrow>
      \<exists>s'. clone a s = Inr s' \<and> owns (add_mset a H) s' \<and> free s' = free s"
    and drop_spec: "owns H s \<Longrightarrow> a \<in># H \<Longrightarrow>
      \<exists>s'. drop a s = Inr s' \<and> owns (H - {#a#}) s'
        \<and> free s' = free s @ (if count H a = 1 then [a] else [])"
begin

text \<open>Fan-out: \<open>n\<close> clones of a live handle.\<close>

lemma clone_many:
  assumes "owns H s" "a \<in># H" "count H a + n \<le> limit"
  shows "\<exists>s'. fold_res clone (replicate n a) s = Inr s' \<and> owns (H + replicate_mset n a) s'
    \<and> free s' = free s"
  using assms
proof (induction n arbitrary: s H)
  case (Suc n)
  from clone_spec [OF Suc.prems(1,2)] Suc.prems(3) obtain s1 where
    s1: "clone a s = Inr s1" "owns (add_mset a H) s1" "free s1 = free s" by auto
  from Suc.IH [OF s1(2)] Suc.prems(3) s1 show ?case by auto
qed simp

text \<open>\<open>n\<close> drops of the \<open>n\<close> handles of a slot: it is free again after the last one only.\<close>

lemma drop_many:
  assumes "owns H s" "n \<le> count H a"
  shows "\<exists>s'. fold_res drop (replicate n a) s = Inr s' \<and> owns (H - replicate_mset n a) s'
    \<and> free s' = free s @ (if 0 < n \<and> count H a = n then [a] else [])"
  using assms
proof (induction n arbitrary: s H)
  case (Suc n)
  have "a \<in># H" using Suc.prems(2) by (simp flip: count_greater_zero_iff)
  from drop_spec [OF Suc.prems(1) this] obtain s1 where
    s1: "drop a s = Inr s1" "owns (H - {#a#}) s1"
      "free s1 = free s @ (if count H a = 1 then [a] else [])" by blast
  have "n \<le> count (H - {#a#}) a" using Suc.prems(2) by simp
  from Suc.IH [OF s1(2) this] obtain s' where
    s': "fold_res drop (replicate n a) s1 = Inr s'" "owns (H - {#a#} - replicate_mset n a) s'"
      "free s' = free s1 @ (if 0 < n \<and> count H a - 1 = n then [a] else [])" by auto
  have "H - {#a#} - replicate_mset n a = H - replicate_mset (Suc n) a"
    by (simp add: diff_diff_add_mset)
  with s1 s' Suc.prems(2) show ?case by auto
qed simp

text \<open>The whole life of a fanned-out slot: allocated, cloned \<open>n\<close> times, dropped \<open>n + 1\<close>
  times.\<close>

lemma fan_out:
  assumes "owns H s" "free s = a # as" "n < limit"
  shows "\<exists>s1 s2 s3. alloc s = Inr (a, s1) \<and> fold_res clone (replicate n a) s1 = Inr s2
    \<and> free s2 = as \<and> owns (H + replicate_mset (Suc n) a) s2
    \<and> fold_res drop (replicate (Suc n) a) s2 = Inr s3 \<and> owns H s3 \<and> free s3 = as @ [a]"
proof -
  from alloc_spec [OF assms(1,2)] obtain s1 where
    s1: "alloc s = Inr (a, s1)" "owns (add_mset a H) s1" "free s1 = as" and new: "a \<notin># H" by blast
  have c: "count (add_mset a H) a = 1" using new by (simp add: not_in_iff)
  from clone_many [OF s1(2), of a n] c assms(3) obtain s2 where
    s2: "fold_res clone (replicate n a) s1 = Inr s2"
      "owns (add_mset a H + replicate_mset n a) s2" "free s2 = as" using s1(3) by auto
  have H: "add_mset a H + replicate_mset n a = H + replicate_mset (Suc n) a" by simp
  have "count (H + replicate_mset (Suc n) a) a = Suc n" using new by (simp add: not_in_iff)
  with drop_many [of "H + replicate_mset (Suc n) a" s2 "Suc n" a] s2(2,3) H
  obtain s3 where "fold_res drop (replicate (Suc n) a) s2 = Inr s3" "owns H s3" "free s3 = as @ [a]"
    by auto
  with s1 s2 H show ?thesis by auto
qed

end

text \<open>Handles of one pool are determined by their absolute index.\<close>

definition wbuffer_of :: "nat \<Rightarrow> buf_pool \<Rightarrow> u32 \<Rightarrow> w_buffer" where
  "wbuffer_of N pool a = \<lparr>w_ptr = buf_addr N pool (unat a), w_abs_idx = a\<rparr>"

interpretation wpool: refcounted pool_owns write_free
  "\<lambda>pool. and_then (alloc_write N pool) (\<lambda>(w, pool'). Inr (w_abs_idx w, pool'))"
  "\<lambda>a pool. and_then (wbuffer_clone (wbuffer_of N pool a) pool) (\<lambda>(w, pool'). Inr pool')"
  "\<lambda>a pool. wbuffer_drop (wbuffer_of N pool a) pool" "2 ^ 32 - 1"
  for N
proof
  fix H s a as assume "pool_owns H s" "write_free s = a # as"
  from alloc_write_owns [OF this, of N]
  show "\<exists>s'. and_then (alloc_write N s) (\<lambda>(w, pool'). Inr (w_abs_idx w, pool')) = Inr (a, s')
      \<and> pool_owns (add_mset a H) s' \<and> write_free s' = as \<and> a \<notin># H" by auto
next
  fix H s and a :: u32 assume "pool_owns H s" "a \<in># H" "count H a < 2 ^ 32 - 1"
  with wbuffer_clone_owns [of H s "wbuffer_of N s a"]
  show "\<exists>s'. and_then (wbuffer_clone (wbuffer_of N s a) s) (\<lambda>(w, pool'). Inr pool') = Inr s'
      \<and> pool_owns (add_mset a H) s' \<and> write_free s' = write_free s"
    by (auto simp: wbuffer_of_def)
next
  fix H s and a :: u32 assume "pool_owns H s" "a \<in># H"
  with wbuffer_drop_owns [of H s "wbuffer_of N s a"]
  show "\<exists>s'. wbuffer_drop (wbuffer_of N s a) s = Inr s' \<and> pool_owns (H - {#a#}) s'
      \<and> write_free s' = write_free s @ (if count H a = 1 then [a] else [])"
    by (auto simp: wbuffer_of_def)
qed

subsection \<open>A fresh pool\<close>

lemma BufPool_new_eq:
  assumes "0 < rcount" "0 < wcount" "unat rcount + unat wcount < 2 ^ 32"
    "round_up ((unat rcount + unat wcount) * BUF_SIZE N) PAGE_SIZE < 2 ^ 63"
  shows "BufPool_new N (Some base) rcount wcount =
    Inr \<lparr>pool_base = base, pool_layout = ((unat rcount + unat wcount) * BUF_SIZE N, PAGE_SIZE),
      read_count = rcount, write_free = map of_nat [unat rcount..<unat rcount + unat wcount],
      write_rc = replicate (unat wcount) 0\<rparr>"
proof -
  have u: "unat (rcount + wcount) = unat rcount + unat wcount"
    using assms(3) by (simp add: unat_word_ariths)
  have add: "add_ovf rcount wcount = Inr (rcount + wcount)"
    using assms(3) u by (simp add: add_ovf_Inr_iff)
  have "(unat rcount + unat wcount) * BUF_SIZE N
      \<le> round_up ((unat rcount + unat wcount) * BUF_SIZE N) PAGE_SIZE"
    by (rule round_up_ge) (simp add: PAGE_SIZE_def)
  then have "(unat rcount + unat wcount) * BUF_SIZE N < 2 ^ 64" using assms(4) by simp
  with assms add u show ?thesis by (simp add: BufPool_new_def)
qed

lemma fresh_pool_owns:
  fixes rcount wcount :: u32
  assumes "unat rcount + unat wcount < 2 ^ 32"
  shows "pool_owns {#} \<lparr>pool_base = base, pool_layout = lay, read_count = rcount,
    write_free = map of_nat [unat rcount..<unat rcount + unat wcount],
    write_rc = replicate (unat wcount) 0\<rparr>"
proof -
  let ?fr = "map of_nat [unat rcount..<unat rcount + unat wcount] :: u32 list"
  let ?p = "\<lparr>pool_base = base, pool_layout = lay, read_count = rcount, write_free = ?fr,
    write_rc = replicate (unat wcount) 0\<rparr>"
  have "inj_on (of_nat :: nat \<Rightarrow> u32) {unat rcount..<unat rcount + unat wcount}"
  proof (rule inj_on_inverseI [of _ unat])
    fix x assume "x \<in> {unat rcount..<unat rcount + unat wcount}"
    then show "unat (of_nat x :: u32) = x" using assms by (intro unat_of_nat_lt) simp
  qed
  then have "distinct ?fr" by (simp add: distinct_map)
  moreover have "set ?fr = slot_abs ?p ` {..<unat wcount}"
  proof -
    have "{unat rcount..<unat rcount + unat wcount} = (+) (unat rcount) ` {..<unat wcount}"
      by (simp add: lessThan_atLeast0 add.commute)
    then show ?thesis by (simp add: slot_abs_def image_image)
  qed
  ultimately show ?thesis
    unfolding pool_owns_def using assms by auto
qed

lemma small_pool_owns:
  "pool_owns {#} \<lparr>pool_base = 0x10000, pool_layout = (12288, 4096), read_count = 1,
     write_free = [1, 2], write_rc = [0, 0]\<rparr>"
proof -
  have "[1..<3] = [1, 2::nat]" by (simp add: upt_conv_Cons)
  moreover have "replicate 2 x = [x, x]" for x :: u32 by (simp add: numeral_2_eq_2)
  ultimately show ?thesis using fresh_pool_owns [of 1 2 "0x10000" "(12288, 4096)"] by simp
qed

text \<open>The operations on a handle read its index only.\<close>

lemma fold_res_replicate_cong:
  assumes "\<And>s. f a s = g b s"
  shows "fold_res f (replicate n a) s = fold_res g (replicate n b) s"
  using assms by (induction n arbitrary: s) (simp_all add: and_then_def split: sum.split)

lemma handle_by_index:
  assumes "w_abs_idx w = w_abs_idx w'"
  shows "wbuffer_drop w pool = wbuffer_drop w' pool"
    "and_then (wbuffer_clone w pool) (\<lambda>(_, pool'). Inr pool') =
     and_then (wbuffer_clone w' pool) (\<lambda>(_, pool'). Inr pool')"
  unfolding wbuffer_drop_def wbuffer_clone_def assms and_then_assoc by simp_all

lemma buf_addr_unat:
  assumes "unat (pool_base pool) + T * BUF_SIZE N \<le> 2 ^ 64" "i < T" "0 < N"
  shows "unat (buf_addr N pool i) = unat (pool_base pool) + i * BUF_SIZE N"
    and "unat (pool_base pool) + i * BUF_SIZE N + BUF_SIZE N \<le> unat (pool_base pool) + T * BUF_SIZE N"
proof -
  have pos: "0 < BUF_SIZE N" using assms(3) by (simp add: BUF_SIZE_def PAGE_SIZE_def)
  have "(i + 1) * BUF_SIZE N \<le> T * BUF_SIZE N" using assms(2) by (intro mult_le_mono1) simp
  then show le: "unat (pool_base pool) + i * BUF_SIZE N + BUF_SIZE N
      \<le> unat (pool_base pool) + T * BUF_SIZE N" by (simp add: algebra_simps)
  then have lt: "unat (pool_base pool) + i * BUF_SIZE N < 2 ^ 64" using assms(1) pos by linarith
  then have "unat (of_nat (i * BUF_SIZE N) :: u64) = i * BUF_SIZE N"
    by (intro unat_of_nat_lt) simp
  then show "unat (buf_addr N pool i) = unat (pool_base pool) + i * BUF_SIZE N"
    using lt by (simp add: buf_addr_def unat_word_ariths)
qed

subsection \<open>Properties\<close>

text \<open>\<open>BufPool::new\<close>: for positive counts whose buffers fit the address space it returns a pool in which
  every write slot is free, in order, and no handle is live; a zero count or a failed allocation
  panics.\<close>

theorem BufPool_new_fresh:
  assumes "unat rcount + unat wcount < 2 ^ 32"
    "round_up ((unat rcount + unat wcount) * BUF_SIZE N) PAGE_SIZE < 2 ^ 63"
  shows "case BufPool_new N alloc rcount wcount of
      Inr pool \<Rightarrow> alloc = Some (pool_base pool) \<and> 0 < rcount \<and> 0 < wcount \<and> pool_owns {#} pool
        \<and> read_count pool = rcount \<and> length (write_rc pool) = unat wcount
        \<and> write_free pool = map of_nat [unat rcount..<unat rcount + unat wcount]
    | Inl e \<Rightarrow> (rcount = 0 \<or> wcount = 0) \<and> e = Panic Pool_counts \<or> alloc = None \<and> e = Panic Pool_oom"
proof (cases "0 < rcount \<and> 0 < wcount")
  case True
  note eq = BufPool_new_eq [of rcount wcount N, OF _ _ assms]
  show ?thesis
  proof (cases alloc)
    case (Some base)
    then show ?thesis using eq [of base] True fresh_pool_owns [OF assms(1)] by simp
  next
    case None
    have "BufPool_new N None rcount wcount = Inl (Panic Pool_oom)"
      using eq [of 0] True by (auto simp: BufPool_new_def res_simps Let_def)
    with None show ?thesis by simp
  qed
next
  case False
  then show ?thesis by (auto simp: BufPool_new_def word_gt_0)
qed

theorem BufPool_new_fresh_witness:
  "case BufPool_new 1 (Some 0x10000) 2 3 of
      Inr pool \<Rightarrow> pool_owns {#} pool \<and> write_free pool = [2, 3, 4] | Inl e \<Rightarrow> False"
proof -
  have "BufPool_new 1 (Some 0x10000) 2 3 \<noteq> Inl e" for e
    using BufPool_new_eq [of 2 3 1 "0x10000"] by (simp add: BUF_SIZE_def PAGE_SIZE_def round_up_def)
  then show ?thesis
    using BufPool_new_fresh [of 2 3 1 "Some 0x10000"]
    by (cases "BufPool_new 1 (Some 0x10000) 2 3")
      (auto simp: BUF_SIZE_def PAGE_SIZE_def round_up_def upt_conv_Cons)
qed



text \<open>C31. The registered buffers tile the allocation: buffer \<open>i\<close> of the \<open>iovec\<close> table is the \<open>i\<close>-th
  slice of \<open>BUF_SIZE\<close> bytes, so distinct buffers are disjoint and none reaches past the end; a checked
  out read buffer and an allocated write buffer are exactly the registered buffer of their index.\<close>

theorem buffers_tile_the_pool:
  assumes "0 < N" "T = unat (read_count pool) + length (write_rc pool)"
    "unat (pool_base pool) + T * BUF_SIZE N \<le> 2 ^ 64" "pool_owns H pool"
  shows "length (build_iovecs N pool) = T \<and>
    (\<forall>i j. i < j \<and> j < T \<longrightarrow> unat (fst (build_iovecs N pool ! i)) + snd (build_iovecs N pool ! i)
      \<le> unat (fst (build_iovecs N pool ! j))) \<and>
    (\<forall>i < T. unat (pool_base pool) \<le> unat (fst (build_iovecs N pool ! i)) \<and>
      unat (fst (build_iovecs N pool ! i)) + snd (build_iovecs N pool ! i)
      \<le> unat (pool_base pool) + T * BUF_SIZE N) \<and>
    (\<forall>k fd n b. checkout_read N k fd n pool = Inr b \<longrightarrow>
      rw_write_slice N b = build_iovecs N pool ! unat k) \<and>
    (\<forall>w pool'. alloc_write N pool = Inr (w, pool') \<longrightarrow>
      w_write_slice N w = build_iovecs N pool ! unat (w_abs_idx w) \<and>
      w_deref N w = build_iovecs N pool ! unat (w_abs_idx w))"
proof (intro conjI allI impI)
  let ?io = "build_iovecs N pool"
  have io: "?io ! i = (buf_addr N pool i, BUF_SIZE N)" if "i < T" for i
    using that assms(2) by (simp add: build_iovecs_def)
  note addr = buf_addr_unat [OF assms(3) _ assms(1)]
  show "length ?io = T" using assms(2) by (simp add: build_iovecs_def)
  show "unat (fst (?io ! i)) + snd (?io ! i) \<le> unat (fst (?io ! j))" if "i < j \<and> j < T" for i j
  proof -
    have "(i + 1) * BUF_SIZE N \<le> j * BUF_SIZE N" using that by (intro mult_le_mono1) simp
    then show ?thesis using that io addr(1) by (simp add: algebra_simps)
  qed
  show "unat (pool_base pool) \<le> unat (fst (?io ! i))"
    "unat (fst (?io ! i)) + snd (?io ! i) \<le> unat (pool_base pool) + T * BUF_SIZE N" if "i < T" for i
    using that io addr by simp_all
  show "rw_write_slice N b = ?io ! unat k" if "checkout_read N k fd n pool = Inr b" for k fd n b
    using that io [of "unat k"] assms(2)
    by (auto simp: checkout_read_def rw_write_slice_def res_simps word_less_nat_alt)
  have slice: "w_write_slice N w = ?io ! unat (w_abs_idx w)" if w: "alloc_write N pool = Inr (w, pool')" for w pool'
  proof -
    obtain a rest where free: "write_free pool = a # rest"
      using w by (cases "write_free pool") (simp_all add: alloc_write_def)
    from pool_ownsD(5) [OF assms(4), of a] free obtain k where
      k: "k < length (write_rc pool)" "a = slot_abs pool k" by auto
    have "unat a < T" using unat_slot_abs [OF pool_ownsD(1) [OF assms(4)] k(1)] k assms(2) by simp
    then show ?thesis using alloc_write_owns [OF assms(4) free, of N] w io by (auto simp: w_write_slice_def)
  qed
  then show "w_write_slice N w = ?io ! unat (w_abs_idx w)" "w_deref N w = ?io ! unat (w_abs_idx w)"
    if "alloc_write N pool = Inr (w, pool')" for w pool'
    using that by (simp_all add: w_write_slice_def w_deref_def BUF_SIZE_def)
qed

theorem buffers_tile_the_pool_witness:
  "length (build_iovecs 1 \<lparr>pool_base = 0x10000, pool_layout = (12288, 4096), read_count = 1,
       write_free = [1, 2], write_rc = [0, 0]\<rparr>) = 3"
proof -
  from buffers_tile_the_pool [OF _ _ _ small_pool_owns, of 1 3] show ?thesis by (simp add: BUF_SIZE_def PAGE_SIZE_def)
qed

end
