(* ===== verification/Buf_Ring.thy ===== *)
theory Buf_Ring
  imports Buf_Pool
begin

text \<open>
  The provided-buffer ring of \<open>src/src/runtime.rs\<close> (\<open>Runtime::new\<close>, \<open>release_buf_to_ring\<close>):
  a page-aligned memory area of 16-byte entries shared with the kernel, modelled byte by byte,
  because its tail counter lies inside the first entry (offset 14, the reserved field).
  An entry is the buffer's address (8 bytes), length (4 bytes), id (2 bytes) and a reserved
  field (2 bytes), little-endian. The kernel consumes entries from its own head counter.
\<close>

subsection \<open>Raw memory\<close>

type_synonym ring_mem = "u8 list"

definition bytes_of :: "nat \<Rightarrow> u64 \<Rightarrow> u8 list" where
  "bytes_of k v = map (\<lambda>j. ucast (drop_bit (8 * j) v)) [0..<k]"

primrec word_of_bytes :: "u8 list \<Rightarrow> u64" where
  "word_of_bytes [] = 0"
| "word_of_bytes (b # bs) = ucast b OR push_bit 8 (word_of_bytes bs)"

definition mem_write :: "nat \<Rightarrow> u8 list \<Rightarrow> ring_mem \<Rightarrow> ring_mem" where
  "mem_write off bs m = take off m @ bs @ drop (off + length bs) m"

definition mem_read :: "nat \<Rightarrow> nat \<Rightarrow> ring_mem \<Rightarrow> u64" where
  "mem_read off k m = word_of_bytes (take k (drop off m))"

definition write_u64 :: "nat \<Rightarrow> u64 \<Rightarrow> ring_mem \<Rightarrow> ring_mem" where
  "write_u64 off v = mem_write off (bytes_of 8 v)"

definition write_u32 :: "nat \<Rightarrow> u32 \<Rightarrow> ring_mem \<Rightarrow> ring_mem" where
  "write_u32 off v = mem_write off (bytes_of 4 (ucast v))"

definition write_u16 :: "nat \<Rightarrow> u16 \<Rightarrow> ring_mem \<Rightarrow> ring_mem" where
  "write_u16 off v = mem_write off (bytes_of 2 (ucast v))"

definition read_u16 :: "nat \<Rightarrow> ring_mem \<Rightarrow> u16" where
  "read_u16 off m = ucast (mem_read off 2 m)"

definition ring_tail :: "ring_mem \<Rightarrow> u16" where
  "ring_tail m = read_u16 14 m"

text \<open>Entry \<open>k\<close> as the kernel reads it: address, length, buffer id.\<close>

definition ring_entry :: "nat \<Rightarrow> ring_mem \<Rightarrow> u64 \<times> u32 \<times> u16" where
  "ring_entry k m =
     (mem_read (16 * k) 8 m, ucast (mem_read (16 * k + 8) 4 m), read_u16 (16 * k + 12) m)"

subsection \<open>Operations\<close>

definition write_entry :: "nat \<Rightarrow> u64 \<Rightarrow> u32 \<Rightarrow> u16 \<Rightarrow> ring_mem \<Rightarrow> ring_mem" where
  "write_entry slot addr len bid m =
     write_u16 (slot + 12) bid (write_u32 (slot + 8) len (write_u64 slot addr m))"

text \<open>The part of \<open>Runtime::new\<close> that fills the ring: zeroed memory, one entry per read
  buffer, then the tail.\<close>

definition buf_ring_new :: "nat \<Rightarrow> buf_pool \<Rightarrow> ring_mem" where
  "buf_ring_new N pool =
     (let io_vec = build_iovecs N pool;
          n = unat (read_count pool);
          m = fold (\<lambda>i. write_entry (i * 16) (fst (io_vec ! i)) (of_nat (snd (io_vec ! i))) (of_nat i))
                [0..<n] (replicate (n * 16) 0)
      in write_u16 14 (of_nat n) m)"

definition release_buf_to_ring :: "u32 \<Rightarrow> buf_pool \<Rightarrow> ring_mem \<Rightarrow> ring_mem res" where
  "release_buf_to_ring buf_idx pool m =
     (let ring_entries = unat (read_count pool)
      in and_then (assert_or Arith_overflow (1 \<le> ring_entries)) (\<lambda>_.
         let mask = ring_entries - 1;
             tail = unat (ring_tail m);
             slot = (tail AND mask) * 16
         in and_then (read_buf_addr 1 buf_idx pool) (\<lambda>addr.
            Inr (write_u16 14 (of_nat (tail + 1))
                  (write_entry slot addr (of_nat (BUF_SIZE 1)) (ucast buf_idx) m)))))"

subsection \<open>Bytes\<close>

lemma length_bytes_of [simp]: "length (bytes_of k v) = k"
  by (simp add: bytes_of_def)

lemma word_of_bytes_of: "word_of_bytes (bytes_of k v) = take_bit (8 * k) v"
proof (induction k arbitrary: v)
  case 0
  then show ?case by (simp add: bytes_of_def)
next
  case (Suc k)
  have shift: "bytes_of (Suc k) v = ucast v # bytes_of k (drop_bit 8 v)"
    unfolding bytes_of_def upt_conv_Cons [OF zero_less_Suc] map_Suc_upt [symmetric]
    by (simp add: drop_bit_drop_bit add.commute comp_def)
  have "ucast (ucast v :: u8) OR push_bit 8 (take_bit (8 * k) (drop_bit 8 v)) = take_bit (8 * Suc k) v"
    by (rule bit_word_eqI) (auto simp: bit_simps not_less)
  then show ?case by (simp add: shift Suc.IH)
qed

lemma length_mem_write: "off + length bs \<le> length m \<Longrightarrow> length (mem_write off bs m) = length m"
  by (simp add: mem_write_def)

lemma mem_read_write_same:
  "off + length bs \<le> length m \<Longrightarrow> mem_read off (length bs) (mem_write off bs m) = word_of_bytes bs"
  by (simp add: mem_read_def mem_write_def)

lemma nth_mem_write:
  "off + length bs \<le> length m \<Longrightarrow> i < length m \<Longrightarrow>
   mem_write off bs m ! i = (if off \<le> i \<and> i < off + length bs then bs ! (i - off) else m ! i)"
  by (auto simp: mem_write_def nth_append nth_drop)

lemma mem_read_write_other:
  assumes "off + length bs \<le> length m" "off' + k \<le> length m" "off' + k \<le> off \<or> off + length bs \<le> off'"
  shows "mem_read off' k (mem_write off bs m) = mem_read off' k m"
proof -
  have "take k (drop off' (mem_write off bs m)) = take k (drop off' m)"
    by (rule nth_equalityI) (use assms in \<open>auto simp: length_mem_write nth_mem_write\<close>)
  then show ?thesis by (simp add: mem_read_def)
qed

subsection \<open>Fields\<close>

lemma length_writes:
  "off + 8 \<le> length m \<Longrightarrow> length (write_u64 off v m) = length m"
  "off + 4 \<le> length m \<Longrightarrow> length (write_u32 off w m) = length m"
  "off + 2 \<le> length m \<Longrightarrow> length (write_u16 off x m) = length m"
  by (simp_all add: write_u64_def write_u32_def write_u16_def length_mem_write)

lemma read_write_same:
  "off + 8 \<le> length m \<Longrightarrow> mem_read off 8 (write_u64 off v m) = v"
  "off + 4 \<le> length m \<Longrightarrow> ucast (mem_read off 4 (write_u32 off w m)) = w"
  "off + 2 \<le> length m \<Longrightarrow> read_u16 off (write_u16 off x m) = x"
proof -
  assume "off + 8 \<le> length m"
  then show "mem_read off 8 (write_u64 off v m) = v"
    using mem_read_write_same [of off "bytes_of 8 v" m]
    by (simp add: write_u64_def word_of_bytes_of take_bit_word_eq_self)
next
  assume "off + 4 \<le> length m"
  then have "mem_read off 4 (write_u32 off w m) = take_bit 32 (ucast w)"
    using mem_read_write_same [of off "bytes_of 4 (ucast w)" m]
    by (simp add: write_u32_def word_of_bytes_of)
  then show "ucast (mem_read off 4 (write_u32 off w m)) = w"
    by (simp only:) (rule bit_word_eqI, auto simp: bit_simps)
next
  assume "off + 2 \<le> length m"
  then have "mem_read off 2 (write_u16 off x m) = take_bit 16 (ucast x)"
    using mem_read_write_same [of off "bytes_of 2 (ucast x)" m]
    by (simp add: write_u16_def word_of_bytes_of)
  then show "read_u16 off (write_u16 off x m) = x"
    unfolding read_u16_def by (simp only:) (rule bit_word_eqI, auto simp: bit_simps)
qed

lemma read_write_other:
  "off + 8 \<le> length m \<Longrightarrow> off' + k \<le> length m \<Longrightarrow> off' + k \<le> off \<or> off + 8 \<le> off' \<Longrightarrow>
     mem_read off' k (write_u64 off v m) = mem_read off' k m"
  "off + 4 \<le> length m \<Longrightarrow> off' + k \<le> length m \<Longrightarrow> off' + k \<le> off \<or> off + 4 \<le> off' \<Longrightarrow>
     mem_read off' k (write_u32 off w m) = mem_read off' k m"
  "off + 2 \<le> length m \<Longrightarrow> off' + k \<le> length m \<Longrightarrow> off' + k \<le> off \<or> off + 2 \<le> off' \<Longrightarrow>
     mem_read off' k (write_u16 off x m) = mem_read off' k m"
  by (simp_all add: write_u64_def write_u32_def write_u16_def mem_read_write_other)

lemma read_write_u16_other:
  "off + 8 \<le> length m \<Longrightarrow> off' + 2 \<le> length m \<Longrightarrow> off' + 2 \<le> off \<or> off + 8 \<le> off' \<Longrightarrow>
     read_u16 off' (write_u64 off v m) = read_u16 off' m"
  "off + 4 \<le> length m \<Longrightarrow> off' + 2 \<le> length m \<Longrightarrow> off' + 2 \<le> off \<or> off + 4 \<le> off' \<Longrightarrow>
     read_u16 off' (write_u32 off w m) = read_u16 off' m"
  "off + 2 \<le> length m \<Longrightarrow> off' + 2 \<le> length m \<Longrightarrow> off' + 2 \<le> off \<or> off + 2 \<le> off' \<Longrightarrow>
     read_u16 off' (write_u16 off x m) = read_u16 off' m"
  by (simp_all add: read_u16_def read_write_other)

lemmas mem_simps = length_writes read_write_same read_write_other read_write_u16_other

subsection \<open>Entries and tail\<close>

lemma length_write_entry:
  "slot + 16 \<le> length m \<Longrightarrow> length (write_entry slot a l b m) = length m"
  by (simp add: write_entry_def mem_simps)

lemma ring_tail_write_entry:
  assumes "16 * j + 16 \<le> length m"
  shows "ring_tail (write_entry (16 * j) a l b m) = ring_tail m"
  using assms by (cases j) (simp_all add: ring_tail_def write_entry_def mem_simps)

lemma ring_tail_write: "16 \<le> length m \<Longrightarrow> ring_tail (write_u16 14 t m) = t"
  by (simp add: ring_tail_def mem_simps)

lemma ring_entry_write_tail:
  assumes "16 * k + 16 \<le> length m"
  shows "ring_entry k (write_u16 14 t m) = ring_entry k m"
  using assms by (cases k) (simp_all add: ring_entry_def mem_simps)

lemma ring_entry_write_entry:
  assumes "16 * k + 16 \<le> length m" "16 * j + 16 \<le> length m"
  shows "ring_entry k (write_entry (16 * j) a l b m) = (if k = j then (a, l, b) else ring_entry k m)"
proof (cases "k = j")
  case True
  then show ?thesis using assms by (simp add: ring_entry_def write_entry_def mem_simps)
next
  case False
  then have "k < j \<or> j < k" by arith
  then have "16 * k + 16 \<le> 16 * j \<or> 16 * j + 16 \<le> 16 * k" by arith
  with False assms show ?thesis by (auto simp: ring_entry_def write_entry_def mem_simps)
qed

subsection \<open>Releasing a buffer\<close>

text \<open>A ring of \<open>n\<close> entries: \<open>n\<close> is a power of two and the \<open>u16\<close> counters can tell full from
  empty.\<close>

definition ring_wf :: "nat \<Rightarrow> ring_mem \<Rightarrow> bool" where
  "ring_wf n m \<longleftrightarrow> length m = 16 * n \<and> (\<exists>e \<le> 15. n = 2 ^ e)"

lemma ring_wf_bounds:
  assumes "ring_wf n m"
  shows "0 < n" "n \<le> 32768" "n dvd 65536" "length m = 16 * n"
proof -
  from assms obtain e where e: "e \<le> 15" "n = 2 ^ e" and len: "length m = 16 * n"
    by (auto simp: ring_wf_def)
  have "(2::nat) ^ e \<le> 2 ^ 15" using e(1) by (rule power_increasing) simp
  then show "n \<le> 32768" using e(2) by simp
  have "(2::nat) ^ e dvd 2 ^ 16" using e(1) by (intro le_imp_power_dvd) simp
  then show "n dvd 65536" using e(2) by simp
  show "0 < n" "length m = 16 * n" using e(2) len by simp_all
qed

lemma and_mask_mod: "ring_wf n m \<Longrightarrow> t AND (n - 1) = t mod n" for t :: nat
proof -
  assume "ring_wf n m"
  then obtain e where e: "n = 2 ^ e" by (auto simp: ring_wf_def)
  have "n - 1 = mask e" by (simp add: e mask_eq_exp_minus_1)
  then show ?thesis by (simp add: e flip: take_bit_eq_mask take_bit_eq_mod)
qed

definition released_entry :: "u32 \<Rightarrow> buf_pool \<Rightarrow> u64 \<times> u32 \<times> u16" where
  "released_entry buf_idx pool = (buf_addr 1 pool (unat buf_idx), 4096, ucast buf_idx)"

lemma release_spec:
  assumes wf: "ring_wf n m" and n: "n = unat (read_count pool)" and i: "buf_idx < read_count pool"
  shows "\<exists>m'. release_buf_to_ring buf_idx pool m = Inr m' \<and> ring_wf n m'
    \<and> ring_tail m' = ring_tail m + 1
    \<and> (\<forall>k < n. ring_entry k m' =
          (if k = unat (ring_tail m) mod n then released_entry buf_idx pool else ring_entry k m))"
proof -
  note b = ring_wf_bounds [OF wf]
  let ?j = "unat (ring_tail m) mod n"
  let ?w = "write_entry (16 * ?j) (buf_addr 1 pool (unat buf_idx)) 4096 (ucast buf_idx) m"
  let ?m = "write_u16 14 (of_nat (unat (ring_tail m) + 1)) ?w"
  have j: "16 * ?j + 16 \<le> length m" using mod_less_divisor [OF b(1), of "unat (ring_tail m)"] b(4) by linarith
  have lw: "length ?w = length m" using j by (rule length_write_entry)
  have lm: "length ?m = length m" using lw b by (simp add: mem_simps)
  have eq: "release_buf_to_ring buf_idx pool m = Inr ?m"
    using i b(1) and_mask_mod [OF wf] n
    by (simp add: release_buf_to_ring_def read_buf_addr_def BUF_SIZE_def PAGE_SIZE_def Let_def
        mult.commute [of _ 16])
  have "ring_entry k ?m = (if k = ?j then released_entry buf_idx pool else ring_entry k m)"
    if "k < n" for k
  proof -
    have k: "16 * k + 16 \<le> length m" using that b(4) by simp
    then have "ring_entry k ?m = ring_entry k ?w" using lw by (simp add: ring_entry_write_tail)
    then show ?thesis using k j by (simp add: ring_entry_write_entry released_entry_def)
  qed
  moreover have "ring_tail ?m = ring_tail m + 1" using lw b by (simp add: ring_tail_write)
  moreover have "ring_wf n ?m" using wf lm by (simp add: ring_wf_def)
  ultimately show ?thesis using eq by blast
qed

subsection \<open>The ring as a queue\<close>

text \<open>The entries between the kernel's head and the tail, oldest first.\<close>

definition ring_avail :: "u16 \<Rightarrow> ring_mem \<Rightarrow> nat" where
  "ring_avail h m = unat (ring_tail m - h)"

definition ring_queue :: "nat \<Rightarrow> u16 \<Rightarrow> ring_mem \<Rightarrow> (u64 \<times> u32 \<times> u16) list" where
  "ring_queue n h m = map (\<lambda>j. ring_entry ((unat h + j) mod n) m) [0..<ring_avail h m]"

lemma tail_index:
  assumes "ring_wf n m"
  shows "unat (ring_tail m) mod n = (unat h + ring_avail h m) mod n"
proof -
  have "unat (h + (ring_tail m - h)) = (unat h + ring_avail h m) mod 65536"
    by (simp only: unat_word_ariths ring_avail_def) simp
  then have "unat (ring_tail m) = (unat h + ring_avail h m) mod 65536" by simp
  then show ?thesis using ring_wf_bounds(3) [OF assms] by (simp add: mod_mod_cancel)
qed

lemma mod_add_neq: "j < k \<Longrightarrow> k < n \<Longrightarrow> (a + j) mod n \<noteq> (a + k) mod n" for a j k n :: nat
proof
  assume lt: "j < k" "k < n" and eq: "(a + j) mod n = (a + k) mod n"
  have "n dvd (a + k) - (a + j)"
    by (rule iffD1 [OF mod_eq_dvd_iff_nat]) (use lt eq in simp_all)
  then have "n dvd k - j" by simp
  with lt show False by (simp add: nat_dvd_not_less)
qed

lemma release_queue:
  assumes wf: "ring_wf n m" and n: "n = unat (read_count pool)" and i: "buf_idx < read_count pool"
    and room: "ring_avail h m < n"
  shows "\<exists>m'. release_buf_to_ring buf_idx pool m = Inr m' \<and> ring_wf n m'
    \<and> ring_queue n h m' = ring_queue n h m @ [released_entry buf_idx pool]
    \<and> ring_avail h m' = ring_avail h m + 1"
proof -
  from release_spec [OF wf n i] obtain m' where
    rel: "release_buf_to_ring buf_idx pool m = Inr m'" "ring_wf n m'"
      "ring_tail m' = ring_tail m + 1"
    and entry: "\<And>k. k < n \<Longrightarrow> ring_entry k m' =
      (if k = unat (ring_tail m) mod n then released_entry buf_idx pool else ring_entry k m)"
    by blast
  note b = ring_wf_bounds [OF wf]
  let ?a = "ring_avail h m"
  have "ring_tail m' - h = (ring_tail m - h) + 1" using rel(3) by simp
  then have avail: "ring_avail h m' = ?a + 1"
    unfolding ring_avail_def using room b(2)
    by (simp only:) (rule unat_add_one_of_lt, simp add: ring_avail_def)
  have old: "ring_entry ((unat h + j) mod n) m' = ring_entry ((unat h + j) mod n) m" if "j < ?a" for j
    using entry [of "(unat h + j) mod n"] tail_index [OF wf, of h] mod_add_neq [OF that room, of "unat h"] b(1)
    by simp
  have new: "ring_entry ((unat h + ?a) mod n) m' = released_entry buf_idx pool"
    using entry [of "(unat h + ?a) mod n"] tail_index [OF wf, of h] b(1) by simp
  have "ring_queue n h m' = ring_queue n h m @ [released_entry buf_idx pool]"
    using avail old new by (simp add: ring_queue_def)
  with rel avail show ?thesis by blast
qed

text \<open>The kernel takes the oldest entry and advances its head.\<close>

lemma consume_queue:
  assumes "ring_wf n m" "0 < ring_avail h m"
  shows "ring_queue n h m = ring_entry (unat h mod n) m # ring_queue n (h + 1) m"
    and "ring_avail (h + 1) m = ring_avail h m - 1"
proof -
  have nz: "ring_tail m - h \<noteq> 0" using assms(2) by (auto simp: ring_avail_def)
  have "ring_tail m - (h + 1) = (ring_tail m - h) - 1" by simp
  then show avail: "ring_avail (h + 1) m = ring_avail h m - 1"
    unfolding ring_avail_def by (simp only: unat_sub_one [OF nz])
  have idx: "(unat (h + 1) + j) mod n = (unat h + Suc j) mod n" for j
  proof -
    have "unat (h + 1) mod n = (unat h + 1) mod n"
      using ring_wf_bounds(3) [OF assms(1)] by (simp add: unat_word_ariths mod_mod_cancel)
    then show ?thesis by (metis add.assoc mod_add_left_eq plus_1_eq_Suc)
  qed
  obtain a where a: "ring_avail h m = Suc a" using assms(2) by (cases "ring_avail h m") auto
  show "ring_queue n h m = ring_entry (unat h mod n) m # ring_queue n (h + 1) m"
    unfolding ring_queue_def avail a
    by (simp add: upt_conv_Cons map_Suc_upt [symmetric] idx comp_def del: upt_Suc)
qed

subsection \<open>The initial ring\<close>

lemma fold_write_entries:
  fixes f :: "nat \<Rightarrow> u64" and g :: "nat \<Rightarrow> u16" and l :: u32
  assumes "j \<le> n" "length m = 16 * n"
  defines "w \<equiv> fold (\<lambda>i. write_entry (i * 16) (f i) l (g i)) [0..<j] m"
  shows "length w = 16 * n \<and> ring_tail w = ring_tail m
    \<and> (\<forall>k < n. ring_entry k w = (if k < j then (f k, l, g k) else ring_entry k m))"
  unfolding w_def using assms(1)
proof (induction j)
  case 0
  then show ?case using assms(2) by simp
next
  case (Suc j)
  let ?w = "fold (\<lambda>i. write_entry (i * 16) (f i) l (g i)) [0..<j] m"
  have IH: "length ?w = 16 * n" "ring_tail ?w = ring_tail m"
    "\<And>k. k < n \<Longrightarrow> ring_entry k ?w = (if k < j then (f k, l, g k) else ring_entry k m)"
    using Suc by auto
  have j: "16 * j + 16 \<le> length ?w" using Suc.prems IH(1) by simp
  let ?w' = "write_entry (16 * j) (f j) l (g j) ?w"
  have "length ?w' = 16 * n" using j IH(1) by (simp add: length_write_entry)
  moreover have "ring_tail ?w' = ring_tail m" using j IH(2) by (simp add: ring_tail_write_entry)
  moreover have "ring_entry k ?w' = (if k < Suc j then (f k, l, g k) else ring_entry k m)"
    if "k < n" for k
    using ring_entry_write_entry [of k ?w j] j IH that by auto
  ultimately show ?case by (simp add: mult.commute)
qed

lemma nth_build_iovecs:
  "i < unat (read_count pool) \<Longrightarrow> build_iovecs N pool ! i = (buf_addr N pool i, BUF_SIZE N)"
  by (simp add: build_iovecs_def)

text \<open>After \<open>Runtime::new\<close> every read buffer is available, in index order.\<close>

lemma buf_ring_new_spec:
  assumes n: "n = unat (read_count pool)" and pow: "\<exists>e \<le> 15. n = 2 ^ e"
  shows "ring_wf n (buf_ring_new 1 pool)" "ring_tail (buf_ring_new 1 pool) = of_nat n"
    "k < n \<Longrightarrow> ring_entry k (buf_ring_new 1 pool) = released_entry (of_nat k) pool"
proof -
  have small: "0 < n" "n \<le> 32768"
    using ring_wf_bounds(1,2) [of n "replicate (16 * n) 0"] pow by (auto simp: ring_wf_def)
  let ?io = "build_iovecs 1 pool" and ?z = "replicate (n * 16) (0::u8)"
  let ?w = "fold (\<lambda>i. write_entry (i * 16) (buf_addr 1 pool i) 4096 (of_nat i)) [0..<n] ?z"
  have "fold (\<lambda>i. write_entry (i * 16) (fst (?io ! i)) (of_nat (snd (?io ! i))) (of_nat i)) [0..<n] ?z = ?w"
    by (rule fold_cong) (simp_all add: nth_build_iovecs n BUF_SIZE_def PAGE_SIZE_def)
  then have new: "buf_ring_new 1 pool = write_u16 14 (of_nat n) ?w"
    by (simp add: buf_ring_new_def Let_def n)
  have w: "length ?w = 16 * n" "\<And>k. k < n \<Longrightarrow> ring_entry k ?w = (buf_addr 1 pool k, 4096, of_nat k)"
    using fold_write_entries [of n n ?z "buf_addr 1 pool" 4096 of_nat] by (simp_all add: mult.commute)
  show "ring_wf n (buf_ring_new 1 pool)"
    unfolding new using pow w(1) small by (simp add: ring_wf_def mem_simps)
  show "ring_tail (buf_ring_new 1 pool) = of_nat n"
    unfolding new using w(1) small by (simp add: ring_tail_write)
  show "ring_entry k (buf_ring_new 1 pool) = released_entry (of_nat k) pool" if "k < n"
  proof -
    have "unat (of_nat k :: u32) = k" by (rule unat_of_nat_lt) (use that small in simp)
    moreover have "ucast (of_nat k :: u32) = (of_nat k :: u16)"
      using that small by (simp add: unsigned_of_nat take_bit_nat_eq_self)
    ultimately show ?thesis
      unfolding new using w that by (simp add: ring_entry_write_tail released_entry_def)
  qed
qed

lemma buf_ring_new_queue:
  assumes n: "n = unat (read_count pool)" and pow: "\<exists>e \<le> 15. n = 2 ^ e"
  shows "ring_queue n 0 (buf_ring_new 1 pool) = map (\<lambda>k. released_entry (of_nat k) pool) [0..<n]"
    and "ring_avail 0 (buf_ring_new 1 pool) = n"
proof -
  have small: "n \<le> 32768" using ring_wf_bounds(2) [OF buf_ring_new_spec(1) [OF assms]] .
  show avail: "ring_avail 0 (buf_ring_new 1 pool) = n"
    unfolding ring_avail_def buf_ring_new_spec(2) [OF assms] diff_zero
    by (rule unat_of_nat_lt) (use small in simp)
  show "ring_queue n 0 (buf_ring_new 1 pool) = map (\<lambda>k. released_entry (of_nat k) pool) [0..<n]"
    unfolding ring_queue_def avail by (simp add: buf_ring_new_spec(3) [OF assms] del: One_nat_def)
qed

subsection \<open>The queue interface\<close>

text \<open>What the owner of buffers relies on: a bounded queue whose consumer takes the oldest item.\<close>

locale fifo =
  fixes inv :: "'s \<Rightarrow> bool"
    and contents :: "'s \<Rightarrow> 'a list"
    and push :: "'b \<Rightarrow> 's \<Rightarrow> 's res"
    and pop :: "'s \<Rightarrow> 'a \<times> 's"
    and item :: "'b \<Rightarrow> 'a"
    and ok :: "'b \<Rightarrow> bool"
    and cap :: nat
  assumes push_spec: "inv s \<Longrightarrow> ok x \<Longrightarrow> length (contents s) < cap \<Longrightarrow>
      \<exists>s'. push x s = Inr s' \<and> inv s' \<and> contents s' = contents s @ [item x]"
    and pop_spec: "inv s \<Longrightarrow> contents s = a # as \<Longrightarrow>
      \<exists>s'. pop s = (a, s') \<and> inv s' \<and> contents s' = as"
begin

lemma push_many:
  assumes "inv s" "list_all ok xs" "length (contents s) + length xs \<le> cap"
  shows "\<exists>s'. fold_res push xs s = Inr s' \<and> inv s' \<and> contents s' = contents s @ map item xs"
  using assms
proof (induction xs arbitrary: s)
  case (Cons x xs)
  from push_spec [OF Cons.prems(1), of x] Cons.prems obtain s1 where
    s1: "push x s = Inr s1" "inv s1" "contents s1 = contents s @ [item x]" by auto
  from Cons.IH [OF s1(2)] Cons.prems s1 show ?case by auto
qed simp

text \<open>A buffer taken and given back goes to the end; the others keep their order.\<close>

lemma pop_push:
  assumes "inv s" "contents s = a # as" "ok x" "length (contents s) \<le> cap"
  shows "\<exists>s1 s2. pop s = (a, s1) \<and> push x s1 = Inr s2 \<and> inv s2 \<and> contents s2 = as @ [item x]"
proof -
  from pop_spec [OF assms(1,2)] obtain s1 where s1: "pop s = (a, s1)" "inv s1" "contents s1 = as"
    by blast
  with push_spec [OF s1(2) assms(3)] assms(2,4) show ?thesis by auto
qed

end

text \<open>The kernel's side: take the entry at the head.\<close>

definition ring_consume :: "nat \<Rightarrow> u16 \<times> ring_mem \<Rightarrow> (u64 \<times> u32 \<times> u16) \<times> u16 \<times> ring_mem" where
  "ring_consume n = (\<lambda>(h, m). (ring_entry (unat h mod n) m, h + 1, m))"

definition ring_release :: "buf_pool \<Rightarrow> u32 \<Rightarrow> u16 \<times> ring_mem \<Rightarrow> (u16 \<times> ring_mem) res" where
  "ring_release pool i = (\<lambda>(h, m). and_then (release_buf_to_ring i pool m) (\<lambda>m'. Inr (h, m')))"

lemma length_ring_queue: "length (ring_queue n h m) = ring_avail h m"
  by (simp add: ring_queue_def)

interpretation ring: fifo "\<lambda>(h, m). ring_wf (unat (read_count pool)) m"
  "\<lambda>(h, m). ring_queue (unat (read_count pool)) h m" "ring_release pool"
  "ring_consume (unat (read_count pool))" "\<lambda>i. released_entry i pool"
  "\<lambda>i. i < read_count pool" "unat (read_count pool)"
  for pool
proof (unfold_locales, goal_cases)
  case (1 s x)
  then obtain h m where s: "s = (h, m)" by (cases s)
  from release_queue [of "unat (read_count pool)" m pool x h] 1 s show ?case
    by (auto simp: ring_release_def length_ring_queue)
next
  case (2 s a as)
  then obtain h m where s: "s = (h, m)" by (cases s)
  have "0 < ring_avail h m" using 2 s length_ring_queue [of "unat (read_count pool)" h m] by simp
  with consume_queue(1) [of "unat (read_count pool)" m h] 2 s show ?case
    by (auto simp: ring_consume_def)
qed

subsection \<open>Properties\<close>

text \<open>Releasing a read buffer: for an index of the pool and a ring of a power of two of entries, the
  entry at the tail position becomes the buffer's address, length and id, the tail advances by one
  (modulo \<open>2 ^ 16\<close>), and no other entry changes, although the tail counter is stored inside the first
  entry. An index outside the pool panics and writes nothing.\<close>

theorem release_buf_to_ring_exact:
  assumes "ring_wf (unat (read_count pool)) m"
  shows "if buf_idx < read_count pool
    then \<exists>m'. release_buf_to_ring buf_idx pool m = Inr m' \<and> ring_wf (unat (read_count pool)) m'
      \<and> ring_tail m' = ring_tail m + 1
      \<and> (\<forall>k < unat (read_count pool). ring_entry k m' =
            (if k = unat (ring_tail m) mod unat (read_count pool)
             then (buf_addr 1 pool (unat buf_idx), 4096, ucast buf_idx) else ring_entry k m))
    else release_buf_to_ring buf_idx pool m = Inl (Panic Read_index)"
proof (cases "buf_idx < read_count pool")
  case True
  then show ?thesis
    using release_spec [OF assms refl True] by (simp only: released_entry_def if_True)
next
  case False
  have "1 \<le> unat (read_count pool)" using ring_wf_bounds(1) [OF assms] by simp
  with False show ?thesis by (simp add: release_buf_to_ring_def read_buf_addr_def Let_def)
qed

theorem release_buf_to_ring_exact_witness:
  "\<exists>m'. release_buf_to_ring 1 \<lparr>pool_base = 0x10000, pool_layout = (12288, 4096), read_count = 2,
       write_free = [2], write_rc = [0]\<rparr> (replicate 32 0) = Inr m'
     \<and> ring_tail m' = ring_tail (replicate 32 0) + 1"
proof -
  let ?p = "\<lparr>pool_base = 0x10000, pool_layout = (12288, 4096), read_count = 2, write_free = [2],
    write_rc = [0]\<rparr>"
  have "ring_wf (unat (read_count ?p)) (replicate 32 0)"
    by (auto simp: ring_wf_def intro: exI [of _ 1])
  from release_buf_to_ring_exact [OF this, of 1] show ?thesis by auto
qed

text \<open>C21. The ring is a first-in first-out queue: starting from any consistent ring, releasing buffers
  while there is room appends exactly their entries, in order, to what the kernel has yet to consume,
  wherever the 16-bit counters stand (wrap-around included).\<close>

theorem releases_append:
  assumes "ring_wf (unat (read_count pool)) m" "list_all (\<lambda>i. i < read_count pool) bufs"
    "ring_avail h m + length bufs \<le> unat (read_count pool)"
  shows "\<exists>m'. fold_res (\<lambda>i. release_buf_to_ring i pool) bufs m = Inr m'
    \<and> ring_wf (unat (read_count pool)) m'
    \<and> ring_queue (unat (read_count pool)) h m' =
        ring_queue (unat (read_count pool)) h m @ map (\<lambda>i. released_entry i pool) bufs"
proof -
  have head: "fold_res (ring_release pool) bufs (h, m) =
      and_then (fold_res (\<lambda>i. release_buf_to_ring i pool) bufs m) (\<lambda>m'. Inr (h, m'))"
    by (induction bufs arbitrary: m) (auto simp: ring_release_def and_then_def split: sum.split)
  from ring.push_many [of pool "(h, m)" bufs] assms obtain s' where
    s': "fold_res (ring_release pool) bufs (h, m) = Inr s'"
      "case s' of (h, m) \<Rightarrow> ring_wf (unat (read_count pool)) m"
      "(case s' of (h, m) \<Rightarrow> ring_queue (unat (read_count pool)) h m) =
       ring_queue (unat (read_count pool)) h m @ map (\<lambda>i. released_entry i pool) bufs"
    by (auto simp: length_ring_queue)
  then show ?thesis by (auto simp: head res_simps)
qed

theorem releases_append_witness:
  "\<exists>m'. fold_res (\<lambda>i. release_buf_to_ring i \<lparr>pool_base = 0x10000, pool_layout = (12288, 4096),
         read_count = 2, write_free = [2], write_rc = [0]\<rparr>) [1, 0] (replicate 32 0) = Inr m'
     \<and> ring_wf 2 m'"
proof -
  let ?p = "\<lparr>pool_base = 0x10000, pool_layout = (12288, 4096), read_count = 2, write_free = [2],
    write_rc = [0]\<rparr>"
  have wf: "ring_wf (unat (read_count ?p)) (replicate 32 0)"
    by (auto simp: ring_wf_def intro: exI [of _ 1])
  have "ring_avail (ring_tail (replicate 32 0)) (replicate 32 0) = 0" by (simp add: ring_avail_def)
  then show ?thesis
    using releases_append [OF wf, of "[1, 0]" "ring_tail (replicate 32 0)"] by auto
qed

text \<open>\<open>Runtime::new\<close> fills the ring: for a power of two of read buffers up to \<open>2 ^ 15\<close>, the kernel finds
  every read buffer exactly once, in index order, each with its address in the pool, its length and
  its id, and writing the tail does not disturb the first entry.\<close>

theorem initial_ring_complete:
  assumes "\<exists>e \<le> 15. unat (read_count pool) = 2 ^ e"
  shows "ring_wf (unat (read_count pool)) (buf_ring_new 1 pool) \<and>
    ring_avail 0 (buf_ring_new 1 pool) = unat (read_count pool) \<and>
    ring_queue (unat (read_count pool)) 0 (buf_ring_new 1 pool) =
      map (\<lambda>k. (buf_addr 1 pool k, 4096, of_nat k)) [0..<unat (read_count pool)]"
proof -
  have "unat (of_nat k :: u32) = k \<and> (ucast (of_nat k :: u32) :: u16) = of_nat k"
    if "k < unat (read_count pool)" for k
  proof -
    have "k < 2 ^ 32" using that unat_u32_lt [of "read_count pool"] by simp
    then show ?thesis by (simp add: unsigned_of_nat take_bit_nat_eq_self)
  qed
  then have "map (\<lambda>k. released_entry (of_nat k) pool) [0..<unat (read_count pool)] =
      map (\<lambda>k. (buf_addr 1 pool k, 4096, of_nat k)) [0..<unat (read_count pool)]"
    by (simp add: released_entry_def)
  with buf_ring_new_spec(1) [OF refl assms] buf_ring_new_queue [OF refl assms] show ?thesis by simp
qed

theorem initial_ring_complete_witness:
  "ring_avail 0 (buf_ring_new 1 \<lparr>pool_base = 0x10000, pool_layout = (4194304, 4096), read_count = 512,
     write_free = [], write_rc = []\<rparr>) = 512"
proof -
  have "\<exists>e \<le> 15. (512::nat) = 2 ^ e" by (intro exI [of _ 9]) simp
  then show ?thesis
    using initial_ring_complete [of "\<lparr>pool_base = 0x10000, pool_layout = (4194304, 4096),
      read_count = 512, write_free = [], write_rc = []\<rparr>"] by simp
qed

end
