(* ===== verification/Runtime.thy ===== *)
theory Runtime
  imports Task_Slab Buf_Ring
begin

text \<open>
  The runtime of \<open>src/src/runtime.rs\<close>: its state (the \<open>Runtime\<close> value and the thread-local
  cells beside it), the submission functions, the life cycle of a task (\<open>spawn\<close>, \<open>release\<close>,
  the free list), the dispatch of completions and the event loop.

  What the crate calls but does not contain is an argument: \<open>env\<close> holds the layout of a future,
  the global allocator, the io_uring crate's readers of completion flags and the capacity test
  of its submission queue; the kernel is an argument of the event loop. The functions that poll
  and drop a type-erased future (\<open>poll_fn\<close>, \<open>drop_fn\<close> of the header) are arguments too.
  \<open>println!\<close> output and the borrow flags of the \<open>RefCell\<close>s are not modelled.
\<close>

subsection \<open>State\<close>

text \<open>A submission queue entry: the opcode with the arguments its builder was given.\<close>

datatype opcode =
    Op_Read u32 u32 u16                \<comment> \<open>fixed file, length, buffer group; \<open>BUFFER_SELECT\<close>\<close>
  | Op_Accept i32                      \<comment> \<open>listening fd; automatic fixed-file slot\<close>
  | Op_WriteFixed u32 u64 u32 u16      \<comment> \<open>fixed file, address, length, registered buffer\<close>
  | Op_RecvMulti u32 u16               \<comment> \<open>fixed file, buffer group\<close>
  | Op_AcceptMulti i32                 \<comment> \<open>listening fd; automatic fixed-file slot\<close>
  | Op_Connect u32 u64 u32             \<comment> \<open>fixed file, address of the sockaddr, its length\<close>
  | Op_Socket                          \<comment> \<open>TCP stream socket; automatic fixed-file slot\<close>

record sqe =
  sqe_op :: opcode
  sqe_user_data :: u64

record 'f runtime =
  rt_heap :: "'f heap"                 \<comment> \<open>the live task allocations\<close>
  rt_tasks :: slab
  rt_buffer :: buf_pool
  rt_pending :: "sqe list"
  rt_buf_ring :: ring_mem
  rt_current :: task_info              \<comment> \<open>\<open>CURRENT_TASK\<close>\<close>
  rt_free_list :: "SlabIdx list"       \<comment> \<open>\<open>RUNTIME_FREE_LIST\<close>\<close>
  rt_wake_list :: "task_info list"     \<comment> \<open>\<open>RUNTIME_WAKE_LIST\<close>\<close>
  rt_freed_reads :: nat                \<comment> \<open>counters read after \<open>dealloc\<close>, see \<open>task_release\<close>\<close>

record 'f env =
  env_layout :: "'f \<Rightarrow> nat \<times> nat"                        \<comment> \<open>size and alignment of a future\<close>
  env_malloc :: "(u64 \<Rightarrow> bool) \<Rightarrow> u32 \<Rightarrow> u64 option"      \<comment> \<open>given what is live; \<open>None\<close> is null\<close>
  env_slab_alloc :: "u32 \<Rightarrow> bool"                        \<comment> \<open>slab arrays the allocator provides\<close>
  env_more :: "u32 \<Rightarrow> bool"                              \<comment> \<open>\<open>cqueue::more\<close>\<close>
  env_buffer_select :: "u32 \<Rightarrow> u16 option"               \<comment> \<open>\<open>cqueue::buffer_select\<close>\<close>
  env_sq_room :: "nat \<Rightarrow> bool"                           \<comment> \<open>\<open>push_multiple\<close> accepts that many\<close>

type_synonym 'f poll_fn = "'f \<Rightarrow> 'f runtime \<Rightarrow> ('f \<times> bool \<times> 'f runtime) res"
type_synonym 'f drop_fn = "'f \<Rightarrow> 'f runtime \<Rightarrow> 'f runtime res"

abbreviation cur_idx :: "'f runtime \<Rightarrow> SlabIdx" where
  "cur_idx rt \<equiv> tag_task_idx (ti_tag (rt_current rt))"

subsection \<open>Construction\<close>

text \<open>The set-up calls \<open>Runtime::new\<close> makes: the allocator and the registrations of the io_uring crate,
  each given what the source passes. \<open>Some e\<close> is an \<open>Err\<close> of a registration.\<close>

record ring_setup =
  su_ring :: "u32 \<Rightarrow> bool"                              \<comment> \<open>\<open>build(entries)\<close> succeeds\<close>
  su_files :: "u32 \<Rightarrow> i32 option"                       \<comment> \<open>\<open>register_files_sparse\<close>\<close>
  su_pool :: "u64 option"                               \<comment> \<open>\<open>alloc_zeroed\<close> of the pool\<close>
  su_buffers :: "(u64 \<times> nat) list \<Rightarrow> i32 option"        \<comment> \<open>\<open>register_buffers\<close>\<close>
  su_ring_mem :: bool                                   \<comment> \<open>\<open>alloc_zeroed\<close> of the ring is not null\<close>
  su_buf_ring :: "ring_mem \<Rightarrow> u16 \<Rightarrow> i32 option"        \<comment> \<open>\<open>register_buf_ring_with_flags\<close>\<close>
  su_slab :: "u32 \<Rightarrow> bool"                              \<comment> \<open>the slab's array\<close>

text \<open>The \<open>?\<close> operator on a registration.\<close>

definition try_io :: "i32 option \<Rightarrow> (i32 + 'a) res \<Rightarrow> (i32 + 'a) res" where
  "try_io r m = (case r of Some e \<Rightarrow> Inr (Inl e) | None \<Rightarrow> m)"

definition Runtime_new :: "ring_setup \<Rightarrow> u32 \<Rightarrow> u32 \<Rightarrow> (i32 + 'f runtime) res" where
  "Runtime_new su entries max_connections =
     and_then (assert_or Ring_creation_failed (su_ring su entries)) (\<lambda>_.
     try_io (su_files su max_connections)
       (and_then (BufPool_new 1 (su_pool su) 512 512) (\<lambda>buffer.
        try_io (su_buffers su (build_iovecs 1 buffer))
          (and_then (assert_or Buf_ring_oom (su_ring_mem su)) (\<lambda>_.
           let buf_ring = buf_ring_new 1 buffer
           in try_io (su_buf_ring su buf_ring (ucast (read_count buffer)))
                (and_then (with_capacity (su_slab su) 16) (\<lambda>tasks.
                 Inr (Inr \<lparr>rt_heap = Map.empty, rt_tasks = tasks, rt_buffer = buffer, rt_pending = [],
                           rt_buf_ring = buf_ring, rt_current = TaskInfo_dummy, rt_free_list = [],
                           rt_wake_list = [], rt_freed_reads = 0\<rparr>))))))))"

text \<open>The initialiser of the thread-local runtime.\<close>

definition GLOBAL_RUNTIME :: "ring_setup \<Rightarrow> 'f runtime res" where
  "GLOBAL_RUNTIME su =
     and_then (Runtime_new su 1024 1024) (\<lambda>r.
     case r of Inl e \<Rightarrow> Inl (Panic Runtime_creation_failed) | Inr rt \<Rightarrow> Inr rt)"

subsection \<open>Access to tasks\<close>

text \<open>\<open>self.tasks[idx]\<close> followed by an operation on the header.\<close>

definition with_task :: "SlabIdx \<Rightarrow> ('f raw_task \<Rightarrow> 'f raw_task res) \<Rightarrow> 'f runtime \<Rightarrow> 'f runtime res" where
  "with_task i f rt =
     and_then (slab_index i (rt_tasks rt)) (\<lambda>p.
     and_then (task_update p f (rt_heap rt)) (\<lambda>h. Inr (rt\<lparr>rt_heap := h\<rparr>)))"

text \<open>\<open>rt.tasks[idx].clone()\<close>.\<close>

definition clone_task_at :: "SlabIdx \<Rightarrow> 'f runtime \<Rightarrow> (u64 \<times> 'f runtime) res" where
  "clone_task_at i rt =
     and_then (slab_index i (rt_tasks rt)) (\<lambda>p.
     and_then (task_clone p (rt_heap rt)) (\<lambda>(q, h). Inr (q, rt\<lparr>rt_heap := h\<rparr>)))"

definition rt_augmente_syscall_nb :: "tag \<Rightarrow> 'f runtime \<Rightarrow> 'f runtime res" where
  "rt_augmente_syscall_nb t = with_task (tag_task_idx t) augmente_syscall_nb"

definition advance_syscall_nb :: "tag \<Rightarrow> 'f runtime \<Rightarrow> 'f runtime res" where
  "advance_syscall_nb t = with_task (tag_task_idx t) augmente_syscall_nb"

subsection \<open>Submissions\<close>

definition sqe_queue_push :: "sqe \<Rightarrow> 'f runtime \<Rightarrow> 'f runtime" where
  "sqe_queue_push e rt = rt\<lparr>rt_pending := rt_pending rt @ [e]\<rparr>"

definition set_current_task_multiple :: "bool \<Rightarrow> 'f runtime \<Rightarrow> 'f runtime" where
  "set_current_task_multiple is_multiple_arg rt =
     (let info = rt_current rt; t = ti_tag info;
          nb = (if is_multiple_arg then tag_syscall_nb t OR 0x8000
                else tag_syscall_nb t AND NOT 0x8000)
      in rt\<lparr>rt_current := info\<lparr>ti_tag := t\<lparr>tag_syscall_nb := nb\<rparr>\<rparr>\<rparr>)"

definition current_udata :: "'f runtime \<Rightarrow> u64" where
  "current_udata rt = into_user_data (TaskInfo_into_payload (rt_current rt))"

definition send_read :: "u32 \<Rightarrow> 'f runtime \<Rightarrow> 'f runtime res" where
  "send_read fd rt =
     (let udata = current_udata rt
      in and_then (with_task (cur_idx rt) inc_rc rt) (\<lambda>rt.
         Inr (sqe_queue_push \<lparr>sqe_op = Op_Read fd (of_nat (BUF_SIZE 1)) 0, sqe_user_data = udata\<rparr> rt)))"

definition send_accept :: "i32 \<Rightarrow> 'f runtime \<Rightarrow> 'f runtime res" where
  "send_accept listen_fd rt =
     (let udata = current_udata rt
      in and_then (with_task (cur_idx rt) inc_rc rt) (\<lambda>rt.
         Inr (sqe_queue_push \<lparr>sqe_op = Op_Accept listen_fd, sqe_user_data = udata\<rparr> rt)))"

definition send_write :: "u32 \<Rightarrow> u16 \<Rightarrow> u32 \<Rightarrow> 'f runtime \<Rightarrow> 'f runtime res" where
  "send_write fd buf_id len rt =
     (let udata = current_udata rt
      in and_then (with_task (cur_idx rt) inc_rc rt) (\<lambda>rt.
         let buf_ptr = write_buf_ptr 1 buf_id (rt_buffer rt)
         in Inr (sqe_queue_push \<lparr>sqe_op = Op_WriteFixed fd buf_ptr len buf_id,
                                 sqe_user_data = udata\<rparr> rt)))"

definition send_recv_multishot :: "u32 \<Rightarrow> 'f runtime \<Rightarrow> 'f runtime res" where
  "send_recv_multishot fd rt0 =
     (let rt = set_current_task_multiple True rt0; udata = current_udata rt
      in and_then (with_task (cur_idx rt) (\<lambda>t. Inr (set_multishot t)) rt) (\<lambda>rt.
         and_then (with_task (cur_idx rt) inc_rc rt) (\<lambda>rt.
         Inr (sqe_queue_push \<lparr>sqe_op = Op_RecvMulti fd 0, sqe_user_data = udata\<rparr> rt))))"

definition send_accept_multishot :: "i32 \<Rightarrow> 'f runtime \<Rightarrow> 'f runtime res" where
  "send_accept_multishot listen_fd rt0 =
     (let rt = set_current_task_multiple True rt0; udata = current_udata rt
      in and_then (with_task (cur_idx rt) (\<lambda>t. Inr (set_multishot t)) rt) (\<lambda>rt.
         and_then (with_task (cur_idx rt) inc_rc rt) (\<lambda>rt.
         Inr (sqe_queue_push \<lparr>sqe_op = Op_AcceptMulti listen_fd, sqe_user_data = udata\<rparr> rt))))"

definition send_commit_write :: "u64 \<Rightarrow> u32 \<Rightarrow> u32 \<Rightarrow> u16 \<Rightarrow> 'f runtime \<Rightarrow> 'f runtime res" where
  "send_commit_write ptr fd_idx len buf_id rt0 =
     (let rt = set_current_task_multiple True rt0; udata = current_udata rt
      in and_then (with_task (cur_idx rt) inc_rc rt) (\<lambda>rt.
         Inr (sqe_queue_push \<lparr>sqe_op = Op_WriteFixed fd_idx ptr len buf_id,
                              sqe_user_data = udata\<rparr> rt)))"

definition send_connect :: "u32 \<Rightarrow> u64 \<Rightarrow> u32 \<Rightarrow> 'f runtime \<Rightarrow> 'f runtime res" where
  "send_connect fd addr addrlen rt =
     (let udata = current_udata rt
      in and_then (with_task (cur_idx rt) inc_rc rt) (\<lambda>rt.
         Inr (sqe_queue_push \<lparr>sqe_op = Op_Connect fd addr addrlen, sqe_user_data = udata\<rparr> rt)))"

definition send_socket :: "'f runtime \<Rightarrow> 'f runtime res" where
  "send_socket rt =
     (let udata = current_udata rt
      in and_then (with_task (cur_idx rt) inc_rc rt) (\<lambda>rt.
         Inr (sqe_queue_push \<lparr>sqe_op = Op_Socket, sqe_user_data = udata\<rparr> rt)))"

text \<open>Handles of write buffers inside the runtime.\<close>

definition on_pool :: "(buf_pool \<Rightarrow> buf_pool res) \<Rightarrow> 'f runtime \<Rightarrow> 'f runtime res" where
  "on_pool f rt = and_then (f (rt_buffer rt)) (\<lambda>b. Inr (rt\<lparr>rt_buffer := b\<rparr>))"

definition clone_wbuffer :: "w_buffer \<Rightarrow> 'f runtime \<Rightarrow> 'f runtime res" where
  "clone_wbuffer w = on_pool (\<lambda>b. and_then (wbuffer_clone w b) (\<lambda>(_, b'). Inr b'))"

definition drop_wbuffer :: "w_buffer \<Rightarrow> 'f runtime \<Rightarrow> 'f runtime res" where
  "drop_wbuffer w = on_pool (wbuffer_drop w)"

text \<open>\<open>WBuffer::write\<close> builds the entry; being a method on \<open>self\<close> it then drops its handle.\<close>

definition wbuffer_write_entry :: "w_buffer \<Rightarrow> u32 \<Rightarrow> u32 \<Rightarrow> u64 \<Rightarrow> sqe" where
  "wbuffer_write_entry w fd_idx len udata =
     \<lparr>sqe_op = Op_WriteFixed fd_idx (w_ptr w) len (wbuffer_index w), sqe_user_data = udata\<rparr>"

definition wbuffer_write :: "w_buffer \<Rightarrow> u32 \<Rightarrow> u32 \<Rightarrow> u64 \<Rightarrow> 'f runtime \<Rightarrow> (sqe \<times> 'f runtime) res" where
  "wbuffer_write w fd_idx len udata rt =
     and_then (drop_wbuffer w rt) (\<lambda>rt. Inr (wbuffer_write_entry w fd_idx len udata, rt))"

text \<open>The free function \<open>sqe_queue_push\<close>, which borrows the thread's runtime.\<close>

definition push_entry :: "sqe \<Rightarrow> 'f runtime \<Rightarrow> 'f runtime" where
  "push_entry entry rt = sqe_queue_push entry rt"

text \<open>\<open>WBuffer::submit\<close>: pushes the entry, then \<open>self\<close> goes out of scope and is dropped.\<close>

definition wbuffer_submit :: "w_buffer \<Rightarrow> u32 \<Rightarrow> u32 \<Rightarrow> 'f runtime \<Rightarrow> 'f runtime res" where
  "wbuffer_submit w fd_idx len rt =
     drop_wbuffer w
       (push_entry (wbuffer_write_entry w fd_idx len (wbuf_write_udata (w_abs_idx w))) rt)"

text \<open>The loop of \<open>send_multiple_write\<close>: one entry per descriptor, numbered by \<open>response_gen\<close>.\<close>

primrec send_writes :: "user_data_payload \<Rightarrow> w_buffer \<Rightarrow> u32 \<Rightarrow> nat \<Rightarrow> u32 list \<Rightarrow> 'f runtime \<Rightarrow> 'f runtime res" where
  "send_writes udata w len idx [] rt = Inr rt"
| "send_writes udata w len idx (fd # fds) rt =
     and_then (clone_wbuffer w rt) (\<lambda>rt.
     and_then (wbuffer_write w fd len (into_user_data (udata\<lparr>up_response_gen := of_nat idx\<rparr>)) rt)
       (\<lambda>(entry, rt).
     send_writes udata w len (Suc idx) fds (sqe_queue_push entry rt)))"

definition send_multiple_write :: "u32 list \<Rightarrow> w_buffer \<Rightarrow> u32 \<Rightarrow> 'f runtime \<Rightarrow> 'f runtime res" where
  "send_multiple_write fds w len rt =
     (let user_data = TaskInfo_into_payload (rt_current rt)
      in and_then (send_writes user_data w len 0 fds rt) (\<lambda>rt.
         and_then (with_task (up_task_idx user_data) (add_rc (of_nat (length fds))) rt) (\<lambda>rt.
         drop_wbuffer w rt)))"

text \<open>The free functions that the calls use: each borrows the thread's runtime for one submission.\<close>

definition submit_read :: "u32 \<Rightarrow> 'f runtime \<Rightarrow> 'f runtime res" where
  "submit_read fd rt = send_read fd rt"

definition submit_accept :: "i32 \<Rightarrow> 'f runtime \<Rightarrow> 'f runtime res" where
  "submit_accept listen_fd rt = send_accept listen_fd rt"

definition submit_write :: "u32 \<Rightarrow> u16 \<Rightarrow> u32 \<Rightarrow> 'f runtime \<Rightarrow> 'f runtime res" where
  "submit_write fd buf_id len rt = send_write fd buf_id len rt"

definition submit_recv_multishot :: "u32 \<Rightarrow> 'f runtime \<Rightarrow> 'f runtime res" where
  "submit_recv_multishot fd rt = send_recv_multishot fd rt"

definition submit_accept_multishot :: "i32 \<Rightarrow> 'f runtime \<Rightarrow> 'f runtime res" where
  "submit_accept_multishot listen_fd rt = send_accept_multishot listen_fd rt"

definition submit_commit_write :: "u64 \<Rightarrow> u32 \<Rightarrow> u32 \<Rightarrow> u16 \<Rightarrow> 'f runtime \<Rightarrow> 'f runtime res" where
  "submit_commit_write ptr fd_idx len buf_id rt = send_commit_write ptr fd_idx len buf_id rt"

definition submit_connect :: "u32 \<Rightarrow> u64 \<Rightarrow> u32 \<Rightarrow> 'f runtime \<Rightarrow> 'f runtime res" where
  "submit_connect fd addr addrlen rt = send_connect fd addr addrlen rt"

definition submit_socket :: "'f runtime \<Rightarrow> 'f runtime res" where
  "submit_socket rt = send_socket rt"

definition submit_multiple_write :: "u32 list \<Rightarrow> w_buffer \<Rightarrow> u32 \<Rightarrow> 'f runtime \<Rightarrow> 'f runtime res" where
  "submit_multiple_write fds buffer len rt = send_multiple_write fds buffer len rt"

lemmas submits [simp] = submit_read_def submit_accept_def submit_write_def submit_recv_multishot_def
  submit_accept_multishot_def submit_commit_write_def submit_connect_def submit_socket_def submit_multiple_write_def

definition alloc_write_buffer :: "'f runtime \<Rightarrow> (w_buffer \<times> 'f runtime) res" where
  "alloc_write_buffer rt =
     and_then (alloc_write 1 (rt_buffer rt)) (\<lambda>(w, b). Inr (w, rt\<lparr>rt_buffer := b\<rparr>))"

definition release_read_buf :: "u32 \<Rightarrow> 'f runtime \<Rightarrow> 'f runtime res" where
  "release_read_buf buf_idx rt =
     and_then (release_buf_to_ring buf_idx (rt_buffer rt) (rt_buf_ring rt)) (\<lambda>m.
     Inr (rt\<lparr>rt_buf_ring := m\<rparr>))"

text \<open>\<open>Drop for RwBuffer\<close>.\<close>

definition rwbuffer_drop :: "rw_buffer \<Rightarrow> 'f runtime \<Rightarrow> 'f runtime res" where
  "rwbuffer_drop b rt =
     (if rw_committed b then Inr rt else release_read_buf (rw_buf_idx b) rt)"

definition current_result :: "'f runtime \<Rightarrow> i32" where
  "current_result rt = ti_result (rt_current rt)"

definition current_cqe_flags :: "'f runtime \<Rightarrow> u32" where
  "current_cqe_flags rt = ti_flags (rt_current rt)"

subsection \<open>Task life cycle\<close>

text \<open>\<open>Task::release\<close>. The function ends by reading the counter back through the handle. After the last
  release the allocation it reads from has just been freed: undefined behaviour, on every last release.
  No caller uses the value, so the model goes on with no value, \<open>None\<close>, and counts the read in
  \<open>rt_freed_reads\<close>. It is the one undefined behaviour that is not the fault \<open>Ub\<close>.\<close>

definition task_release :: "'f drop_fn \<Rightarrow> u64 \<Rightarrow> 'f runtime \<Rightarrow> (u16 option \<times> 'f runtime) res" where
  "task_release drop_fn p rt =
     and_then (task_deref p (rt_heap rt)) (\<lambda>t.
     and_then (sub_ovf (ref_counter t) 1) (\<lambda>counter.
     let rt = rt\<lparr>rt_heap := (rt_heap rt)(p \<mapsto> t\<lparr>ref_counter := counter\<rparr>)\<rparr>
     in if counter = 0
        then and_then (drop_fn (task_fut t) rt) (\<lambda>rt.
             and_then (task_deref p (rt_heap rt)) (\<lambda>raw.
             let rt = rt\<lparr>rt_heap := (rt_heap rt)(p := None)\<rparr>;
                 rt = (case slab_idx raw of
                         Some task_idx \<Rightarrow> rt\<lparr>rt_free_list := rt_free_list rt @ [task_idx]\<rparr>
                       | None \<Rightarrow> rt)
             in Inr (None, rt\<lparr>rt_freed_reads := Suc (rt_freed_reads rt)\<rparr>)))
        else Inr (Some counter, rt)))"

text \<open>\<open>Drop for Task\<close>.\<close>

definition task_drop :: "'f drop_fn \<Rightarrow> u64 \<Rightarrow> 'f runtime \<Rightarrow> 'f runtime res" where
  "task_drop drop_fn p rt = and_then (task_release drop_fn p rt) (\<lambda>(_, rt). Inr rt)"

text \<open>\<open>Task::poll\<close>: the future lives in the allocation and is left there in its new state.\<close>

definition task_poll_with :: "('f runtime \<Rightarrow> ('f \<times> bool \<times> 'f runtime) res) \<Rightarrow> u64 \<Rightarrow> 'f runtime
    \<Rightarrow> (bool \<times> 'f runtime) res" where
  "task_poll_with run p rt =
     and_then (run rt) (\<lambda>(fut', ready, rt).
     and_then (task_deref p (rt_heap rt)) (\<lambda>t.
     Inr (ready, rt\<lparr>rt_heap := (rt_heap rt)(p \<mapsto> t\<lparr>task_fut := fut'\<rparr>)\<rparr>)))"

definition task_poll :: "'f poll_fn \<Rightarrow> u64 \<Rightarrow> 'f runtime \<Rightarrow> (bool \<times> 'f runtime) res" where
  "task_poll poll_fn p rt =
     and_then (task_deref p (rt_heap rt)) (\<lambda>t. task_poll_with (poll_fn (task_fut t)) p rt)"

text \<open>\<open>Task::new\<close> with its allocation.\<close>

definition task_alloc :: "'f env \<Rightarrow> 'f \<Rightarrow> 'f runtime \<Rightarrow> (u64 \<times> 'f runtime) res" where
  "task_alloc E fut rt =
     (case env_layout E fut of (sz, align) \<Rightarrow>
       and_then (task_new sz align fut) (\<lambda>t.
       and_then (expect Task_alloc_failed
                   (env_malloc E (\<lambda>p. rt_heap rt p \<noteq> None) (alloc_size t))) (\<lambda>p.
       Inr (p, rt\<lparr>rt_heap := (rt_heap rt)(p \<mapsto> t)\<rparr>))))"

text \<open>The part of \<open>spawn\<close> before the first poll: allocate, clone into the slab, switch the
  current task.\<close>

definition spawn_insert :: "'f env \<Rightarrow> 'f \<Rightarrow> 'f runtime \<Rightarrow> (u64 \<times> task_info \<times> 'f runtime) res" where
  "spawn_insert E fut rt =
     and_then (task_alloc E fut rt) (\<lambda>(p, rt).
     and_then (task_clone p (rt_heap rt)) (\<lambda>(q, h).
     and_then (insert_task (env_slab_alloc E) q h (rt_tasks rt)) (\<lambda>(task_idx, h, tasks).
     let old = rt_current rt
     in Inr (p, old, rt\<lparr>rt_heap := h, rt_tasks := tasks, rt_current := initial_poll task_idx\<rparr>))))"

text \<open>The part after it: the explicit release, the restored context, the handle going out of
  scope.\<close>

definition spawn_finish :: "'f drop_fn \<Rightarrow> u64 \<Rightarrow> task_info \<Rightarrow> 'f runtime \<Rightarrow> 'f runtime res" where
  "spawn_finish drop_fn p old rt =
     and_then (task_release drop_fn p rt) (\<lambda>(_, rt).
     task_drop drop_fn p (rt\<lparr>rt_current := old\<rparr>))"

definition spawn :: "'f env \<Rightarrow> 'f poll_fn \<Rightarrow> 'f drop_fn \<Rightarrow> 'f \<Rightarrow> 'f runtime \<Rightarrow> 'f runtime res" where
  "spawn E poll_fn drop_fn fut rt =
     and_then (spawn_insert E fut rt) (\<lambda>(p, old, rt).
     and_then (task_poll poll_fn p rt) (\<lambda>(_, rt).
     spawn_finish drop_fn p old rt))"

definition free_unsed_slab_slot :: "'f runtime \<Rightarrow> 'f runtime res" where
  "free_unsed_slab_slot rt =
     and_then (fold_res remove_dropped_task (rt_free_list rt) (rt_tasks rt)) (\<lambda>tasks.
     Inr (rt\<lparr>rt_tasks := tasks, rt_free_list := []\<rparr>))"

subsection \<open>Completions\<close>

text \<open>The \<open>match\<close> on the classification of the completion's system-call number.\<close>

definition dispatch_cqe :: "'f poll_fn \<Rightarrow> u64 \<Rightarrow> task_info \<Rightarrow> 'f runtime \<Rightarrow> 'f runtime res" where
  "dispatch_cqe poll_fn p info rt =
     and_then (task_deref p (rt_heap rt)) (\<lambda>t.
     let nb_syscall = tag_syscall_nb (ti_tag info)
     in case evaluate_syscall_nb nb_syscall t of
          Error \<Rightarrow> Inl (Panic Newer_cqe)
        | Expired \<Rightarrow> Inr rt
        | Normal \<Rightarrow>
            and_then (add_ovf nb_syscall 1) (\<lambda>nb.
            let info = info\<lparr>ti_tag := (ti_tag info)\<lparr>tag_syscall_nb := nb\<rparr>\<rparr>
            in and_then (task_update p augmente_syscall_nb (rt_heap rt)) (\<lambda>h.
               and_then (task_poll poll_fn p (rt\<lparr>rt_heap := h, rt_current := info\<rparr>)) (\<lambda>(_, rt).
               Inr rt)))
        | Multiple \<Rightarrow>
            and_then (task_poll poll_fn p (rt\<lparr>rt_current := info\<rparr>)) (\<lambda>(_, rt). Inr rt))"

definition handle_cqe_entry :: "'f env \<Rightarrow> 'f poll_fn \<Rightarrow> 'f drop_fn \<Rightarrow> cqe \<Rightarrow> 'f runtime \<Rightarrow> 'f runtime res" where
  "handle_cqe_entry E poll_fn drop_fn entry rt =
     (let is_multishoot = env_more E (cqe_flags entry);
          info = TaskInfo_from_entry entry
      in and_then (clone_task_at (tag_task_idx (ti_tag info)) rt) (\<lambda>(p, rt).
         and_then (dispatch_cqe poll_fn p info rt) (\<lambda>rt.
         and_then (if is_multishoot then Inr rt else task_drop drop_fn p rt) (\<lambda>rt.
         task_drop drop_fn p rt))))"

text \<open>The \<open>while let\<close> loop over the wake list; \<open>None\<close> would be a loop that never ends.\<close>

definition wake_one :: "'f poll_fn \<Rightarrow> 'f drop_fn \<Rightarrow> task_info \<Rightarrow> 'f runtime \<Rightarrow> 'f runtime res" where
  "wake_one poll_fn drop_fn awake rt =
     and_then (clone_task_at (tag_task_idx (ti_tag awake)) (rt\<lparr>rt_current := awake\<rparr>)) (\<lambda>(p, rt).
     and_then (task_poll poll_fn p rt) (\<lambda>(_, rt). task_drop drop_fn p rt))"

partial_function (option) drain_wake_list ::
  "'f poll_fn \<Rightarrow> 'f drop_fn \<Rightarrow> 'f runtime \<Rightarrow> 'f runtime res option" where
  "drain_wake_list poll_fn drop_fn rt =
     (case rt_wake_list rt of
        [] \<Rightarrow> Some (Inr rt)
      | awake # rest \<Rightarrow>
          (case wake_one poll_fn drop_fn awake (rt\<lparr>rt_wake_list := rest\<rparr>) of
             Inl e \<Rightarrow> Some (Inl e)
           | Inr rt' \<Rightarrow> drain_wake_list poll_fn drop_fn rt'))"

text \<open>A \<open>Waker\<close> is a payload (\<open>repr(transparent)\<close>); making one, \<open>Waker::awake\<close> and \<open>Drop for Waker\<close>.\<close>

definition payload_into_waker :: "user_data_payload \<Rightarrow> user_data_payload" where
  "payload_into_waker payload = payload"

definition waker_awake :: "user_data_payload \<Rightarrow> 'f runtime \<Rightarrow> 'f runtime" where
  "waker_awake w rt = rt\<lparr>rt_wake_list := rt_wake_list rt @ [TaskInfo_from_waker w]\<rparr>"

definition waker_drop :: "'f drop_fn \<Rightarrow> user_data_payload \<Rightarrow> 'f runtime \<Rightarrow> 'f runtime res" where
  "waker_drop drop_fn w rt =
     and_then (slab_index (up_task_idx w) (rt_tasks rt)) (\<lambda>p. task_drop drop_fn p rt)"

subsection \<open>The event loop\<close>

text \<open>What the kernel does in one \<open>io_uring_enter\<close>: an error, or the completions it posts. It is
  given the user data of everything submitted and not yet completed.\<close>

datatype kernel_turn = Io_err i32 | Completions "cqe list"

datatype 'f outcome =
    Finished "'f runtime"
  | Io_error i32 "'f runtime"
  | Running "u64 list" "'f runtime"    \<comment> \<open>still in the loop after the given number of turns\<close>
  | Faulted fault
  | Diverged                           \<comment> \<open>the wake-list loop does not end\<close>

text \<open>\<open>submit_and_wait\<close> up to the system call: the entries handed to the kernel.\<close>

definition submit_pending :: "'f env \<Rightarrow> 'f runtime \<Rightarrow> (sqe list \<times> 'f runtime) res" where
  "submit_pending E rt =
     and_then (assert_or Sq_full (env_sq_room E (length (rt_pending rt)))) (\<lambda>_.
     Inr (rt_pending rt, rt\<lparr>rt_pending := []\<rparr>))"

text \<open>An entry stays in flight until a completion without the more flag.\<close>

definition complete_one :: "'f env \<Rightarrow> cqe \<Rightarrow> u64 list \<Rightarrow> u64 list" where
  "complete_one E c K = (if env_more E (cqe_flags c) then K else remove1 (cqe_user_data c) K)"

definition is_runtime_free :: "'f runtime \<Rightarrow> bool" where
  "is_runtime_free rt \<longleftrightarrow> slab_count (rt_tasks rt) = 0"

text \<open>One iteration of the loop after \<open>submit_and_wait\<close> returned \<open>entries\<close>. \<open>Inr (True, _)\<close>: break.\<close>

definition loop_body :: "'f env \<Rightarrow> 'f poll_fn \<Rightarrow> 'f drop_fn \<Rightarrow> cqe list \<Rightarrow> 'f runtime
    \<Rightarrow> (bool \<times> 'f runtime) res option" where
  "loop_body E poll_fn drop_fn entries rt =
     (case free_unsed_slab_slot rt of
        Inl e \<Rightarrow> Some (Inl e)
      | Inr rt \<Rightarrow>
          if is_runtime_free rt then Some (Inr (True, rt))
          else if entries = [] then Some (Inl (Panic No_entries))
          else (case fold_res (handle_cqe_entry E poll_fn drop_fn) entries rt of
                  Inl e \<Rightarrow> Some (Inl e)
                | Inr rt \<Rightarrow>
                    (case drain_wake_list poll_fn drop_fn rt of
                       None \<Rightarrow> None
                     | Some (Inl e) \<Rightarrow> Some (Inl e)
                     | Some (Inr rt) \<Rightarrow>
                         Some (and_then (free_unsed_slab_slot rt) (\<lambda>rt.
                               Inr (is_runtime_free rt, rt))))))"

primrec block_loop :: "'f env \<Rightarrow> 'f poll_fn \<Rightarrow> 'f drop_fn \<Rightarrow> (nat \<Rightarrow> u64 list \<Rightarrow> kernel_turn) \<Rightarrow> nat
    \<Rightarrow> u64 list \<Rightarrow> 'f runtime \<Rightarrow> 'f outcome" where
  "block_loop E poll_fn drop_fn kern 0 K rt = Running K rt"
| "block_loop E poll_fn drop_fn kern (Suc n) K rt =
     (case submit_pending E rt of
        Inl e \<Rightarrow> Faulted e
      | Inr (sqes, rt) \<Rightarrow>
          (let K = K @ map sqe_user_data sqes
           in case kern n K of
                Io_err e \<Rightarrow> Io_error e rt
              | Completions entries \<Rightarrow>
                  (case loop_body E poll_fn drop_fn entries rt of
                     None \<Rightarrow> Diverged
                   | Some (Inl e) \<Rightarrow> Faulted e
                   | Some (Inr (True, rt)) \<Rightarrow> Finished rt
                   | Some (Inr (False, rt)) \<Rightarrow>
                       block_loop E poll_fn drop_fn kern n (fold (complete_one E) entries K) rt)))"

definition block_on :: "'f env \<Rightarrow> 'f poll_fn \<Rightarrow> 'f drop_fn \<Rightarrow> (nat \<Rightarrow> u64 list \<Rightarrow> kernel_turn) \<Rightarrow> nat
    \<Rightarrow> 'f \<Rightarrow> 'f runtime \<Rightarrow> 'f outcome" where
  "block_on E poll_fn drop_fn kern turns fut rt =
     (case and_then (spawn E poll_fn drop_fn fut rt) free_unsed_slab_slot of
        Inl e \<Rightarrow> Faulted e
      | Inr rt \<Rightarrow>
          if is_runtime_free rt then Finished rt
          else block_loop E poll_fn drop_fn kern turns [] rt)"

end
