(* ===== verification/Task_Accounting.thy ===== *)
theory Task_Accounting
  imports Runtime
begin

text \<open>
  The invariant that makes the runtime's unsafe task handling sound: the reference counter of a
  live task is the number of its submissions that are staged or in flight plus the number of
  handles held on the stack. Every operation of the runtime preserves it, and under it no
  operation dereferences a freed task or a slot outside the slab.
\<close>

subsection \<open>Tokens\<close>

definition udata_idx :: "u64 \<Rightarrow> SlabIdx" where
  "udata_idx d = up_task_idx (from_user_data d)"

text \<open>\<open>K\<close>: user data of the submissions in flight; \<open>H\<close>: handles on the stack.\<close>

definition tokens :: "u64 list \<Rightarrow> SlabIdx multiset \<Rightarrow> 'f runtime \<Rightarrow> SlabIdx multiset" where
  "tokens K H rt =
     mset (map udata_idx K) + mset (map (udata_idx \<circ> sqe_user_data) (rt_pending rt)) + H"

definition live :: "'f runtime \<Rightarrow> SlabIdx \<Rightarrow> u64 \<Rightarrow> bool" where
  "live rt i p \<longleftrightarrow> slab_lookup (rt_tasks rt) i = Some p \<and> i \<notin> set (rt_free_list rt)"

subsection \<open>The invariant\<close>

definition header_ok :: "('f \<Rightarrow> bool) \<Rightarrow> SlabIdx multiset \<Rightarrow> SlabIdx \<Rightarrow> 'f raw_task \<Rightarrow> bool" where
  "header_ok ok T i t \<longleftrightarrow>
     slab_idx t = Some i \<and> unat (ref_counter t) = count T i \<and> 0 < count T i \<and> ok (task_fut t)"

definition acct :: "('f \<Rightarrow> bool) \<Rightarrow> SlabIdx multiset \<Rightarrow> 'f runtime \<Rightarrow> bool" where
  "acct ok T rt \<longleftrightarrow>
     slab_inv (rt_tasks rt) \<and> distinct (rt_free_list rt) \<and>
     set (rt_free_list rt) \<subseteq> dom (slab_lookup (rt_tasks rt)) \<and>
     (\<forall>i p. live rt i p \<longrightarrow> (\<exists>t. rt_heap rt p = Some t \<and> header_ok ok T i t)) \<and>
     (\<forall>p t. rt_heap rt p = Some t \<longrightarrow> (\<exists>i. live rt i p)) \<and>
     (\<forall>i \<in># T. \<exists>p. live rt i p)"

definition rt_inv :: "('f \<Rightarrow> bool) \<Rightarrow> u64 list \<Rightarrow> SlabIdx multiset \<Rightarrow> 'f runtime \<Rightarrow> bool" where
  "rt_inv ok K H rt \<longleftrightarrow> acct ok (tokens K H rt) rt"

text \<open>What the accounting assumes of the environment: the allocator returns memory that is not
  live and is aligned as \<open>RawTask\<close> asks (so bit 0 of the pointer is clear), and it does not
  provide slab arrays of \<open>2 ^ 31\<close> slots or more, the range the free-list links can encode.\<close>

definition env_ok :: "'f env \<Rightarrow> bool" where
  "env_ok E \<longleftrightarrow>
     (\<forall>alive sz p. env_malloc E alive sz = Some p \<longrightarrow> \<not> alive p \<and> slot_is_task p) \<and>
     (\<forall>n. env_slab_alloc E n \<longrightarrow> unat n < 2 ^ 31)"

lemma env_mallocD: "env_ok E \<Longrightarrow> env_malloc E alive sz = Some p \<Longrightarrow> \<not> alive p \<and> slot_is_task p"
  unfolding env_ok_def by blast

lemma acctD:
  assumes "acct ok T rt"
  shows "slab_inv (rt_tasks rt)" "distinct (rt_free_list rt)"
    "set (rt_free_list rt) \<subseteq> dom (slab_lookup (rt_tasks rt))"
    "live rt i p \<Longrightarrow> \<exists>t. rt_heap rt p = Some t \<and> header_ok ok T i t"
    "rt_heap rt p = Some t \<Longrightarrow> \<exists>i. live rt i p"
    "i \<in># T \<Longrightarrow> \<exists>p. live rt i p"
  using assms unfolding acct_def by blast+

lemma acct_cong:
  assumes "rt_heap rt' = rt_heap rt" "rt_tasks rt' = rt_tasks rt" "rt_free_list rt' = rt_free_list rt"
  shows "acct ok T rt' \<longleftrightarrow> acct ok T rt"
  using assms by (simp add: acct_def live_def)

text \<open>A task pointer is live under one index only.\<close>

lemma live_unique:
  assumes "acct ok T rt" "live rt i p" "live rt j p"
  shows "i = j"
  using acctD(4) [OF assms(1,2)] acctD(4) [OF assms(1,3)] by (auto simp: header_ok_def)

lemma live_fun: "live rt i p \<Longrightarrow> live rt i q \<Longrightarrow> p = q"
  by (simp add: live_def)

lemma live_index:
  assumes "acct ok T rt" "live rt i p"
  shows "slab_index i (rt_tasks rt) = Inr p"
  using slab_index_lookup [OF acctD(1) [OF assms(1)]] assms(2) by (simp add: live_def)

text \<open>Changing one live header.\<close>

lemma acct_update:
  assumes acct: "acct ok T rt" and l: "live rt i p" and t: "header_ok ok T' i t"
    and same: "\<And>j. j \<noteq> i \<Longrightarrow> count T' j = count T j"
  shows "acct ok T' (rt\<lparr>rt_heap := (rt_heap rt)(p \<mapsto> t)\<rparr>)"
proof -
  let ?rt = "rt\<lparr>rt_heap := (rt_heap rt)(p \<mapsto> t)\<rparr>"
  have live: "live ?rt = live rt" by (simp add: live_def fun_eq_iff)
  have hdr: "\<exists>u. rt_heap ?rt q = Some u \<and> header_ok ok T' j u" if "live rt j q" for j q
  proof (cases "j = i")
    case True
    then show ?thesis using that l t live_fun by fastforce
  next
    case False
    then have "q \<noteq> p" using live_unique [OF acct l] that by blast
    with False acctD(4) [OF acct that] same show ?thesis by (auto simp: header_ok_def)
  qed
  have heap: "\<exists>j. live rt j q" if "rt_heap ?rt q = Some u" for q u
    using that l acctD(5) [OF acct] by (auto split: if_splits)
  have tok: "\<exists>q. live rt j q" if "j \<in># T'" for j
  proof (cases "j = i")
    case False
    then have "j \<in># T" using that same by (metis count_greater_zero_iff)
    then show ?thesis by (rule acctD(6) [OF acct])
  qed (use l in blast)
  show ?thesis
    unfolding acct_def live using acctD(1,2,3) [OF acct] hdr heap tok by simp
qed

subsection \<open>Header operations through the slab\<close>

lemma with_task_live:
  assumes "acct ok T rt" "live rt i p" "rt_heap rt p = Some t"
  shows "with_task i f rt = and_then (f t) (\<lambda>t'. Inr (rt\<lparr>rt_heap := (rt_heap rt)(p \<mapsto> t')\<rparr>))"
  using assms(3) live_index [OF assms(1,2)]
  by (cases "f t") (simp_all add: with_task_def task_update_def task_deref_def)

lemma acct_liveE:
  assumes "acct ok T rt" "i \<in># T"
  obtains p t where "live rt i p" "rt_heap rt p = Some t" "header_ok ok T i t"
  using acctD(6) [OF assms] acctD(4) [OF assms(1)] by blast

lemma with_task_no_ub:
  assumes "acct ok T rt" "i \<in># T" "\<And>t. no_ub (f t)"
  shows "no_ub (with_task i f rt)"
proof -
  from assms(1,2) obtain p t where "live rt i p" "rt_heap rt p = Some t" by (rule acct_liveE)
  then show ?thesis
    using with_task_live [OF assms(1)] assms(3) by (auto intro: no_ub_and_then)
qed

text \<open>A header operation that keeps the counter keeps the accounting.\<close>

lemma with_task_keep:
  assumes acct: "acct ok T rt" and i: "i \<in># T" and w: "with_task i f rt = Inr rt'"
    and f: "\<And>t t'. f t = Inr t' \<Longrightarrow> ref_counter t' = ref_counter t \<and> slab_idx t' = slab_idx t
      \<and> task_fut t' = task_fut t"
  shows "acct ok T rt' \<and> (\<exists>h. rt' = rt\<lparr>rt_heap := h\<rparr>)"
proof -
  from acct i obtain p t where p: "live rt i p" "rt_heap rt p = Some t" "header_ok ok T i t"
    by (rule acct_liveE)
  from w with_task_live [OF acct p(1,2)] obtain t' where
    t': "f t = Inr t'" and rt': "rt' = rt\<lparr>rt_heap := (rt_heap rt)(p \<mapsto> t')\<rparr>"
    by (auto simp: res_simps)
  have "header_ok ok T i t'" using p(3) f [OF t'] by (simp add: header_ok_def)
  with acct_update [OF acct p(1)] rt' show ?thesis by auto
qed

text \<open>An operation that adds \<open>n\<close> references adds \<open>n\<close> tokens.\<close>

lemma with_task_add:
  assumes acct: "acct ok T rt" and i: "i \<in># T" and w: "with_task i f rt = Inr rt'"
    and f: "\<And>t t'. f t = Inr t' \<Longrightarrow> unat (ref_counter t') = unat (ref_counter t) + n
      \<and> slab_idx t' = slab_idx t \<and> task_fut t' = task_fut t"
  shows "acct ok (T + replicate_mset n i) rt' \<and> (\<exists>h. rt' = rt\<lparr>rt_heap := h\<rparr>)"
proof -
  from acct i obtain p t where p: "live rt i p" "rt_heap rt p = Some t" "header_ok ok T i t"
    by (rule acct_liveE)
  from w with_task_live [OF acct p(1,2)] obtain t' where
    t': "f t = Inr t'" and rt': "rt' = rt\<lparr>rt_heap := (rt_heap rt)(p \<mapsto> t')\<rparr>"
    by (auto simp: res_simps)
  have "header_ok ok (T + replicate_mset n i) i t'" using p(3) f [OF t'] by (simp add: header_ok_def)
  with acct_update [OF acct p(1)] rt' show ?thesis by auto
qed

lemma inc_rc_adds:
  "inc_rc t = Inr t' \<Longrightarrow> unat (ref_counter t') = unat (ref_counter t) + 1
    \<and> slab_idx t' = slab_idx t \<and> task_fut t' = task_fut t"
  by (auto simp: inc_rc_Inr unat_add_one_of_lt)

lemma add_rc_adds:
  "add_rc n t = Inr t' \<Longrightarrow> unat (ref_counter t') = unat (ref_counter t) + unat n
    \<and> slab_idx t' = slab_idx t \<and> task_fut t' = task_fut t"
  by (auto simp: add_rc_eq unat_word_ariths split: if_splits)

subsection \<open>Operations that keep the accounting\<close>

text \<open>What a caller holding the handles \<open>H\<close> can rely on across an operation: the same current
  task, the same wake list, and its handles still point to the same tasks.\<close>

definition stable :: "SlabIdx multiset \<Rightarrow> 'f runtime \<Rightarrow> 'f runtime \<Rightarrow> bool" where
  "stable H rt rt' \<longleftrightarrow> cur_idx rt' = cur_idx rt \<and> rt_wake_list rt' = rt_wake_list rt
     \<and> (\<forall>j \<in># H. \<forall>q. live rt j q \<longrightarrow> live rt' j q)"

lemma stable_refl [simp]: "stable H rt rt"
  by (simp add: stable_def)

lemma stable_trans: "stable H a b \<Longrightarrow> stable H b c \<Longrightarrow> stable H a c"
  by (auto simp: stable_def)

lemma stable_slab:
  "rt_tasks rt' = rt_tasks rt \<Longrightarrow> rt_free_list rt' = rt_free_list rt \<Longrightarrow> cur_idx rt' = cur_idx rt \<Longrightarrow>
   rt_wake_list rt' = rt_wake_list rt \<Longrightarrow> stable H rt rt'"
  by (simp add: stable_def live_def)

text \<open>\<open>keeps ok K H rt sel r\<close>: the result \<open>r\<close> of an operation started in \<open>rt\<close> is free of undefined
  behaviour, and the runtime \<open>sel\<close> selects from a returned value satisfies the invariant for the
  same in-flight submissions and handles and is stable for its caller.\<close>

definition keeps :: "('f \<Rightarrow> bool) \<Rightarrow> u64 list \<Rightarrow> SlabIdx multiset \<Rightarrow> 'f runtime
    \<Rightarrow> ('a \<Rightarrow> 'f runtime) \<Rightarrow> 'a res \<Rightarrow> bool" where
  "keeps ok K H rt sel r \<longleftrightarrow> no_ub r \<and>
     (\<forall>x. r = Inr x \<longrightarrow> rt_inv ok K H (sel x) \<and> stable H rt (sel x))"

lemma keepsI:
  assumes "no_ub r" and "\<And>x. r = Inr x \<Longrightarrow> rt_inv ok K H (sel x) \<and> stable H rt (sel x)"
  shows "keeps ok K H rt sel r"
  using assms by (simp add: keeps_def)

lemma keepsD:
  assumes "keeps ok K H rt sel r"
  shows "no_ub r" "r = Inr x \<Longrightarrow> rt_inv ok K H (sel x)" "r = Inr x \<Longrightarrow> stable H rt (sel x)"
  using assms by (auto simp: keeps_def)

named_theorems keeps_intros \<open>one rule per operation that keeps the accounting\<close>

lemma keeps_and_then:
  assumes "keeps ok K H rt sel m"
    and "\<And>x. m = Inr x \<Longrightarrow> rt_inv ok K H (sel x) \<Longrightarrow> stable H rt (sel x) \<Longrightarrow>
      keeps ok K H (sel x) sel' (f x)"
  shows "keeps ok K H rt sel' (and_then m f)"
proof (rule keepsI)
  show "no_ub (and_then m f)"
    using assms by (intro no_ub_and_then) (auto dest: keepsD)
next
  fix y assume "and_then m f = Inr y"
  then obtain x where x: "m = Inr x" "f x = Inr y" by (auto simp: res_simps)
  from assms(2) [OF x(1)] keepsD(2,3) [OF assms(1) x(1)]
  have "keeps ok K H (sel x) sel' (f x)" by blast
  with keepsD(2,3) [OF this x(2)] keepsD(3) [OF assms(1) x(1)]
  show "rt_inv ok K H (sel' y) \<and> stable H rt (sel' y)" by (auto intro: stable_trans)
qed

lemma keeps_Inr:
  "rt_inv ok K H (sel x) \<Longrightarrow> stable H rt (sel x) \<Longrightarrow> keeps ok K H rt sel (Inr x)"
  by (simp add: keeps_def)

lemma keeps_Panic [simp]: "keeps ok K H rt sel (Inl (Panic e))"
  by (simp add: keeps_def)

text \<open>Changes that the accounting does not see.\<close>

definition unseen :: "'f runtime \<Rightarrow> 'f runtime \<Rightarrow> bool" where
  "unseen rt rt' \<longleftrightarrow> rt_heap rt' = rt_heap rt \<and> rt_tasks rt' = rt_tasks rt
     \<and> rt_free_list rt' = rt_free_list rt \<and> rt_pending rt' = rt_pending rt
     \<and> cur_idx rt' = cur_idx rt \<and> rt_wake_list rt' = rt_wake_list rt \<and> rt_freed_reads rt' = rt_freed_reads rt"

lemma unseen_refl [simp]: "unseen rt rt"
  by (simp add: unseen_def)

lemma unseen_trans: "unseen a b \<Longrightarrow> unseen b c \<Longrightarrow> unseen a c"
  by (simp add: unseen_def)

lemma rt_inv_unseen: "unseen rt rt' \<Longrightarrow> rt_inv ok K H rt' \<longleftrightarrow> rt_inv ok K H rt"
  by (simp add: rt_inv_def unseen_def tokens_def acct_def live_def)

lemma unseen_stable: "unseen rt rt' \<Longrightarrow> stable H rt rt'"
  by (simp add: unseen_def stable_def live_def)

lemma keeps_unseen:
  assumes "rt_inv ok K H rt" "no_ub r" "\<And>x. r = Inr x \<Longrightarrow> unseen rt (sel x)"
  shows "keeps ok K H rt sel r"
  using assms by (auto intro!: keepsI unseen_stable simp: rt_inv_unseen)

lemma unseen_current_multiple [simp]: "unseen rt (set_current_task_multiple b rt)"
  by (simp add: unseen_def set_current_task_multiple_def Let_def)

lemma on_pool_unseen: "on_pool f rt = Inr rt' \<Longrightarrow> unseen rt rt'"
  by (auto simp: on_pool_def unseen_def res_simps)

lemma no_ub_write_rc_at [simp]: "no_ub (write_rc_at rel pool)"
  by (simp add: write_rc_at_def)

lemma no_ub_wbuffer [simp]:
  "no_ub (wbuffer_clone w pool)" "no_ub (wbuffer_drop w pool)" "no_ub (alloc_write N pool)"
  by (auto simp: wbuffer_clone_def wbuffer_drop_def alloc_write_def Let_def
      intro!: no_ub_and_then split: list.split)

lemma no_ub_on_pool: "(\<And>b. no_ub (f b)) \<Longrightarrow> no_ub (on_pool f rt)"
  by (auto simp: on_pool_def intro: no_ub_and_then)

lemma keeps_drop_wbuffer [keeps_intros]:
  "rt_inv ok K H rt \<Longrightarrow> keeps ok K H rt id (drop_wbuffer w rt)"
  by (rule keeps_unseen) (auto simp: drop_wbuffer_def dest: on_pool_unseen intro: no_ub_on_pool)

lemma keeps_clone_wbuffer [keeps_intros]:
  "rt_inv ok K H rt \<Longrightarrow> keeps ok K H rt id (clone_wbuffer w rt)"
  by (rule keeps_unseen)
    (auto simp: clone_wbuffer_def dest: on_pool_unseen intro!: no_ub_on_pool no_ub_and_then)

lemma keeps_alloc_write_buffer [keeps_intros]:
  "rt_inv ok K H rt \<Longrightarrow> keeps ok K H rt snd (alloc_write_buffer rt)"
  by (rule keeps_unseen)
    (auto simp: alloc_write_buffer_def unseen_def res_simps intro!: no_ub_and_then)

lemma no_ub_release_buf [simp]: "no_ub (release_buf_to_ring i pool m)"
  by (auto simp: release_buf_to_ring_def read_buf_addr_def Let_def intro!: no_ub_and_then)

lemma release_read_buf_unseen: "release_read_buf i rt = Inr rt' \<Longrightarrow> unseen rt rt'"
  by (auto simp: release_read_buf_def unseen_def res_simps)

lemma no_ub_release_read_buf [simp]: "no_ub (release_read_buf i rt)"
  by (auto simp: release_read_buf_def intro: no_ub_and_then)

lemma keeps_release_read_buf [keeps_intros]:
  "rt_inv ok K H rt \<Longrightarrow> keeps ok K H rt id (release_read_buf i rt)"
  by (rule keeps_unseen) (auto dest: release_read_buf_unseen)

lemma rwbuffer_drop_unseen: "rwbuffer_drop b rt = Inr rt' \<Longrightarrow> unseen rt rt'"
  by (auto simp: rwbuffer_drop_def dest: release_read_buf_unseen split: if_splits)

lemma no_ub_rwbuffer_drop [simp]: "no_ub (rwbuffer_drop b rt)"
  by (simp add: rwbuffer_drop_def)

lemma keeps_rwbuffer_drop [keeps_intros]:
  "rt_inv ok K H rt \<Longrightarrow> keeps ok K H rt id (rwbuffer_drop b rt)"
  by (rule keeps_unseen) (auto dest: rwbuffer_drop_unseen)

subsection \<open>Submissions\<close>

lemma udata_idx_into: "udata_idx (into_user_data p) = up_task_idx p"
  by (simp add: udata_idx_def udata.dec_enc)

lemma udata_idx_current [simp]: "udata_idx (current_udata rt) = cur_idx rt"
  by (simp add: current_udata_def udata_idx_into TaskInfo_into_payload_def)

lemma in_tokens: "i \<in># H \<Longrightarrow> i \<in># tokens K H rt"
  by (simp add: tokens_def)

lemma tokens_heap [simp]: "tokens K H (rt\<lparr>rt_heap := h\<rparr>) = tokens K H rt"
  by (simp add: tokens_def)

lemma tokens_add_handle: "tokens K (add_mset i H) rt = add_mset i (tokens K H rt)"
  by (simp add: tokens_def)

text \<open>Staging entries of task \<open>i\<close> adds its tokens and nothing else.\<close>

lemma tokens_push:
  "list_all (\<lambda>e. udata_idx (sqe_user_data e) = i) es \<Longrightarrow>
   tokens K H (rt\<lparr>rt_pending := rt_pending rt @ es\<rparr>) = tokens K H rt + replicate_mset (length es) i"
  by (induction es) (auto simp: tokens_def)

lemma acct_pending [simp]: "acct ok T (rt\<lparr>rt_pending := es\<rparr>) \<longleftrightarrow> acct ok T rt"
  by (rule acct_cong) simp_all

text \<open>The shape of every single submission: count a reference, stage one entry.\<close>

lemma keeps_submit_one:
  assumes inv: "rt_inv ok K H rt" and i: "i \<in># H"
    and e: "\<And>rt. udata_idx (sqe_user_data (e rt)) = i"
  shows "keeps ok K H rt id
    (and_then (with_task i inc_rc rt) (\<lambda>rt. Inr (sqe_queue_push (e rt) rt)))"
proof (rule keepsI)
  have acct: "acct ok (tokens K H rt) rt" using inv by (simp add: rt_inv_def)
  note i' = in_tokens [OF i, of K rt]
  show "no_ub (and_then (with_task i inc_rc rt) (\<lambda>rt. Inr (sqe_queue_push (e rt) rt)))"
    using with_task_no_ub [OF acct i'] by (auto intro: no_ub_and_then)
  fix x assume "and_then (with_task i inc_rc rt) (\<lambda>rt. Inr (sqe_queue_push (e rt) rt)) = Inr x"
  then obtain rt1 where w: "with_task i inc_rc rt = Inr rt1" and x: "x = sqe_queue_push (e rt1) rt1"
    by (auto simp: res_simps)
  from with_task_add [OF acct i' w inc_rc_adds] obtain h where
    acct1: "acct ok (tokens K H rt + replicate_mset 1 i) rt1" and rt1: "rt1 = rt\<lparr>rt_heap := h\<rparr>"
    by blast
  have "tokens K H x = tokens K H rt + replicate_mset 1 i"
    using tokens_push [of i "[e rt1]" K H rt1] e by (simp add: x sqe_queue_push_def rt1)
  then show "rt_inv ok K H (id x) \<and> stable H rt (id x)"
    using acct1 by (simp add: rt_inv_def x sqe_queue_push_def) (simp add: rt1 stable_slab)
qed

lemma keeps_set_multishot:
  assumes inv: "rt_inv ok K H rt" and i: "i \<in># H"
  shows "keeps ok K H rt id (with_task i (\<lambda>t. Inr (set_multishot t)) rt)"
proof (rule keepsI)
  have acct: "acct ok (tokens K H rt) rt" using inv by (simp add: rt_inv_def)
  show "no_ub (with_task i (\<lambda>t. Inr (set_multishot t)) rt)"
    by (rule with_task_no_ub [OF acct in_tokens [OF i]]) simp
  fix x assume "with_task i (\<lambda>t. Inr (set_multishot t)) rt = Inr x"
  from with_task_keep [OF acct in_tokens [OF i] this]
  show "rt_inv ok K H (id x) \<and> stable H rt (id x)"
    by (auto simp: set_multishot_def rt_inv_def stable_slab)
qed

lemma keeps_advance_syscall_nb [keeps_intros]:
  assumes inv: "rt_inv ok K H rt" and i: "tag_task_idx t \<in># H"
  shows "keeps ok K H rt id (advance_syscall_nb t rt)"
  unfolding advance_syscall_nb_def
proof (rule keepsI)
  have acct: "acct ok (tokens K H rt) rt" using inv by (simp add: rt_inv_def)
  show "no_ub (with_task (tag_task_idx t) augmente_syscall_nb rt)"
    by (rule with_task_no_ub [OF acct in_tokens [OF i]]) (simp add: augmente_syscall_nb_eq)
  fix x assume "with_task (tag_task_idx t) augmente_syscall_nb rt = Inr x"
  from with_task_keep [OF acct in_tokens [OF i] this]
  show "rt_inv ok K H (id x) \<and> stable H rt (id x)"
    by (auto simp: augmente_syscall_nb_eq rt_inv_def stable_slab)
qed

lemma keeps_send_simple [keeps_intros]:
  assumes "rt_inv ok K H rt" "cur_idx rt \<in># H"
  shows "keeps ok K H rt id (send_read fd rt)" "keeps ok K H rt id (send_accept lfd rt)"
    "keeps ok K H rt id (send_write fd b len rt)" "keeps ok K H rt id (send_connect fd a n rt)"
    "keeps ok K H rt id (send_socket rt)"
  unfolding send_read_def send_accept_def send_write_def send_connect_def send_socket_def Let_def
  by (rule keeps_submit_one [OF assms]; simp)+

lemma cur_idx_multiple [simp]: "cur_idx (set_current_task_multiple b rt) = cur_idx rt"
  by (simp add: set_current_task_multiple_def Let_def)

lemma keeps_of_unseen_start:
  assumes "keeps ok K H rt' sel r" "unseen rt rt'"
  shows "keeps ok K H rt sel r"
  using assms by (auto simp: keeps_def intro: stable_trans unseen_stable)

lemma keeps_send_multishot [keeps_intros]:
  assumes inv: "rt_inv ok K H rt" and i: "cur_idx rt \<in># H"
  shows "keeps ok K H rt id (send_recv_multishot fd rt)"
    "keeps ok K H rt id (send_accept_multishot lfd rt)"
proof -
  let ?rt = "set_current_task_multiple True rt"
  have inv': "rt_inv ok K H ?rt" using inv rt_inv_unseen unseen_current_multiple by blast
  have sub: "keeps ok K H ?rt id
      (and_then (with_task (cur_idx ?rt) (\<lambda>t. Inr (set_multishot t)) ?rt) (\<lambda>rt1.
       and_then (with_task (cur_idx rt1) inc_rc rt1) (\<lambda>rt2.
       Inr (sqe_queue_push \<lparr>sqe_op = o1, sqe_user_data = current_udata ?rt\<rparr> rt2))))" for o1
    by (rule keeps_and_then [OF keeps_set_multishot [OF inv']])
      (use i in \<open>auto intro!: keeps_submit_one simp: stable_def\<close>)
  show "keeps ok K H rt id (send_recv_multishot fd rt)"
    "keeps ok K H rt id (send_accept_multishot lfd rt)"
    unfolding send_recv_multishot_def send_accept_multishot_def Let_def
    by (rule keeps_of_unseen_start [OF sub unseen_current_multiple])+
qed

lemma keeps_send_commit_write [keeps_intros]:
  assumes inv: "rt_inv ok K H rt" and i: "cur_idx rt \<in># H"
  shows "keeps ok K H rt id (send_commit_write ptr fd len b rt)"
proof -
  let ?rt = "set_current_task_multiple True rt"
  have inv': "rt_inv ok K H ?rt" using inv rt_inv_unseen unseen_current_multiple by blast
  show ?thesis
    unfolding send_commit_write_def Let_def
    by (rule keeps_of_unseen_start [OF keeps_submit_one [OF inv'] unseen_current_multiple])
      (use i in simp_all)
qed

subsection \<open>Fan-out writes\<close>

lemma send_writes_stages:
  assumes "send_writes ud w len k fds rt = Inr rt'"
  shows "\<exists>es b. rt' = rt\<lparr>rt_pending := rt_pending rt @ es, rt_buffer := b\<rparr> \<and> length es = length fds
    \<and> list_all (\<lambda>e. udata_idx (sqe_user_data e) = up_task_idx ud) es"
  using assms
proof (induction fds arbitrary: k rt)
  case Nil
  then have "rt' = rt\<lparr>rt_pending := rt_pending rt @ [], rt_buffer := rt_buffer rt\<rparr>" by simp
  then show ?case by fastforce
next
  case (Cons fd fds)
  let ?d = "into_user_data (ud\<lparr>up_response_gen := of_nat k\<rparr>)"
  let ?e = "wbuffer_write_entry w fd len ?d"
  from Cons.prems obtain b1 b2 where
    step: "send_writes ud w len (Suc k) fds (sqe_queue_push ?e (rt\<lparr>rt_buffer := b2\<rparr>)) = Inr rt'"
    by (auto simp: clone_wbuffer_def wbuffer_write_def drop_wbuffer_def on_pool_def res_simps)
  from Cons.IH [OF step] obtain es b where
    es: "rt' = rt\<lparr>rt_pending := rt_pending rt @ ?e # es, rt_buffer := b\<rparr>" "length es = length fds"
      "list_all (\<lambda>e. udata_idx (sqe_user_data e) = up_task_idx ud) es"
    by (auto simp: sqe_queue_push_def)
  have "udata_idx (sqe_user_data ?e) = up_task_idx ud"
    by (simp add: wbuffer_write_entry_def udata_idx_into)
  with es show ?case by (intro exI [of _ "?e # es"]) auto
qed

lemma no_ub_send_writes [simp]: "no_ub (send_writes ud w len k fds rt)"
proof (induction fds arbitrary: k rt)
  case (Cons fd fds)
  show ?case
    by (auto simp: clone_wbuffer_def wbuffer_write_def drop_wbuffer_def Cons.IH
        intro!: no_ub_and_then no_ub_on_pool)
qed simp

text \<open>\<open>send_multiple_write\<close> counts its entries in a \<open>u16\<close>; for at most \<open>u16::MAX\<close> descriptors the
  count is exact.\<close>

lemma keeps_send_multiple_write [keeps_intros]:
  assumes inv: "rt_inv ok K H rt" and i: "cur_idx rt \<in># H" and n: "length fds < 65536"
  shows "keeps ok K H rt id (send_multiple_write fds w len rt)"
proof (rule keepsI)
  let ?ud = "TaskInfo_into_payload (rt_current rt)"
  let ?f = "add_rc (of_nat (length fds)) :: 'a raw_task \<Rightarrow> _"
  have ud: "up_task_idx ?ud = cur_idx rt" by (simp add: TaskInfo_into_payload_def)
  have u: "unat (of_nat (length fds) :: u16) = length fds" by (rule unat_of_nat_lt) (use n in simp)
  have acct: "acct ok (tokens K H rt) rt" using inv by (simp add: rt_inv_def)
  have acct1: "acct ok (tokens K H rt) rt1" "cur_idx rt \<in># tokens K H rt"
    if "send_writes ?ud w len 0 fds rt = Inr rt1" for rt1
    using send_writes_stages [OF that] acct in_tokens [OF i] acct_cong [of rt1 rt] by auto
  show "no_ub (send_multiple_write fds w len rt)"
    unfolding send_multiple_write_def Let_def ud
    by (intro no_ub_and_then) (auto simp: drop_wbuffer_def intro: no_ub_on_pool with_task_no_ub [OF acct1])
  fix x assume "send_multiple_write fds w len rt = Inr x"
  then obtain rt1 rt2 where s: "send_writes ?ud w len 0 fds rt = Inr rt1"
    and w: "with_task (cur_idx rt) ?f rt1 = Inr rt2" and d: "drop_wbuffer w rt2 = Inr x"
    by (auto simp: send_multiple_write_def Let_def ud res_simps)
  from send_writes_stages [OF s] obtain es b where
    rt1: "rt1 = rt\<lparr>rt_pending := rt_pending rt @ es, rt_buffer := b\<rparr>" and len: "length es = length fds"
    and es: "list_all (\<lambda>e. udata_idx (sqe_user_data e) = cur_idx rt) es"
    by (auto simp: ud)
  have "acct ok (tokens K H rt + replicate_mset (length fds) (cur_idx rt)) rt2
      \<and> (\<exists>h. rt2 = rt1\<lparr>rt_heap := h\<rparr>)"
    by (rule with_task_add [OF acct1(1) [OF s] acct1(2) [OF s] w]) (metis add_rc_adds u)
  then obtain h where
    acct2: "acct ok (tokens K H rt + replicate_mset (length fds) (cur_idx rt)) rt2"
    and rt2: "rt2 = rt1\<lparr>rt_heap := h\<rparr>" by blast
  have "tokens K H rt2 = tokens K H rt + replicate_mset (length fds) (cur_idx rt)"
    using tokens_push [OF es, of K H rt] len by (simp add: rt2 rt1 tokens_def)
  then have "rt_inv ok K H rt2" using acct2 by (simp add: rt_inv_def)
  moreover have "stable H rt rt2" by (simp add: rt2 rt1 stable_slab)
  ultimately show "rt_inv ok K H (id x) \<and> stable H rt (id x)"
    using keepsD(2,3) [OF keeps_drop_wbuffer d] by (auto intro: stable_trans)
qed

subsection \<open>Releasing a handle\<close>

text \<open>What releasing asks of the function that drops a future: it touches the buffers only.\<close>

definition drop_ok :: "'f drop_fn \<Rightarrow> bool" where
  "drop_ok d \<longleftrightarrow> (\<forall>f rt. no_ub (d f rt) \<and> (\<forall>rt'. d f rt = Inr rt' \<longrightarrow> unseen rt rt'))"

text \<open>Removing the header of a task that has no token left and queueing its index.\<close>

lemma acct_freed:
  assumes acct: "acct ok (add_mset i T) rt" and l: "live rt i p" and none: "i \<notin># T"
    and h: "rt_heap rt' = (rt_heap rt)(p := None)" and fl: "rt_free_list rt' = rt_free_list rt @ [i]"
    and tasks: "rt_tasks rt' = rt_tasks rt"
  shows "acct ok T rt'"
proof -
  have live: "live rt' j q \<longleftrightarrow> live rt j q \<and> j \<noteq> i" for j q
    using fl tasks by (auto simp: live_def)
  have hdr: "\<exists>t. rt_heap rt' q = Some t \<and> header_ok ok T j t" if "live rt' j q" for j q
  proof -
    have j: "live rt j q" "j \<noteq> i" using that live by auto
    then have "q \<noteq> p" using live_unique [OF acct l] by blast
    with acctD(4) [OF acct j(1)] j(2) show ?thesis by (auto simp: h header_ok_def)
  qed
  have heap: "\<exists>j. live rt' j q" if "rt_heap rt' q = Some t" for q t
  proof -
    have q: "q \<noteq> p" "rt_heap rt q = Some t" using that h by (auto split: if_splits)
    from acctD(5) [OF acct q(2)] obtain j where j: "live rt j q" by blast
    moreover have "j \<noteq> i" using j l live_fun q(1) by metis
    ultimately show ?thesis using live by blast
  qed
  have tok: "\<exists>q. live rt' j q" if "j \<in># T" for j
    using acctD(6) [OF acct, of j] that none live by auto
  have "i \<in> dom (slab_lookup (rt_tasks rt))" "i \<notin> set (rt_free_list rt)"
    using l by (auto simp: live_def)
  then show ?thesis
    unfolding acct_def using acctD(1,2,3) [OF acct] hdr heap tok by (simp add: tasks fl)
qed

text \<open>Giving up one token of a live task: either references remain and its header is updated, or
  the task is freed and its index queued for removal.\<close>

lemma task_drop_acct:
  assumes d: "drop_ok drop_fn" and acct: "acct ok (add_mset i T) rt" and l: "live rt i p"
  shows "no_ub (task_drop drop_fn p rt)"
    and "task_drop drop_fn p rt = Inr rt' \<Longrightarrow> acct ok T rt' \<and> rt_pending rt' = rt_pending rt
      \<and> cur_idx rt' = cur_idx rt \<and> rt_wake_list rt' = rt_wake_list rt \<and> rt_tasks rt' = rt_tasks rt
      \<and> (\<forall>j q. live rt j q \<and> j \<in># T \<longrightarrow> live rt' j q)"
proof -
  from acctD(4) [OF acct l] obtain t where t: "rt_heap rt p = Some t" "header_ok ok (add_mset i T) i t"
    by blast
  let ?c = "ref_counter t - 1"
  have rc: "unat (ref_counter t) = Suc (count T i)" and idx: "slab_idx t = Some i"
    and fut: "ok (task_fut t)" using t(2) by (simp_all add: header_ok_def)
  have sub: "sub_ovf (ref_counter t) 1 = Inr ?c" using rc by (simp add: sub_ovf_def word_le_nat_alt)
  have c: "unat ?c = count T i" using rc unat_sub_one [of "ref_counter t"] by (cases "ref_counter t = 0") auto
  let ?t = "t\<lparr>ref_counter := ?c\<rparr>"
  let ?rt = "rt\<lparr>rt_heap := (rt_heap rt)(p \<mapsto> ?t)\<rparr>"
  have "no_ub (task_drop drop_fn p rt) \<and> (task_drop drop_fn p rt = Inr rt' \<longrightarrow>
      acct ok T rt' \<and> rt_pending rt' = rt_pending rt \<and> cur_idx rt' = cur_idx rt
      \<and> rt_wake_list rt' = rt_wake_list rt \<and> rt_tasks rt' = rt_tasks rt
      \<and> (\<forall>j q. live rt j q \<and> j \<in># T \<longrightarrow> live rt' j q))"
  proof (cases "?c = 0")
    case False
    have eq: "task_drop drop_fn p rt = Inr ?rt"
      using t(1) sub False by (simp add: task_drop_def task_release_def task_deref_def Let_def)
    have "header_ok ok T i ?t"
      using c False idx fut unat_eq_0_iff [of ?c] by (simp add: header_ok_def)
    from acct_update [OF acct l this] have "acct ok T ?rt" by simp
    then show ?thesis using eq by (auto simp: live_def)
  next
    case True
    then have none: "i \<notin># T" using c by (simp add: not_in_iff)
    have nu: "no_ub (drop_fn (task_fut t) ?rt)"
      and un: "\<And>r. drop_fn (task_fut t) ?rt = Inr r \<Longrightarrow> unseen ?rt r"
      using d by (auto simp: drop_ok_def)
    let ?fin = "\<lambda>r. r\<lparr>rt_heap := (rt_heap r)(p := None), rt_free_list := rt_free_list r @ [i],
      rt_freed_reads := Suc (rt_freed_reads r)\<rparr>"
    have eq: "task_drop drop_fn p rt = and_then (drop_fn (task_fut t) ?rt) (\<lambda>r. Inr (?fin r))"
    proof (cases "drop_fn (task_fut t) ?rt")
      case (Inr r)
      then have "rt_heap r p = Some ?t" using un by (simp add: unseen_def)
      then show ?thesis using t(1) sub True idx Inr
        by (simp add: task_drop_def task_release_def task_deref_def Let_def)
    qed (use t(1) sub True in \<open>simp add: task_drop_def task_release_def task_deref_def Let_def\<close>)
    have "acct ok T (?fin r)" if r: "drop_fn (task_fut t) ?rt = Inr r" for r
      by (rule acct_freed [OF acct l none]) (use un [OF r] in \<open>auto simp: unseen_def\<close>)
    then show ?thesis
      using eq nu un none by (cases "drop_fn (task_fut t) ?rt") (auto simp: unseen_def live_def)
  qed
  then show "no_ub (task_drop drop_fn p rt)"
    and "task_drop drop_fn p rt = Inr rt' \<Longrightarrow> acct ok T rt' \<and> rt_pending rt' = rt_pending rt
      \<and> cur_idx rt' = cur_idx rt \<and> rt_wake_list rt' = rt_wake_list rt \<and> rt_tasks rt' = rt_tasks rt
      \<and> (\<forall>j q. live rt j q \<and> j \<in># T \<longrightarrow> live rt' j q)"
    by blast+
qed

lemma tokens_remove1:
  "d \<in> set K \<Longrightarrow> tokens K H rt = add_mset (udata_idx d) (tokens (remove1 d K) H rt)"
proof -
  assume "d \<in> set K"
  then have "mset K = add_mset d (mset (remove1 d K))" by simp
  then have "image_mset udata_idx (mset K) = add_mset (udata_idx d) (image_mset udata_idx (mset (remove1 d K)))"
    by (metis image_mset_add_mset)
  then show ?thesis by (simp add: tokens_def)
qed

text \<open>Dropping a handle of the stack, and the handle a final completion stands for.\<close>

lemma drop_handle:
  assumes "drop_ok d" "rt_inv ok K (add_mset i H) rt" "live rt i p"
  shows "keeps ok K H rt id (task_drop d p rt)"
proof (rule keepsI)
  have acct: "acct ok (add_mset i (tokens K H rt)) rt"
    using assms(2) by (simp add: rt_inv_def tokens_add_handle)
  note drop = task_drop_acct [OF assms(1) acct assms(3)]
  show "no_ub (task_drop d p rt)" by (rule drop(1))
  fix x assume "task_drop d p rt = Inr x"
  from drop(2) [OF this] show "rt_inv ok K H (id x) \<and> stable H rt (id x)"
    by (auto simp: rt_inv_def tokens_def stable_def)
qed

lemma drop_completion:
  assumes "drop_ok d" "rt_inv ok K H rt" "c \<in> set K" "live rt (udata_idx c) p"
  shows "no_ub (task_drop d p rt)"
    "task_drop d p rt = Inr rt' \<Longrightarrow> rt_inv ok (remove1 c K) H rt' \<and> stable H rt rt'"
proof -
  have acct: "acct ok (add_mset (udata_idx c) (tokens (remove1 c K) H rt)) rt"
    using assms(2) tokens_remove1 [OF assms(3), of H rt] by (simp add: rt_inv_def)
  note drop = task_drop_acct [OF assms(1) acct assms(4)]
  show "no_ub (task_drop d p rt)" by (rule drop(1))
  assume "task_drop d p rt = Inr rt'"
  from drop(2) [OF this] show "rt_inv ok (remove1 c K) H rt' \<and> stable H rt rt'"
    by (auto simp: rt_inv_def tokens_def stable_def)
qed

subsection \<open>Spawning\<close>

lemma slab_insert_cases:
  assumes inv: "slab_inv s" and bound: "\<And>n. alloc_ok n \<Longrightarrow> unat n < 2 ^ 31" and p: "slot_is_task p"
  shows "slab_room alloc_ok s \<or> slab_insert alloc_ok p s = Inl (Panic Slab_alloc_failed)"
proof (cases "slab_head s = slab_len s \<and> \<not> alloc_ok (slab_len s * 2)")
  case True
  note b = slab_inv_bounds [OF inv]
  have pos: "0 < unat (slab_len s)" using inv by (simp add: slab_inv_def)
  have "checked_mul (slab_len s) 2 = Some (slab_len s * 2)" "slab_len s \<noteq> U32_MAX"
    using b(2) by (auto simp: checked_mul_def)
  with True have "slab_insert alloc_ok p s = Inl (Panic Slab_alloc_failed)"
    by (simp add: slab_insert_def growth_def Let_def)
  then show ?thesis ..
next
  case False
  have "unat (slab_len s * 2) = 2 * unat (slab_len s)"
    using slab_inv_bounds(2) [OF inv] by (simp add: unat_word_ariths mult.commute)
  with False bound [of "slab_len s * 2"] show ?thesis by (auto simp: slab_room_def)
qed

lemma acct_insert:
  assumes acct: "acct ok T rt" and new: "slab_lookup (rt_tasks rt) i = None" "rt_heap rt p = None"
    and tasks: "slab_inv (rt_tasks rt')" "slab_lookup (rt_tasks rt') = (slab_lookup (rt_tasks rt))(i \<mapsto> p)"
    and heap: "rt_heap rt' = (rt_heap rt)(p \<mapsto> t)" and fl: "rt_free_list rt' = rt_free_list rt"
    and t: "header_ok ok (T + replicate_mset n i) i t" and n: "0 < n"
  shows "acct ok (T + replicate_mset n i) rt'" "live rt' i p" "\<And>j q. live rt j q \<Longrightarrow> live rt' j q"
proof -
  have i: "i \<notin> set (rt_free_list rt)" using acctD(3) [OF acct] new(1) by auto
  have live: "live rt' j q \<longleftrightarrow> live rt j q \<or> j = i \<and> q = p" for j q
    using i new(1) tasks(2) fl by (auto simp: live_def)
  then show "live rt' i p" "\<And>j q. live rt j q \<Longrightarrow> live rt' j q" by auto
  have notold: "\<not> live rt i q" "\<not> live rt j p" for j q
    using new acctD(4) [OF acct, of j p] by (auto simp: live_def)
  have hdr: "\<exists>u. rt_heap rt' q = Some u \<and> header_ok ok (T + replicate_mset n i) j u"
    if "live rt' j q" for j q
  proof (cases "j = i")
    case True
    then show ?thesis using that notold live heap t by auto
  next
    case False
    then have l: "live rt j q" using that live by blast
    then have "q \<noteq> p" using notold by blast
    with acctD(4) [OF acct l] False show ?thesis by (auto simp: heap header_ok_def)
  qed
  have cells: "\<exists>j. live rt' j q" if "rt_heap rt' q = Some u" for q u
    using that acctD(5) [OF acct] live by (auto simp: heap split: if_splits)
  have tok: "\<exists>q. live rt' j q" if "j \<in># T + replicate_mset n i" for j
    using that acctD(6) [OF acct, of j] live by (auto split: if_splits)
  show "acct ok (T + replicate_mset n i) rt'"
    unfolding acct_def using tasks acctD(2,3) [OF acct] hdr cells tok by (auto simp: fl)
qed

lemma task_newD:
  "task_new sz al f = Inr t \<Longrightarrow> ref_counter t = 1 \<and> slab_idx t = None \<and> task_fut t = f \<and> syscall_nb t = 0"
  by (auto simp: task_new_def res_simps split: prod.splits)

lemma no_ub_task_new [simp]: "no_ub (task_new sz al f)"
  by (auto simp: task_new_def intro!: no_ub_and_then split: prod.split)

text \<open>The two ways \<open>spawn\<close> can go before its first poll: a panic (layout, allocator), or a new live
  task counted twice, once for the slab's clone and once for the local handle.\<close>

lemma spawn_insert_cases:
  assumes E: "env_ok E" and inv: "slab_inv (rt_tasks rt)"
  shows "(\<exists>e. spawn_insert E fut rt = Inl (Panic e)) \<or>
    (\<exists>q t s. spawn_insert E fut rt = Inr (q, rt_current rt,
        rt\<lparr>rt_heap := (rt_heap rt)(q \<mapsto> t), rt_tasks := s,
           rt_current := initial_poll (slab_head (rt_tasks rt))\<rparr>)
      \<and> rt_heap rt q = None \<and> slab_idx t = Some (slab_head (rt_tasks rt)) \<and> ref_counter t = 2
      \<and> task_fut t = fut \<and> slab_inv s \<and> slab_lookup (rt_tasks rt) (slab_head (rt_tasks rt)) = None
      \<and> slab_lookup s = (slab_lookup (rt_tasks rt))(slab_head (rt_tasks rt) \<mapsto> q))"
proof -
  obtain sz al where lay: "env_layout E fut = (sz, al)" by fastforce
  let ?alive = "\<lambda>p. rt_heap rt p \<noteq> None"
  let ?i = "slab_head (rt_tasks rt)"
  consider (bad) e where "task_new sz al fut = Inl (Panic e)"
    | (null) t where "task_new sz al fut = Inr t" "env_malloc E ?alive (alloc_size t) = None"
    | (ok) t q where "task_new sz al fut = Inr t" "env_malloc E ?alive (alloc_size t) = Some q"
    using no_ub_task_new [of sz al fut]
    by (cases "task_new sz al fut") (auto simp: no_ub_def, metis fault.exhaust)
  then show ?thesis
  proof cases
    case bad
    then show ?thesis by (simp add: spawn_insert_def task_alloc_def lay)
  next
    case null
    then show ?thesis by (simp add: spawn_insert_def task_alloc_def lay)
  next
    case ok
    have q: "rt_heap rt q = None" "slot_is_task q" using env_mallocD [OF E ok(2)] by auto
    have t: "ref_counter t = 1" "task_fut t = fut" using task_newD [OF ok(1)] by auto
    have inc: "inc_rc t = Inr (t\<lparr>ref_counter := 2\<rparr>)" using t by (simp add: inc_rc_eq)
    have pre: "spawn_insert E fut rt =
        and_then (slab_insert (env_slab_alloc E) q (rt_tasks rt)) (\<lambda>(i, s).
        Inr (q, rt_current rt, rt\<lparr>rt_heap := (rt_heap rt)(q \<mapsto> t\<lparr>ref_counter := 2, slab_idx := Some i\<rparr>),
          rt_tasks := s, rt_current := initial_poll i\<rparr>))"
      using ok inc
      by (cases "slab_insert (env_slab_alloc E) q (rt_tasks rt)")
        (auto simp: spawn_insert_def task_alloc_def lay task_clone_def task_update_def task_deref_def
          insert_task_def set_task_idx_def)
    have bound: "unat n < 2 ^ 31" if "env_slab_alloc E n" for n using E that by (auto simp: env_ok_def)
    from slab_insert_cases [OF inv bound q(2)] show ?thesis
    proof
      assume "slab_room (env_slab_alloc E) (rt_tasks rt)"
      from slab_insert_spec [OF inv this q(2)] obtain s where
        s: "slab_insert (env_slab_alloc E) q (rt_tasks rt) = Inr (?i, s)" "slab_inv s"
          "slab_lookup (rt_tasks rt) ?i = None" "slab_lookup s = (slab_lookup (rt_tasks rt))(?i \<mapsto> q)"
        by blast
      let ?t = "t\<lparr>ref_counter := 2, slab_idx := Some ?i\<rparr>"
      have "spawn_insert E fut rt = Inr (q, rt_current rt,
          rt\<lparr>rt_heap := (rt_heap rt)(q \<mapsto> ?t), rt_tasks := s, rt_current := initial_poll ?i\<rparr>)"
        using pre s(1) by simp
      with q s t show ?thesis by (intro disjI2 exI [of _ q] exI [of _ ?t] exI [of _ s]) simp
    next
      assume "slab_insert (env_slab_alloc E) q (rt_tasks rt) = Inl (Panic Slab_alloc_failed)"
      then show ?thesis using pre by simp
    qed
  qed
qed

lemma spawn_insert_spec:
  assumes E: "env_ok E" and fut: "ok fut" and inv: "rt_inv ok K H rt"
  shows "no_ub (spawn_insert E fut rt)"
    and "spawn_insert E fut rt = Inr (p, old, rt') \<Longrightarrow> \<exists>i t. rt_inv ok K (add_mset i (add_mset i H)) rt'
      \<and> live rt' i p \<and> rt_heap rt' p = Some t \<and> task_fut t = fut \<and> rt_current rt' = initial_poll i
      \<and> old = rt_current rt \<and> rt_wake_list rt' = rt_wake_list rt \<and> (\<forall>j q. live rt j q \<longrightarrow> live rt' j q)"
proof -
  have acct: "acct ok (tokens K H rt) rt" using inv by (simp add: rt_inv_def)
  note cases = spawn_insert_cases [OF E acctD(1) [OF acct], of fut]
  then show "no_ub (spawn_insert E fut rt)" by auto
  assume res: "spawn_insert E fut rt = Inr (p, old, rt')"
  let ?i = "slab_head (rt_tasks rt)"
  from cases res obtain t s where
    rt': "rt' = rt\<lparr>rt_heap := (rt_heap rt)(p \<mapsto> t), rt_tasks := s, rt_current := initial_poll ?i\<rparr>"
    and old: "old = rt_current rt" and p: "rt_heap rt p = None"
    and t: "slab_idx t = Some ?i" "ref_counter t = 2" "task_fut t = fut"
    and s: "slab_inv s" "slab_lookup (rt_tasks rt) ?i = None"
      "slab_lookup s = (slab_lookup (rt_tasks rt))(?i \<mapsto> p)"
    by auto
  have "?i \<notin># tokens K H rt" using acctD(6) [OF acct, of ?i] s(2) by (auto simp: live_def)
  then have hdr: "header_ok ok (tokens K H rt + replicate_mset 2 ?i) ?i t"
    using t fut by (simp add: header_ok_def not_in_iff)
  have ins: "acct ok (tokens K H rt + replicate_mset 2 ?i) rt'" "live rt' ?i p"
    "\<And>j q. live rt j q \<Longrightarrow> live rt' j q"
    using acct_insert [OF acct s(2) p _ _ _ _ hdr, of rt'] s by (simp_all add: rt')
  moreover have "tokens K (add_mset ?i (add_mset ?i H)) rt' = tokens K H rt + replicate_mset 2 ?i"
    by (simp add: tokens_def rt' numeral_2_eq_2)
  ultimately show "\<exists>i t. rt_inv ok K (add_mset i (add_mset i H)) rt'
      \<and> live rt' i p \<and> rt_heap rt' p = Some t \<and> task_fut t = fut \<and> rt_current rt' = initial_poll i
      \<and> old = rt_current rt \<and> rt_wake_list rt' = rt_wake_list rt \<and> (\<forall>j q. live rt j q \<longrightarrow> live rt' j q)"
    using t(3) old by (intro exI [of _ ?i] exI [of _ t]) (simp add: rt_inv_def, simp add: rt')
qed

subsection \<open>Polling\<close>

text \<open>What the runtime asks of the code it polls: started with its own task among the handles, it
  keeps the accounting and leaves a future the invariant accepts.\<close>

definition run_ok :: "('f \<Rightarrow> bool) \<Rightarrow> ('f runtime \<Rightarrow> ('f \<times> bool \<times> 'f runtime) res) \<Rightarrow> bool" where
  "run_ok ok run \<longleftrightarrow> (\<forall>K H rt. rt_inv ok K H rt \<and> cur_idx rt \<in># H \<longrightarrow>
     keeps ok K H rt (snd \<circ> snd) (run rt) \<and> (\<forall>f r rt'. run rt = Inr (f, r, rt') \<longrightarrow> ok f))"

lemma run_okD:
  assumes "run_ok ok run" "rt_inv ok K H rt" "cur_idx rt \<in># H"
  shows "keeps ok K H rt (snd \<circ> snd) (run rt)" "run rt = Inr (f, r, rt') \<Longrightarrow> ok f"
  using assms unfolding run_ok_def by blast+

lemma keeps_store_future:
  assumes inv: "rt_inv ok K H rt" and l: "live rt i p" and i: "i \<in># H" and f: "ok f"
  shows "keeps ok K H rt snd (and_then (task_deref p (rt_heap rt)) (\<lambda>t.
    Inr (ready, rt\<lparr>rt_heap := (rt_heap rt)(p \<mapsto> t\<lparr>task_fut := f\<rparr>)\<rparr>)))"
proof -
  have acct: "acct ok (tokens K H rt) rt" using inv by (simp add: rt_inv_def)
  from acctD(4) [OF acct l] obtain t where t: "rt_heap rt p = Some t" "header_ok ok (tokens K H rt) i t"
    by blast
  let ?t = "t\<lparr>task_fut := f\<rparr>" and ?rt = "rt\<lparr>rt_heap := (rt_heap rt)(p \<mapsto> t\<lparr>task_fut := f\<rparr>)\<rparr>"
  have "header_ok ok (tokens K H rt) i ?t" using t(2) f by (simp add: header_ok_def)
  from acct_update [OF acct l this] have "rt_inv ok K H ?rt" by (simp add: rt_inv_def)
  then show ?thesis using t(1) by (auto intro!: keeps_Inr stable_slab simp: task_deref_def)
qed

lemma keeps_task_poll_with:
  assumes run: "run_ok ok run" and inv: "rt_inv ok K H rt" and c: "cur_idx rt \<in># H"
    and l: "live rt i p" and i: "i \<in># H"
  shows "keeps ok K H rt snd (task_poll_with run p rt)"
  unfolding task_poll_with_def
proof (rule keeps_and_then [OF run_okD(1) [OF run inv c]])
  fix x assume x: "run rt = Inr x" and inv': "rt_inv ok K H ((snd \<circ> snd) x)"
    and st: "stable H rt ((snd \<circ> snd) x)"
  obtain f r rt' where xe: "x = (f, r, rt')" by (cases x)
  have l': "live rt' i p" using st l i by (auto simp: xe stable_def)
  have f: "ok f" using run_okD(2) [OF run inv c] x xe by blast
  have inv1: "rt_inv ok K H rt'" using inv' by (simp add: xe)
  from keeps_store_future [OF inv1 l' i f]
  show "keeps ok K H ((snd \<circ> snd) x) snd (case x of (fut', ready, rt) \<Rightarrow>
      and_then (task_deref p (rt_heap rt)) (\<lambda>t.
      Inr (ready, rt\<lparr>rt_heap := (rt_heap rt)(p \<mapsto> t\<lparr>task_fut := fut'\<rparr>)\<rparr>)))"
    by (simp add: xe)
qed

lemma keeps_task_poll:
  assumes poll: "\<And>f. ok f \<Longrightarrow> run_ok ok (poll f)" and inv: "rt_inv ok K H rt" and c: "cur_idx rt \<in># H"
    and l: "live rt i p" and i: "i \<in># H"
  shows "keeps ok K H rt snd (task_poll poll p rt)"
proof -
  from inv have acct: "acct ok (tokens K H rt) rt" by (simp add: rt_inv_def)
  from acctD(4) [OF acct l] obtain t where t: "rt_heap rt p = Some t" "ok (task_fut t)"
    by (auto simp: header_ok_def)
  with keeps_task_poll_with [OF poll inv c l i] show ?thesis
    by (simp add: task_poll_def task_deref_def)
qed

text \<open>\<open>spawn\<close> with the first poll given as a function of the runtime.\<close>

definition spawn_run :: "'f env \<Rightarrow> ('f runtime \<Rightarrow> ('f \<times> bool \<times> 'f runtime) res) \<Rightarrow> 'f drop_fn \<Rightarrow> 'f
    \<Rightarrow> 'f runtime \<Rightarrow> 'f runtime res" where
  "spawn_run E run drop_fn fut rt =
     and_then (spawn_insert E fut rt) (\<lambda>(p, old, rt).
     and_then (task_poll_with run p rt) (\<lambda>(_, rt). spawn_finish drop_fn p old rt))"

lemma spawn_finish_eq:
  "spawn_finish d p old rt =
     and_then (task_drop d p rt) (\<lambda>rt. task_drop d p (rt\<lparr>rt_current := old\<rparr>))"
  by (cases "task_release d p rt") (auto simp: spawn_finish_def task_drop_def)

lemma rt_inv_current [simp]: "rt_inv ok K H (rt\<lparr>rt_current := c\<rparr>) \<longleftrightarrow> rt_inv ok K H rt"
  by (simp add: rt_inv_def tokens_def acct_def live_def)

lemma live_current [simp]: "live (rt\<lparr>rt_current := c\<rparr>) = live rt"
  by (simp add: live_def fun_eq_iff)

lemma keeps_spawn_run:
  assumes E: "env_ok E" and d: "drop_ok drop_fn" and fut: "ok fut" and run: "run_ok ok run"
    and inv: "rt_inv ok K H rt"
  shows "keeps ok K H rt id (spawn_run E run drop_fn fut rt)"
proof -
  note ins = spawn_insert_spec [OF E fut inv]
  have main: "no_ub (and_then (task_poll_with run p rt1) (\<lambda>(_, rt). spawn_finish drop_fn p old rt)) \<and>
      (\<forall>x. and_then (task_poll_with run p rt1) (\<lambda>(_, rt). spawn_finish drop_fn p old rt) = Inr x \<longrightarrow>
         rt_inv ok K H x \<and> stable H rt x)"
    if res: "spawn_insert E fut rt = Inr (p, old, rt1)" for p old rt1
  proof -
    from ins(2) [OF res] obtain i where
      inv1: "rt_inv ok K (add_mset i (add_mset i H)) rt1" and l1: "live rt1 i p"
      and cur: "rt_current rt1 = initial_poll i" and old: "old = rt_current rt"
      and wake: "rt_wake_list rt1 = rt_wake_list rt" and keep: "\<And>j q. live rt j q \<Longrightarrow> live rt1 j q"
      by blast
    let ?H = "add_mset i (add_mset i H)"
    have "cur_idx rt1 \<in># ?H" "i \<in># ?H" using cur by (simp_all add: initial_poll_def Tag_new_def)
    note poll = keeps_task_poll_with [OF run inv1 this(1) l1 this(2)]
    have fin: "no_ub (spawn_finish drop_fn p old rt2) \<and>
        (\<forall>x. spawn_finish drop_fn p old rt2 = Inr x \<longrightarrow> rt_inv ok K H x \<and> stable H rt x)"
      if rt2: "task_poll_with run p rt1 = Inr (r, rt2)" for r rt2
    proof -
      have inv2: "rt_inv ok K ?H rt2" and st2: "stable ?H rt1 rt2"
        using keepsD(2,3) [OF poll rt2] by simp_all
      have l2: "live rt2 i p" using st2 l1 by (simp add: stable_def)
      note d1 = drop_handle [OF d inv2 l2]
      have d2: "keeps ok K H (rt3\<lparr>rt_current := old\<rparr>) id (task_drop drop_fn p (rt3\<lparr>rt_current := old\<rparr>))"
        and st3: "stable (add_mset i H) rt2 rt3"
        if "task_drop drop_fn p rt2 = Inr rt3" for rt3
        using keepsD(2,3) [OF d1 that] drop_handle [OF d, of ok K i H "rt3\<lparr>rt_current := old\<rparr>" p] l2
        by (simp_all add: stable_def)
      have "stable H rt x" if "task_drop drop_fn p rt2 = Inr rt3"
        "task_drop drop_fn p (rt3\<lparr>rt_current := old\<rparr>) = Inr x" for rt3 x
        using keepsD(3) [OF d2 [OF that(1)] that(2)] st3 [OF that(1)] st2 keep wake old
        by (simp add: stable_def)
      then show ?thesis
        unfolding spawn_finish_eq using keepsD(1) [OF d1] keepsD(1,2) [OF d2]
        by (auto simp: res_simps intro!: no_ub_and_then)
    qed
    show ?thesis
    proof (intro conjI allI impI)
      show "no_ub (and_then (task_poll_with run p rt1) (\<lambda>(_, rt). spawn_finish drop_fn p old rt))"
        using keepsD(1) [OF poll] fin by (auto intro!: no_ub_and_then)
    qed (use fin in \<open>auto simp: res_simps\<close>)
  qed
  show ?thesis
    unfolding spawn_run_def
  proof (rule keepsI)
    show "no_ub (and_then (spawn_insert E fut rt) (\<lambda>(p, old, rt).
        and_then (task_poll_with run p rt) (\<lambda>(_, rt). spawn_finish drop_fn p old rt)))"
    proof (rule no_ub_and_then [OF ins(1)])
      fix x assume "spawn_insert E fut rt = Inr x"
      then show "no_ub (case x of (p, old, rt) \<Rightarrow>
          and_then (task_poll_with run p rt) (\<lambda>(_, rt). spawn_finish drop_fn p old rt))"
        using main by (cases x) simp
    qed
  qed (use main in \<open>force simp: res_simps\<close>)
qed

lemma spawn_eq_run:
  assumes E: "env_ok E" and inv: "slab_inv (rt_tasks rt)"
  shows "spawn E poll drop_fn fut rt = spawn_run E (poll fut) drop_fn fut rt"
  using spawn_insert_cases [OF E inv, of fut]
  by (auto simp: spawn_def spawn_run_def task_poll_def task_deref_def)

lemma keeps_spawn [keeps_intros]:
  assumes "env_ok E" "drop_ok drop_fn" "ok fut" "run_ok ok (poll fut)" "rt_inv ok K H rt"
  shows "keeps ok K H rt id (spawn E poll drop_fn fut rt)"
proof -
  have "slab_inv (rt_tasks rt)" using assms(5) acctD(1) by (auto simp: rt_inv_def)
  from spawn_eq_run [OF assms(1) this] keeps_spawn_run [OF assms] show ?thesis by simp
qed

subsection \<open>A sample runtime\<close>

text \<open>One task in a one-slot slab, held by as many handles as its counter says.\<close>

definition sample_task :: "u16 \<Rightarrow> unit raw_task" where
  "sample_task rc = \<lparr>task_fut = (), alloc_size = 64, ref_counter = rc, syscall_nb = 0, slab_idx = Some 0\<rparr>"

definition sample_rt :: "u16 \<Rightarrow> unit runtime" where
  "sample_rt rc =
     \<lparr>rt_heap = [0x1000 \<mapsto> sample_task rc],
      rt_tasks = \<lparr>slots = [0x1000], slab_head = 1, slab_len = 1, task_count = 1\<rparr>,
      rt_buffer = \<lparr>pool_base = 0x10000, pool_layout = (12288, 4096), read_count = 1,
        write_free = [2], write_rc = [1, 0]\<rparr>,
      rt_pending = [], rt_buf_ring = replicate 16 0, rt_current = initial_poll 0, rt_free_list = [], rt_wake_list = [], rt_freed_reads = 0\<rparr>"

definition sample_env :: "unit env" where
  "sample_env =
     \<lparr>env_layout = \<lambda>_. (64, 8), env_malloc = \<lambda>alive _. if alive 0x1000 then None else Some 0x1000,
      env_slab_alloc = \<lambda>n. n \<le> 64, env_more = \<lambda>flags. bit flags 1,
      env_buffer_select = \<lambda>flags. if bit flags 0 then Some (ucast (drop_bit 16 flags)) else None,
      env_sq_room = \<lambda>n. n \<le> 1024\<rparr>"

lemma sample_index:
  "slab_index (cur_idx (sample_rt rc)) (rt_tasks (sample_rt rc)) = Inr 0x1000"
  "rt_heap (sample_rt rc) 0x1000 = Some (sample_task rc)"
proof -
  have "slot_is_task 0x1000" by code_simp
  then show "slab_index (cur_idx (sample_rt rc)) (rt_tasks (sample_rt rc)) = Inr 0x1000"
    "rt_heap (sample_rt rc) 0x1000 = Some (sample_task rc)"
    by (simp_all add: sample_rt_def slab_index_def slot_at_def initial_poll_def Tag_new_def)
qed

lemma sample_inv:
  assumes "0 < rc"
  shows "rt_inv (\<lambda>_. True) [] (replicate_mset (unat rc) 0) (sample_rt rc)"
proof -
  have t: "slot_is_task 0x1000" "\<not> slot_is_free 0x1000" by code_simp+
  have inv: "slab_inv (rt_tasks (sample_rt rc))"
    by (rule slab_invI [where ns = "[]"]) (auto simp: sample_rt_def t less_Suc_eq)
  have look: "slab_lookup (rt_tasks (sample_rt rc)) = [0 \<mapsto> 0x1000]"
    by (auto simp: sample_rt_def slab_lookup_def slots_lookup_def t fun_eq_iff unat_eq_0_iff)
  have "0 < unat rc" using assms by (simp add: word_less_nat_alt)
  then show ?thesis
    unfolding rt_inv_def acct_def live_def look using inv
    by (auto simp: sample_rt_def sample_task_def header_ok_def tokens_def)
qed

subsection \<open>Exact submissions\<close>

text \<open>Staging one entry for the current task: what the runtime looks like afterwards.\<close>

definition submitted :: "opcode \<Rightarrow> u64 \<Rightarrow> u64 \<Rightarrow> 'f raw_task \<Rightarrow> 'f runtime \<Rightarrow> 'f runtime" where
  "submitted op udata p t rt =
     rt\<lparr>rt_heap := (rt_heap rt)(p \<mapsto> t\<lparr>ref_counter := ref_counter t + 1\<rparr>),
        rt_pending := rt_pending rt @ [\<lparr>sqe_op = op, sqe_user_data = udata\<rparr>]\<rparr>"

lemma submit_exact:
  assumes "slab_index (cur_idx rt) (rt_tasks rt) = Inr p" "rt_heap rt p = Some t" "ref_counter t \<noteq> U16_MAX"
  shows "and_then (with_task (cur_idx rt) inc_rc rt) (\<lambda>rt'.
      Inr (sqe_queue_push \<lparr>sqe_op = op, sqe_user_data = d\<rparr> rt')) = Inr (submitted op d p t rt)"
  using assms
  by (simp add: with_task_def task_update_def task_deref_def inc_rc_eq sqe_queue_push_def submitted_def)

lemma multishot_exact:
  assumes p: "slab_index (cur_idx rt) (rt_tasks rt) = Inr p" "rt_heap rt p = Some t" "ref_counter t \<noteq> U16_MAX"
  shows "and_then (with_task (cur_idx rt) (\<lambda>t. Inr (set_multishot t)) rt) (\<lambda>rt'.
      and_then (with_task (cur_idx rt') inc_rc rt') (\<lambda>rt''.
      Inr (sqe_queue_push \<lparr>sqe_op = op, sqe_user_data = d\<rparr> rt''))) =
    Inr (submitted op d p (set_multishot t) rt)"
proof -
  let ?rt = "rt\<lparr>rt_heap := (rt_heap rt)(p \<mapsto> set_multishot t)\<rparr>"
  have "with_task (cur_idx rt) (\<lambda>t. Inr (set_multishot t)) rt = Inr ?rt"
    using p by (simp add: with_task_def task_update_def task_deref_def)
  moreover have "ref_counter (set_multishot t) \<noteq> U16_MAX" using p(3) by (simp add: set_multishot_def)
  ultimately show ?thesis
    using submit_exact [of ?rt p "set_multishot t" op d] p(1) by (simp add: submitted_def)
qed

lemma send_writes_pending:
  assumes "send_writes ud w len k fds rt = Inr rt'"
  shows "rt_pending rt' = rt_pending rt @ map (\<lambda>(j, fd). wbuffer_write_entry w fd len
      (into_user_data (ud\<lparr>up_response_gen := of_nat j\<rparr>))) (enumerate k fds)"
  using assms
proof (induction fds arbitrary: k rt)
  case (Cons fd fds)
  let ?e = "wbuffer_write_entry w fd len (into_user_data (ud\<lparr>up_response_gen := of_nat k\<rparr>))"
  from Cons.prems obtain b where
    step: "send_writes ud w len (Suc k) fds (sqe_queue_push ?e (rt\<lparr>rt_buffer := b\<rparr>)) = Inr rt'"
    by (auto simp: clone_wbuffer_def wbuffer_write_def drop_wbuffer_def on_pool_def res_simps)
  from Cons.IH [OF step] show ?case by (simp add: sqe_queue_push_def)
qed simp

subsection \<open>Properties\<close>

text \<open>What a submission stages: one entry after the others, for the operation \<open>op\<close>. Its user data holds the
  index, the generation and the number of the current task at their places, so that its completion comes
  back in the context it was submitted from. The header at \<open>p\<close> becomes \<open>t'\<close>; nothing else changes.\<close>

definition stages :: "opcode \<Rightarrow> u64 \<Rightarrow> 'f raw_task \<Rightarrow> 'f runtime \<Rightarrow> 'f runtime \<Rightarrow> bool" where
  "stages op p t' rt rt' \<longleftrightarrow>
     (\<exists>e. rt' = rt\<lparr>rt_heap := (rt_heap rt)(p \<mapsto> t'), rt_pending := rt_pending rt @ [e]\<rparr> \<and> sqe_op e = op \<and>
        unat (sqe_user_data e) = unat (cur_idx rt) + 2 ^ 32 * unat (ti_response_gen (rt_current rt))
          + 2 ^ 48 * unat (tag_syscall_nb (ti_tag (rt_current rt))) \<and>
        (\<forall>r fl. TaskInfo_from_entry \<lparr>cqe_user_data = sqe_user_data e, cqe_result = r, cqe_flags = fl\<rparr> =
           (rt_current rt)\<lparr>ti_result := r, ti_flags := fl\<rparr>))"

lemma stages_submitted:
  "stages op p (t\<lparr>ref_counter := ref_counter t + 1\<rparr>) rt (submitted op (current_udata rt) p t rt)"
  unfolding stages_def
  by (intro exI [of _ "\<lparr>sqe_op = op, sqe_user_data = current_udata rt\<rparr>"])
    (simp add: submitted_def current_udata_def completion_context into_user_data_value, simp add: TaskInfo_into_payload_def)

lemma unat_succ_u16: "n \<noteq> U16_MAX \<Longrightarrow> unat (n + 1) = Suc (unat n)" for n :: u16
proof -
  assume "n \<noteq> U16_MAX"
  then have "unat n \<noteq> 65535" by (auto simp: word_unat_eq_iff)
  moreover have "unat n < 65536" using unsigned_less [of n, where ?'a = nat] by simp
  ultimately show ?thesis by (simp add: unat_word_ariths)
qed

text \<open>C23. Every single-entry submission of a task stages exactly one entry, with the operation's own
  arguments, and counts exactly one reference on that task. The user data of the entry holds the task's
  index in the low 32 bits, the generation above it and the current number on top; its completion,
  whatever its result, restores the context of the submission. Nothing else of the runtime changes.\<close>

theorem single_submissions_exact:
  assumes "slab_index (cur_idx rt) (rt_tasks rt) = Inr p" "rt_heap rt p = Some t" "ref_counter t \<noteq> U16_MAX"
  defines "t' \<equiv> t\<lparr>ref_counter := ref_counter t + 1\<rparr>"
  shows "unat (ref_counter t') = Suc (unat (ref_counter t)) \<and>
    (\<exists>rt'. send_read fd rt = Inr rt' \<and> stages (Op_Read fd 4096 0) p t' rt rt') \<and>
    (\<exists>rt'. send_accept lfd rt = Inr rt' \<and> stages (Op_Accept lfd) p t' rt rt') \<and>
    (\<exists>rt'. send_write fd b len rt = Inr rt' \<and>
      stages (Op_WriteFixed fd (write_buf_ptr 1 b (rt_buffer rt)) len b) p t' rt rt') \<and>
    (\<exists>rt'. send_connect fd a n rt = Inr rt' \<and> stages (Op_Connect fd a n) p t' rt rt') \<and>
    (\<exists>rt'. send_socket rt = Inr rt' \<and> stages Op_Socket p t' rt rt')"
proof -
  have "send_write fd b len rt =
      Inr (submitted (Op_WriteFixed fd (write_buf_ptr 1 b (rt_buffer rt)) len b) (current_udata rt) p t rt)"
    using assms(1-3) by (simp add: send_write_def Let_def with_task_def task_update_def task_deref_def inc_rc_eq
        sqe_queue_push_def submitted_def)
  then show ?thesis
    unfolding send_read_def send_accept_def send_connect_def send_socket_def Let_def t'_def
    by (simp add: submit_exact [OF assms(1-3)] stages_submitted BUF_SIZE_def PAGE_SIZE_def unat_succ_u16 assms(3))
qed

theorem single_submissions_exact_witness:
  "\<exists>rt'. send_accept 3 (sample_rt 2) = Inr rt' \<and>
     stages (Op_Accept 3) 0x1000 ((sample_task 2)\<lparr>ref_counter := 3\<rparr>) (sample_rt 2) rt'"
  using single_submissions_exact [OF sample_index, of 2] by (simp add: sample_task_def)

text \<open>C24. The multishot submissions set the multiple flag in the context and in the task before they stage
  their entry, so that its completions, when context and task had the same rank, are delivered as
  multiple. The commit write sets the flag in the context and so in the entry, but not in the task: the
  completion of a task in single-shot mode is refused.\<close>

theorem multishot_submissions_exact:
  fixes rt :: "'f runtime"
  assumes "slab_index (cur_idx rt) (rt_tasks rt) = Inr p" "rt_heap rt p = Some t" "ref_counter t \<noteq> U16_MAX"
  defines "nb \<equiv> tag_syscall_nb (ti_tag (rt_current rt)) OR 0x8000"
  defines "rt1 \<equiv> rt\<lparr>rt_current := (rt_current rt)\<lparr>ti_tag := \<lparr>tag_task_idx = cur_idx rt, tag_syscall_nb = nb\<rparr>\<rparr>\<rparr>"
    and "tm \<equiv> t\<lparr>ref_counter := ref_counter t + 1, syscall_nb := syscall_nb t OR 0x8000\<rparr>"
    and "tc \<equiv> t\<lparr>ref_counter := ref_counter t + 1\<rparr>"
  shows "(\<exists>rt'. send_recv_multishot fd rt = Inr rt' \<and> stages (Op_RecvMulti fd 0) p tm rt1 rt') \<and>
    (\<exists>rt'. send_accept_multishot lfd rt = Inr rt' \<and> stages (Op_AcceptMulti lfd) p tm rt1 rt') \<and>
    (\<exists>rt'. send_commit_write ptr fd len b rt = Inr rt' \<and> stages (Op_WriteFixed fd ptr len b) p tc rt1 rt') \<and>
    (rank (tag_syscall_nb (ti_tag (rt_current rt))) = rank (syscall_nb t) \<longrightarrow>
      evaluate_syscall_nb nb tm = Multiple \<and>
      evaluate_syscall_nb nb tc = (if is_multiple (syscall_nb t) then Multiple else Error))"
proof -
  have rt1: "set_current_task_multiple True rt = rt1"
    by (cases "ti_tag (rt_current rt)") (simp add: set_current_task_multiple_def rt1_def nb_def Let_def)
  have p: "slab_index (cur_idx rt1) (rt_tasks rt1) = Inr p" "rt_heap rt1 p = Some t" using assms(1,2) by (simp_all add: rt1_def)
  have tm: "tm = (set_multishot t)\<lparr>ref_counter := ref_counter (set_multishot t) + 1\<rparr>"
    by (simp add: tm_def set_multishot_def MULTIPLE_MASK_def)
  have "evaluate_syscall_nb nb tm = Multiple \<and> evaluate_syscall_nb nb tc = (if is_multiple (syscall_nb t) then Multiple else Error)"
    if "rank (tag_syscall_nb (ti_tag (rt_current rt))) = rank (syscall_nb t)"
    using that by (simp add: evaluate_syscall_nb_eq nb_def tm_def tc_def or_mask_rank is_multiple_def or_exp_15)
  then show ?thesis
    unfolding send_recv_multishot_def send_accept_multishot_def send_commit_write_def Let_def rt1
    by (simp add: multishot_exact [OF p assms(3)] submit_exact [OF p assms(3)] stages_submitted
        stages_submitted [where t = "set_multishot t"] tm tc_def)
qed

theorem multishot_submissions_exact_witness:
  "\<exists>rt'. send_accept_multishot 3 (sample_rt 2) = Inr rt' \<and> rt_pending rt' \<noteq> [] \<and>
     is_multiple (tag_syscall_nb (ti_tag (rt_current rt')))"
proof -
  have "ref_counter (sample_task 2) \<noteq> U16_MAX" by (simp add: sample_task_def)
  from multishot_submissions_exact [OF sample_index this, THEN conjunct2, THEN conjunct1, of 3] show ?thesis
    by (auto simp: stages_def is_multiple_def or_exp_15)
qed

text \<open>C22. A fan-out write stages one entry per descriptor, in order, all for the same buffer and length and
  each tagged with its position as generation, for at most \<open>u16::MAX\<close> descriptors; under the accounting
  invariant it runs into no undefined behaviour and the invariant, which counts every staged entry,
  still holds.\<close>

theorem fan_out_submission:
  assumes "rt_inv ok K H rt" "cur_idx rt \<in># H" "length fds < 65536"
  shows "no_ub (send_multiple_write fds w len rt) \<and>
    (\<forall>rt'. send_multiple_write fds w len rt = Inr rt' \<longrightarrow> rt_inv ok K H rt' \<and>
      rt_pending rt' = rt_pending rt @ map (\<lambda>(j, fd). wbuffer_write_entry w fd len
        (into_user_data ((TaskInfo_into_payload (rt_current rt))\<lparr>up_response_gen := of_nat j\<rparr>)))
          (enumerate 0 fds))"
proof (intro conjI allI impI)
  note k = keeps_send_multiple_write [OF assms, of w len]
  show "no_ub (send_multiple_write fds w len rt)" by (rule keepsD(1) [OF k])
  fix rt' assume res: "send_multiple_write fds w len rt = Inr rt'"
  show "rt_inv ok K H rt'" using keepsD(2) [OF k res] by simp
  let ?ud = "TaskInfo_into_payload (rt_current rt)"
  from res obtain rt1 rt2 where s: "send_writes ?ud w len 0 fds rt = Inr rt1"
    and w: "with_task (up_task_idx ?ud) (add_rc (of_nat (length fds))) rt1 = Inr rt2"
    and d: "drop_wbuffer w rt2 = Inr rt'"
    by (auto simp: send_multiple_write_def Let_def and_then_eq_Inr)
  have "rt_pending rt' = rt_pending rt1"
    using w d by (auto simp: with_task_def drop_wbuffer_def on_pool_def and_then_eq_Inr)
  then show "rt_pending rt' = rt_pending rt @ map (\<lambda>(j, fd). wbuffer_write_entry w fd len
      (into_user_data (?ud\<lparr>up_response_gen := of_nat j\<rparr>))) (enumerate 0 fds)"
    using send_writes_pending [OF s] by simp
qed

theorem fan_out_submission_witness:
  "no_ub (send_multiple_write [7, 8] \<lparr>w_ptr = 0x11000, w_abs_idx = 1\<rparr> 4 (sample_rt 1))"
proof -
  have "cur_idx (sample_rt 1) \<in># replicate_mset (unat (1::u16)) 0"
    by (simp add: sample_rt_def initial_poll_def Tag_new_def)
  from fan_out_submission [OF sample_inv this, of "[7, 8]"] show ?thesis by simp
qed



end
