(* ===== verification/Calls.thy ===== *)
theory Calls
  imports Task_Accounting
begin

text \<open>
  The futures and streams of \<open>src/src/calls/\<close> and \<open>src/src/stream.rs\<close>: each is a state machine
  whose \<open>poll\<close> reads the completion in the current task's context, submits through the runtime and
  returns its next state. An \<open>async fn\<close> that only awaits one of them starts in its first state.
  Every poll keeps the accounting, and each branch has its functional behaviour proved.
\<close>

datatype 'a poll_result = Poll_Pending | Poll_Ready 'a

type_synonym 'a io_result = "i32 + 'a" \<comment> \<open>\<open>Result<_, i32>\<close>: \<open>Inl\<close> is \<open>Err\<close>\<close>

abbreviation neg :: "i32 \<Rightarrow> bool" where "neg r \<equiv> sint r < 0"

subsection \<open>Streams\<close>

text \<open>\<open>StreamExt::next\<close> and the future it returns, which borrows the stream: polling it polls the
  stream, whose new state goes back to the owner.\<close>

datatype 's next_future = Next 's

definition stream_next :: "'s \<Rightarrow> 's next_future" where
  "stream_next s = Next s"

definition next_poll :: "('s \<Rightarrow> 'f runtime \<Rightarrow> ('s \<times> 'v option poll_result \<times> 'f runtime) res)
    \<Rightarrow> 's next_future \<Rightarrow> 'f runtime \<Rightarrow> ('s \<times> 'v option poll_result \<times> 'f runtime) res" where
  "next_poll poll_next self rt = (case self of Next s \<Rightarrow> poll_next s rt)"

lemma next_poll_next [simp]: "next_poll poll_next (stream_next s) rt = poll_next s rt"
  by (simp add: next_poll_def stream_next_def)

text \<open>One \<open>next().await\<close> polled per completion context, collecting what it yields.\<close>

primrec stream_feed :: "('s \<Rightarrow> 'f runtime \<Rightarrow> ('s \<times> 'v option poll_result \<times> 'f runtime) res)
    \<Rightarrow> task_info list \<Rightarrow> 's \<Rightarrow> 'f runtime \<Rightarrow> ('v option poll_result list \<times> 's \<times> 'f runtime) res" where
  "stream_feed poll_next [] s rt = Inr ([], s, rt)"
| "stream_feed poll_next (info # infos) s rt =
     and_then (next_poll poll_next (stream_next s) (rt\<lparr>rt_current := info\<rparr>)) (\<lambda>(s, p, rt).
     and_then (stream_feed poll_next infos s rt) (\<lambda>(ps, s, rt). Inr (p # ps, s, rt)))"

lemma stream_feed_append:
  "stream_feed poll_next (xs @ ys) s rt =
     and_then (stream_feed poll_next xs s rt) (\<lambda>(ps, s, rt).
     and_then (stream_feed poll_next ys s rt) (\<lambda>(qs, s, rt). Inr (ps @ qs, s, rt)))"
proof (induction xs arbitrary: s rt)
  case (Cons x xs)
  show ?case
    by (cases "poll_next s (rt\<lparr>rt_current := x\<rparr>)")
      (auto simp: Cons.IH and_then_def split: sum.split)
qed (auto simp: and_then_def split: sum.split)

text \<open>The contract of a \<open>Stream\<close>: it is pending at most once, when it starts, and once it has yielded
  \<open>None\<close> it goes on yielding \<open>None\<close> without doing anything.\<close>

locale stream =
  fixes poll_next :: "'s \<Rightarrow> 'f runtime \<Rightarrow> ('s \<times> 'v option poll_result \<times> 'f runtime) res"
    and started :: "'s \<Rightarrow> bool" and ended :: "'s \<Rightarrow> bool"
  assumes pending_starts: "poll_next s rt = Inr (s', Poll_Pending, rt') \<Longrightarrow> \<not> started s \<and> started s'"
    and started_stays: "poll_next s rt = Inr (s', p, rt') \<Longrightarrow> started s'"
    and none_ends: "poll_next s rt = Inr (s', Poll_Ready None, rt') \<Longrightarrow> ended s'"
    and ended_none: "ended s \<Longrightarrow> poll_next s rt = Inr (s, Poll_Ready None, rt)"
begin

text \<open>A \<open>next().await\<close> that was pending is ready when it is polled again.\<close>

lemma next_ready:
  assumes "next_poll poll_next (stream_next s) rt = Inr (s1, p, rt1)"
    and "next_poll poll_next (stream_next s1) rt2 = Inr (s2, q, rt3)"
  shows "\<exists>v. q = Poll_Ready v"
  using assms started_stays [of s rt s1 p rt1] pending_starts [of s1 rt2 s2 rt3] by (cases q) auto

lemma next_fused:
  assumes "next_poll poll_next (stream_next s) rt = Inr (s', Poll_Ready None, rt')"
  shows "next_poll poll_next (stream_next s') rt2 = Inr (s', Poll_Ready None, rt2)"
  using assms none_ends ended_none by simp

end

text \<open>A multishot stream: every completion with a non-negative result yields an item that depends on the
  completion and the pool only, and the stream goes on as long as more completions are announced.\<close>

locale multishot_stream = stream poll_next started ended
  for poll_next :: "'s \<Rightarrow> 'f runtime \<Rightarrow> ('s \<times> 'v option poll_result \<times> 'f runtime) res"
    and started :: "'s \<Rightarrow> bool" and ended :: "'s \<Rightarrow> bool" +
  fixes more :: "u32 \<Rightarrow> bool" and running :: "'s \<Rightarrow> bool"
    and item :: "'s \<Rightarrow> task_info \<Rightarrow> buf_pool \<Rightarrow> 'v option"
  assumes running_more: "\<lbrakk>running s; \<not> neg (ti_result i); more (ti_flags i); item s i (rt_buffer rt) = Some v\<rbrakk>
      \<Longrightarrow> poll_next s (rt\<lparr>rt_current := i\<rparr>) = Inr (s, Poll_Ready (Some v), rt\<lparr>rt_current := i\<rparr>)"
    and running_last: "\<lbrakk>running s; \<not> neg (ti_result i); \<not> more (ti_flags i); item s i (rt_buffer rt) = Some v\<rbrakk>
      \<Longrightarrow> \<exists>s'. poll_next s (rt\<lparr>rt_current := i\<rparr>) = Inr (s', Poll_Ready (Some v), rt\<lparr>rt_current := i\<rparr>) \<and> ended s'"
    and running_error: "\<lbrakk>running s; neg (ti_result i)\<rbrakk>
      \<Longrightarrow> \<exists>s'. poll_next s (rt\<lparr>rt_current := i\<rparr>) = Inr (s', Poll_Ready None, rt\<lparr>rt_current := i\<rparr>)"
begin

lemma feed_ended:
  assumes "ended s"
  shows "\<exists>i. stream_feed poll_next infos s rt =
    Inr (replicate (length infos) (Poll_Ready None), s, rt\<lparr>rt_current := i\<rparr>)"
proof (induction infos arbitrary: rt)
  case Nil
  show ?case by (intro exI [of _ "rt_current rt"]) simp
next
  case (Cons x xs)
  from Cons.IH [of "rt\<lparr>rt_current := x\<rparr>"] show ?case by (auto simp: ended_none [OF assms])
qed

lemma feed_running:
  assumes "running s"
    and "\<forall>i \<in> set infos. \<not> neg (ti_result i) \<and> more (ti_flags i) \<and> item s i (rt_buffer rt) \<noteq> None"
  shows "\<exists>i. stream_feed poll_next infos s rt =
    Inr (map (\<lambda>i. Poll_Ready (item s i (rt_buffer rt))) infos, s, rt\<lparr>rt_current := i\<rparr>)"
  using assms(2)
proof (induction infos arbitrary: rt)
  case Nil
  show ?case by (intro exI [of _ "rt_current rt"]) simp
next
  case (Cons x xs)
  then obtain v where "item s x (rt_buffer rt) = Some v" by auto
  then show ?case using Cons.IH [of "rt\<lparr>rt_current := x\<rparr>"] Cons.prems
    by (auto simp: running_more [OF assms(1)])
qed

text \<open>Polls for one and the same completion yield its item again and again.\<close>

lemma feed_same:
  assumes "running s" "\<not> neg (ti_result i)" "more (ti_flags i)" "item s i (rt_buffer rt) = Some v"
  shows "stream_feed poll_next (replicate (Suc n) i) s rt =
    Inr (replicate (Suc n) (Poll_Ready (Some v)), s, rt\<lparr>rt_current := i\<rparr>)"
  using assms(4)
proof (induction n arbitrary: rt)
  case 0
  then show ?case by (simp add: running_more [OF assms(1-3)])
next
  case (Suc n)
  from Suc.IH [of "rt\<lparr>rt_current := i\<rparr>"] Suc.prems running_more [OF assms(1-3) Suc.prems] show ?case by simp
qed

text \<open>Every completion yields its item in order; after the last one, or an error, the stream has ended.\<close>

lemma feed_items:
  assumes "running s"
    and "\<forall>i \<in> set infos. \<not> neg (ti_result i) \<and> more (ti_flags i) \<and> item s i (rt_buffer rt) \<noteq> None"
    and "neg (ti_result fin) \<or> \<not> more (ti_flags fin) \<and> item s fin (rt_buffer rt) \<noteq> None"
  shows "\<exists>s' i. stream_feed poll_next (infos @ fin # later) s rt =
    Inr (map (\<lambda>i. Poll_Ready (item s i (rt_buffer rt))) infos @
         Poll_Ready (if neg (ti_result fin) then None else item s fin (rt_buffer rt)) #
         replicate (length later) (Poll_Ready None), s', rt\<lparr>rt_current := i\<rparr>) \<and> ended s'"
proof -
  from feed_running [OF assms(1,2)] obtain j where
    run: "stream_feed poll_next infos s rt =
      Inr (map (\<lambda>i. Poll_Ready (item s i (rt_buffer rt))) infos, s, rt\<lparr>rt_current := j\<rparr>)" by blast
  have "\<exists>s'. poll_next s (rt\<lparr>rt_current := fin\<rparr>) =
      Inr (s', Poll_Ready (if neg (ti_result fin) then None else item s fin (rt_buffer rt)), rt\<lparr>rt_current := fin\<rparr>)
    \<and> ended s'"
  proof (cases "neg (ti_result fin)")
    case True
    with running_error [OF assms(1) True, of rt] none_ends show ?thesis by fastforce
  next
    case False
    then obtain v where "item s fin (rt_buffer rt) = Some v" "\<not> more (ti_flags fin)" using assms(3) by auto
    with running_last [OF assms(1) False] False show ?thesis by simp
  qed
  then obtain s' where step: "poll_next s (rt\<lparr>rt_current := fin\<rparr>) =
      Inr (s', Poll_Ready (if neg (ti_result fin) then None else item s fin (rt_buffer rt)), rt\<lparr>rt_current := fin\<rparr>)"
    and over: "ended s'" by blast
  from feed_ended [OF over, of later "rt\<lparr>rt_current := fin\<rparr>"] obtain k where
    "stream_feed poll_next later s' (rt\<lparr>rt_current := fin\<rparr>) =
      Inr (replicate (length later) (Poll_Ready None), s', rt\<lparr>rt_current := k\<rparr>)" by auto
  then show ?thesis using over by (auto simp: stream_feed_append run step)
qed

end

subsection \<open>accept\<close>

datatype AcceptFuture = AF_Pending i32 | AF_Submited

definition accept :: "i32 \<Rightarrow> AcceptFuture" where "accept listen_fd = AF_Pending listen_fd"

definition accept_poll :: "AcceptFuture \<Rightarrow> 'f runtime
    \<Rightarrow> (AcceptFuture \<times> u32 io_result poll_result \<times> 'f runtime) res" where
  "accept_poll self rt =
     (case self of
        AF_Pending fd \<Rightarrow> and_then (submit_accept fd rt) (\<lambda>rt. Inr (AF_Submited, Poll_Pending, rt))
      | AF_Submited \<Rightarrow>
          let r = current_result rt
          in Inr (AF_Submited, Poll_Ready (if 0 \<le> sint r then Inr r else Inl r), rt))"

datatype stream_state = SS_Init | SS_Running | SS_Done

record AcceptStream =
  as_listen_fd :: i32
  as_state :: stream_state

definition AcceptStream_new :: "i32 \<Rightarrow> AcceptStream" where
  "AcceptStream_new listen_fd = \<lparr>as_listen_fd = listen_fd, as_state = SS_Init\<rparr>"

definition accept_stream :: "i32 \<Rightarrow> AcceptStream" where
  "accept_stream listen_fd = AcceptStream_new listen_fd"

definition accept_poll_next :: "'f env \<Rightarrow> AcceptStream \<Rightarrow> 'f runtime
    \<Rightarrow> (AcceptStream \<times> u32 option poll_result \<times> 'f runtime) res" where
  "accept_poll_next E self rt =
     (case as_state self of
        SS_Init \<Rightarrow>
          and_then (submit_accept_multishot (as_listen_fd self) rt) (\<lambda>rt.
          Inr (self\<lparr>as_state := SS_Running\<rparr>, Poll_Pending, rt))
      | SS_Running \<Rightarrow>
          let result = current_result rt
          in if neg result then Inr (self\<lparr>as_state := SS_Done\<rparr>, Poll_Ready None, rt)
             else Inr (if env_more E (current_cqe_flags rt) then self
                       else self\<lparr>as_state := SS_Done\<rparr>, Poll_Ready (Some result), rt)
      | SS_Done \<Rightarrow> Inr (self, Poll_Ready None, rt))"

interpretation accept_stream: multishot_stream "accept_poll_next E" "\<lambda>s. as_state s \<noteq> SS_Init"
    "\<lambda>s. as_state s = SS_Done" "env_more E" "\<lambda>s. as_state s = SS_Running" "\<lambda>s i pool. Some (ti_result i)"
  for E
  by unfold_locales
    (auto simp: accept_poll_next_def res_simps Let_def current_result_def current_cqe_flags_def
      split: stream_state.splits if_splits)

subsection \<open>read\<close>

datatype ReadFuture = RF_Init u32 | RF_Pending u32

definition read :: "u32 \<Rightarrow> ReadFuture" where "read fd = RF_Init fd"

definition read_poll :: "'f env \<Rightarrow> ReadFuture \<Rightarrow> 'f runtime
    \<Rightarrow> (ReadFuture \<times> rw_buffer io_result poll_result \<times> 'f runtime) res" where
  "read_poll E self rt =
     (case self of
        RF_Init fd \<Rightarrow> and_then (submit_read fd rt) (\<lambda>rt. Inr (RF_Pending fd, Poll_Pending, rt))
      | RF_Pending fd \<Rightarrow>
          let bytes = current_result rt; flags = current_cqe_flags rt
          in if sint bytes \<le> 0
             then and_then (case env_buffer_select E flags of
                              Some buf_id \<Rightarrow> release_read_buf (ucast buf_id) rt
                            | None \<Rightarrow> Inr rt) (\<lambda>rt.
                  Inr (self, Poll_Ready (Inl bytes), rt))
             else and_then (expect Missing_buf_id (env_buffer_select E flags)) (\<lambda>buf_id.
                  and_then (checkout_read 1 (ucast buf_id) fd bytes (rt_buffer rt)) (\<lambda>rwbuf.
                  Inr (self, Poll_Ready (Inr rwbuf), rt))))"

record ReadStream =
  rs_fd :: u32
  rs_state :: stream_state

definition ReadStream_new :: "u32 \<Rightarrow> ReadStream" where
  "ReadStream_new fd = \<lparr>rs_fd = fd, rs_state = SS_Init\<rparr>"

definition read_stream :: "u32 \<Rightarrow> ReadStream" where
  "read_stream fd = ReadStream_new fd"

definition read_poll_next :: "'f env \<Rightarrow> ReadStream \<Rightarrow> 'f runtime
    \<Rightarrow> (ReadStream \<times> rw_buffer option poll_result \<times> 'f runtime) res" where
  "read_poll_next E self rt =
     (case rs_state self of
        SS_Init \<Rightarrow>
          and_then (submit_recv_multishot (rs_fd self) rt) (\<lambda>rt.
          Inr (self\<lparr>rs_state := SS_Running\<rparr>, Poll_Pending, rt))
      | SS_Running \<Rightarrow>
          let result = current_result rt; flags = current_cqe_flags rt
          in if neg result then Inr (self\<lparr>rs_state := SS_Done\<rparr>, Poll_Ready None, rt)
             else and_then (expect Missing_buf_id (env_buffer_select E flags)) (\<lambda>buf_id.
                  and_then (checkout_read 1 (ucast buf_id) (rs_fd self) result (rt_buffer rt)) (\<lambda>buf.
                  Inr (if env_more E flags then self else self\<lparr>rs_state := SS_Done\<rparr>,
                       Poll_Ready (Some buf), rt)))
      | SS_Done \<Rightarrow> Inr (self, Poll_Ready None, rt))"

text \<open>The item of a completion: the buffer the kernel selected, if it is one of the pool.\<close>

definition read_item :: "'f env \<Rightarrow> ReadStream \<Rightarrow> task_info \<Rightarrow> buf_pool \<Rightarrow> rw_buffer option" where
  "read_item E s i pool =
     (case env_buffer_select E (ti_flags i) of
        None \<Rightarrow> None
      | Some b \<Rightarrow> (case checkout_read 1 (ucast b) (rs_fd s) (ti_result i) pool of Inl e \<Rightarrow> None | Inr buf \<Rightarrow> Some buf))"

interpretation read_stream: multishot_stream "read_poll_next E" "\<lambda>s. rs_state s \<noteq> SS_Init"
    "\<lambda>s. rs_state s = SS_Done" "env_more E" "\<lambda>s. rs_state s = SS_Running" "read_item E"
  for E
  by unfold_locales
    (auto simp: read_poll_next_def res_simps Let_def current_result_def current_cqe_flags_def read_item_def
      split: stream_state.splits if_splits option.splits sum.splits)

subsection \<open>commit\<close>

datatype CommitFuture =
    CF_Init u64 u32 u32 u32            \<comment> \<open>pointer, buffer index, descriptor, length\<close>
  | CF_Pending u32

definition make_commit_future :: "u64 \<Rightarrow> u32 \<Rightarrow> u32 \<Rightarrow> u32 \<Rightarrow> CommitFuture" where
  "make_commit_future ptr buf_idx fd_idx len = CF_Init ptr buf_idx fd_idx len"

text \<open>\<open>RwBuffer::commit\<close>: the buffer marked, and the future that is awaited while it is held.\<close>

definition rwbuffer_commit :: "rw_buffer \<Rightarrow> u32 \<Rightarrow> rw_buffer \<times> CommitFuture" where
  "rwbuffer_commit b len =
     (b\<lparr>rw_committed := True\<rparr>, make_commit_future (rw_ptr b) (rw_buf_idx b) (rw_fd_idx b) len)"

definition commit_poll :: "CommitFuture \<Rightarrow> 'f runtime
    \<Rightarrow> (CommitFuture \<times> i32 poll_result \<times> 'f runtime) res" where
  "commit_poll self rt =
     (case self of
        CF_Init ptr buf_idx fd_idx len \<Rightarrow>
          and_then (submit_commit_write ptr fd_idx len (ucast buf_idx) rt) (\<lambda>rt.
          Inr (CF_Pending buf_idx, Poll_Pending, rt))
      | CF_Pending buf_idx \<Rightarrow>
          and_then (release_read_buf buf_idx rt) (\<lambda>rt.
          Inr (self, Poll_Ready (current_result rt), rt)))"

subsection \<open>write\<close>

datatype WriteFuture = WF_Init u32 u16 u32 | WF_Pending

definition write_fn :: "u32 \<Rightarrow> u16 \<Rightarrow> u32 \<Rightarrow> WriteFuture" where
  "write_fn fd buf_id len = WF_Init fd buf_id len"

definition write_poll :: "WriteFuture \<Rightarrow> 'f runtime
    \<Rightarrow> (WriteFuture \<times> i32 poll_result \<times> 'f runtime) res" where
  "write_poll self rt =
     (case self of
        WF_Init fd buf_id len \<Rightarrow>
          and_then (submit_write fd buf_id len rt) (\<lambda>rt. Inr (WF_Pending, Poll_Pending, rt))
      | WF_Pending \<Rightarrow> Inr (self, Poll_Ready (current_result rt), rt))"

datatype WriteResult = Failed u32 | Partial u32 u32

record wm_pending =
  wm_in_fligth_count :: u16
  wm_fds :: "u32 list"
  wm_faileds :: "WriteResult list"
  wm_len :: u32
  wm_buffer :: w_buffer

datatype WriteMultipleFuture =
    WM_Init "u32 list" w_buffer u32
  | WM_Pending wm_pending
  | WM_Poisoned

definition write_multiple :: "u32 list \<Rightarrow> w_buffer \<Rightarrow> u32 \<Rightarrow> WriteMultipleFuture" where
  "write_multiple fds buffer len = WM_Init fds buffer len"

text \<open>The method \<open>WBuffer::write_multiple\<close> awaits the same future.\<close>

definition wbuffer_write_multiple :: "w_buffer \<Rightarrow> u32 list \<Rightarrow> u32 \<Rightarrow> WriteMultipleFuture" where
  "wbuffer_write_multiple self fds len = write_multiple fds self len"

text \<open>What one completion appends to the failures.\<close>

definition write_failures :: "u32 \<Rightarrow> u32 \<Rightarrow> i32 \<Rightarrow> WriteResult list" where
  "write_failures fd len result =
     (if neg result then [Failed fd] else []) @ (if result \<noteq> len then [Partial fd result] else [])"

definition write_multiple_poll :: "WriteMultipleFuture \<Rightarrow> 'f runtime
    \<Rightarrow> (WriteMultipleFuture \<times> WriteResult list poll_result \<times> 'f runtime) res" where
  "write_multiple_poll self rt =
     (case self of
        WM_Init fds buffer len \<Rightarrow>
          and_then (clone_wbuffer buffer rt) (\<lambda>rt.
          and_then (submit_multiple_write fds buffer len rt) (\<lambda>rt.
          Inr (WM_Pending \<lparr>wm_in_fligth_count = of_nat (length fds), wm_fds = fds, wm_faileds = [],
                           wm_len = len, wm_buffer = buffer\<rparr>, Poll_Pending, rt)))
      | WM_Poisoned \<Rightarrow> Inl (Ub Unreachable_unchecked)
      | WM_Pending s \<Rightarrow>
          and_then (sub_ovf (wm_in_fligth_count s) 1) (\<lambda>left.
          let info = rt_current rt; gen = unat (ti_response_gen info)
          in and_then (assert_or Slice_index (gen < length (wm_fds s))) (\<lambda>_.
             let fd = wm_fds s ! gen
             in and_then (assert_or Duplicate_gen (fd \<noteq> U32_MAX)) (\<lambda>_.
                let s = s\<lparr>wm_in_fligth_count := left, wm_fds := (wm_fds s)[gen := U32_MAX],
                          wm_faileds := wm_faileds s @ write_failures fd (wm_len s) (ti_result info)\<rparr>
                in if left = 0
                   then and_then (advance_syscall_nb (ti_tag info) rt) (\<lambda>rt.
                        Inr (WM_Pending (s\<lparr>wm_faileds := []\<rparr>), Poll_Ready (wm_faileds s),
                             rt\<lparr>rt_current := set_to_next_task (rt_current rt)\<rparr>))
                   else Inr (WM_Pending s, Poll_Pending, rt)))))"

text \<open>The buffer handle a future holds is dropped with it.\<close>

definition write_multiple_drop :: "WriteMultipleFuture \<Rightarrow> 'f runtime \<Rightarrow> 'f runtime res" where
  "write_multiple_drop self rt =
     (case self of
        WM_Init fds buffer len \<Rightarrow> drop_wbuffer buffer rt
      | WM_Pending s \<Rightarrow> drop_wbuffer (wm_buffer s) rt
      | WM_Poisoned \<Rightarrow> Inr rt)"

subsection \<open>connect\<close>

record sockaddr_in =
  sin_family :: u16
  sin_port :: u16
  s_addr :: u32
  sin_zero :: "u8 list"

datatype SocketFuture =
    SF_CreateSocket sockaddr_in
  | SF_Connecting u32 sockaddr_in
  | SF_Pending

text \<open>\<open>port.to_be()\<close> and \<open>u32::from_ne_bytes\<close> on a little-endian target.\<close>

definition to_be :: "u16 \<Rightarrow> u16" where
  "to_be w = push_bit 8 w OR drop_bit 8 w"

definition from_ne_bytes :: "u8 \<times> u8 \<times> u8 \<times> u8 \<Rightarrow> u32" where
  "from_ne_bytes = (\<lambda>(a, b, c, d).
     ucast a OR push_bit 8 (ucast b) OR push_bit 16 (ucast c) OR push_bit 24 (ucast d))"

definition connect :: "u8 \<times> u8 \<times> u8 \<times> u8 \<Rightarrow> u16 \<Rightarrow> SocketFuture" where
  "connect ip port =
     SF_CreateSocket \<lparr>sin_family = 2, sin_port = to_be port, s_addr = from_ne_bytes ip,
                      sin_zero = replicate 8 0\<rparr>"

text \<open>The first argument is the address of the local copy of \<open>addr\<close> that \<open>poll\<close> passes on;
  16 is the size of \<open>sockaddr_in\<close>.\<close>

definition socket_poll :: "u64 \<Rightarrow> SocketFuture \<Rightarrow> 'f runtime
    \<Rightarrow> (SocketFuture \<times> u32 poll_result \<times> 'f runtime) res" where
  "socket_poll local_addr self rt =
     (case self of
        SF_CreateSocket addr \<Rightarrow>
          and_then (submit_socket rt) (\<lambda>rt. Inr (SF_Connecting 0 addr, Poll_Pending, rt))
      | SF_Connecting fd addr \<Rightarrow>
          if fd = 0
          then let slot = current_result rt
               in and_then (submit_connect slot local_addr 16 rt) (\<lambda>rt.
                  Inr (SF_Connecting slot addr, Poll_Pending, rt))
          else Inr (SF_Pending, Poll_Ready fd, rt)
      | SF_Pending \<Rightarrow> Inl (Panic Unreachable))"

subsection \<open>Every poll keeps the accounting\<close>

lemma keeps_return:
  assumes "keeps ok K H rt id m"
  shows "keeps ok K H rt (snd \<circ> snd) (and_then m (\<lambda>rt. Inr (a rt, b rt, rt)))"
  by (rule keeps_and_then [OF assms]) (auto intro: keeps_Inr)

lemma keeps_value:
  "rt_inv ok K H rt \<Longrightarrow> keeps ok K H rt (snd \<circ> snd) (Inr (a, b, rt))"
  by (rule keeps_Inr) simp_all

lemma keeps_assert:
  "(c \<Longrightarrow> keeps ok K H rt sel m) \<Longrightarrow> keeps ok K H rt sel (and_then (assert_or e c) (\<lambda>_. m))"
  by (cases c) simp_all

lemma no_ub_checkout_read [simp]: "no_ub (checkout_read N i fd n pool)"
  by (auto simp: checkout_read_def intro!: no_ub_and_then)

lemma keeps_checkout:
  assumes "rt_inv ok K H rt"
  shows "keeps ok K H rt (snd \<circ> snd) (and_then (expect e x) (\<lambda>buf_id.
    and_then (checkout_read N (i buf_id) fd n pool) (\<lambda>buf. Inr (a buf, b buf, rt))))"
  by (rule keeps_unseen [OF assms]) (auto simp: res_simps intro!: no_ub_and_then)

lemma keeps_accept_poll:
  assumes "rt_inv ok K H rt" "cur_idx rt \<in># H"
  shows "keeps ok K H rt (snd \<circ> snd) (accept_poll self rt)"
  using assms by (cases self)
    (auto simp: accept_poll_def Let_def intro!: keeps_return keeps_send_simple keeps_value)

lemma keeps_accept_poll_next:
  assumes "rt_inv ok K H rt" "cur_idx rt \<in># H"
  shows "keeps ok K H rt (snd \<circ> snd) (accept_poll_next E self rt)"
  using assms by (cases "as_state self")
    (auto simp: accept_poll_next_def Let_def intro!: keeps_return keeps_send_multishot keeps_value)

lemma keeps_read_poll:
  assumes "rt_inv ok K H rt" "cur_idx rt \<in># H"
  shows "keeps ok K H rt (snd \<circ> snd) (read_poll E self rt)"
proof (cases self)
  case (RF_Init fd)
  then show ?thesis using assms by (auto simp: read_poll_def intro!: keeps_return keeps_send_simple)
next
  case (RF_Pending fd)
  have "keeps ok K H rt id (case x of Some buf_id \<Rightarrow> release_read_buf (ucast buf_id) rt | None \<Rightarrow> Inr rt)"
    for x :: "u16 option"
    using assms(1) by (cases x) (auto intro: keeps_release_read_buf keeps_Inr)
  then show ?thesis using assms(1) RF_Pending
    by (auto simp: read_poll_def Let_def intro!: keeps_return keeps_checkout)
qed

lemma keeps_read_poll_next:
  assumes "rt_inv ok K H rt" "cur_idx rt \<in># H"
  shows "keeps ok K H rt (snd \<circ> snd) (read_poll_next E self rt)"
  using assms by (cases "rs_state self")
    (auto simp: read_poll_next_def Let_def
      intro!: keeps_return keeps_send_multishot keeps_value keeps_checkout)

lemma keeps_commit_poll:
  assumes "rt_inv ok K H rt" "cur_idx rt \<in># H"
  shows "keeps ok K H rt (snd \<circ> snd) (commit_poll self rt)"
  using assms by (cases self)
    (auto simp: commit_poll_def intro!: keeps_return keeps_send_commit_write keeps_release_read_buf)

lemma keeps_write_poll:
  assumes "rt_inv ok K H rt" "cur_idx rt \<in># H"
  shows "keeps ok K H rt (snd \<circ> snd) (write_poll self rt)"
  using assms by (cases self)
    (auto simp: write_poll_def intro!: keeps_return keeps_send_simple keeps_value)

lemma keeps_socket_poll:
  assumes "rt_inv ok K H rt" "cur_idx rt \<in># H"
  shows "keeps ok K H rt (snd \<circ> snd) (socket_poll a self rt)"
  using assms by (cases self)
    (auto simp: socket_poll_def Let_def intro!: keeps_return keeps_send_simple keeps_value)

text \<open>A fan-out future the client can hold: not the value left behind by \<open>mem::replace\<close>, and at most
  \<open>u16::MAX\<close> descriptors.\<close>

primrec wm_ok :: "WriteMultipleFuture \<Rightarrow> bool" where
  "wm_ok (WM_Init fds w len) \<longleftrightarrow> length fds < 65536"
| "wm_ok (WM_Pending s) \<longleftrightarrow> True"
| "wm_ok WM_Poisoned \<longleftrightarrow> False"

lemma wm_ok_poll: "write_multiple_poll self rt = Inr (self', r, rt') \<Longrightarrow> wm_ok self'"
  by (cases self) (auto simp: write_multiple_poll_def Let_def res_simps split: if_splits)

lemma unseen_next_task [simp]: "unseen rt (rt\<lparr>rt_current := set_to_next_task (rt_current rt)\<rparr>)"
  by (simp add: unseen_def set_to_next_task_def Tag_augmente_syscall_nb_def)

lemma keeps_write_multiple_poll:
  assumes inv: "rt_inv ok K H rt" and i: "cur_idx rt \<in># H" and self: "wm_ok self"
  shows "keeps ok K H rt (snd \<circ> snd) (write_multiple_poll self rt)"
proof (cases self)
  case (WM_Init fds w len)
  show ?thesis
    unfolding write_multiple_poll_def WM_Init WriteMultipleFuture.case
  proof (rule keeps_and_then [OF keeps_clone_wbuffer [OF inv]])
    fix x assume "rt_inv ok K H (id x)" "stable H rt (id x)"
    then show "keeps ok K H (id x) (snd \<circ> snd) (and_then (submit_multiple_write fds w len x)
        (\<lambda>rt. Inr (WM_Pending \<lparr>wm_in_fligth_count = of_nat (length fds), wm_fds = fds, wm_faileds = [],
           wm_len = len, wm_buffer = w\<rparr>, Poll_Pending, rt)))"
      using i self WM_Init by (auto simp: stable_def intro!: keeps_return keeps_send_multiple_write)
  qed
next
  case (WM_Pending s)
  have last: "keeps ok K H rt (snd \<circ> snd) (and_then (advance_syscall_nb (ti_tag (rt_current rt)) rt)
      (\<lambda>rt. Inr (a, b, rt\<lparr>rt_current := set_to_next_task (rt_current rt)\<rparr>)))"
    for a :: WriteMultipleFuture and b :: "WriteResult list poll_result"
    by (rule keeps_and_then [OF keeps_advance_syscall_nb [OF inv i]])
      (auto intro!: keeps_unseen)
  show ?thesis
    using last inv
    by (auto simp: WM_Pending write_multiple_poll_def Let_def sub_ovf_def intro!: keeps_assert keeps_value)
qed (use self in simp)

lemma drop_write_multiple:
  "no_ub (write_multiple_drop w rt)" "write_multiple_drop w rt = Inr rt' \<Longrightarrow> unseen rt rt'"
  by (cases w; auto simp: write_multiple_drop_def drop_wbuffer_def intro: no_ub_on_pool dest: on_pool_unseen)+

subsection \<open>Fan-out futures fed with completions\<close>

text \<open>One poll per completion, given as generation and result; the feed ends when the future is ready.\<close>

primrec wm_feed :: "(u16 \<times> i32) list \<Rightarrow> WriteMultipleFuture \<Rightarrow> 'f runtime
    \<Rightarrow> (WriteMultipleFuture \<times> WriteResult list poll_result \<times> 'f runtime) res" where
  "wm_feed [] self rt = Inr (self, Poll_Pending, rt)"
| "wm_feed (c # cs) self rt =
     and_then (write_multiple_poll self
       (rt\<lparr>rt_current := (rt_current rt)\<lparr>ti_response_gen := fst c, ti_result := snd c\<rparr>\<rparr>)) (\<lambda>(self, p, rt).
     case p of Poll_Pending \<Rightarrow> wm_feed cs self rt | Poll_Ready v \<Rightarrow> Inr (self, Poll_Ready v, rt))"

text \<open>The failures of a list of completions, in the order they arrive.\<close>

definition all_failures :: "u32 list \<Rightarrow> u32 \<Rightarrow> (u16 \<times> i32) list \<Rightarrow> WriteResult list" where
  "all_failures fds len cs = concat (map (\<lambda>(g, r). write_failures (fds ! unat g) len r) cs)"

lemma wm_poll_step:
  assumes g: "unat g < length (wm_fds s)" "wm_fds s ! unat g \<noteq> U32_MAX"
    and more: "wm_in_fligth_count s \<noteq> 0" "wm_in_fligth_count s \<noteq> 1"
    and rt: "ti_response_gen (rt_current rt) = g" "ti_result (rt_current rt) = r"
  shows "write_multiple_poll (WM_Pending s) rt =
    Inr (WM_Pending (s\<lparr>wm_in_fligth_count := wm_in_fligth_count s - 1,
      wm_fds := (wm_fds s)[unat g := U32_MAX],
      wm_faileds := wm_faileds s @ write_failures (wm_fds s ! unat g) (wm_len s) r\<rparr>), Poll_Pending, rt)"
proof -
  have "sub_ovf (wm_in_fligth_count s) 1 = Inr (wm_in_fligth_count s - 1)"
    using more(1) by (simp add: sub_ovf_def word_le_nat_alt unat_eq_0_iff [symmetric] Suc_le_eq)
  then show ?thesis using assms by (simp add: write_multiple_poll_def Let_def)
qed

lemma wm_poll_last:
  assumes g: "unat g < length (wm_fds s)" "wm_fds s ! unat g \<noteq> U32_MAX"
    and last: "wm_in_fligth_count s = 1"
    and rt: "ti_response_gen (rt_current rt) = g" "ti_result (rt_current rt) = r"
    and p: "slab_index (cur_idx rt) (rt_tasks rt) = Inr p" "rt_heap rt p = Some t"
  shows "\<exists>self' rt'. write_multiple_poll (WM_Pending s) rt =
    Inr (self', Poll_Ready (wm_faileds s @ write_failures (wm_fds s ! unat g) (wm_len s) r), rt')"
proof -
  have "sub_ovf (wm_in_fligth_count s) 1 = Inr 0" using last by (simp add: sub_ovf_def)
  moreover obtain rt' where "advance_syscall_nb (ti_tag (rt_current rt)) rt = Inr rt'"
    using p by (simp add: advance_syscall_nb_def with_task_def task_update_def task_deref_def
        augmente_syscall_nb_eq)
  ultimately show ?thesis using g rt by (simp add: write_multiple_poll_def Let_def)
qed

lemma wm_feed_all:
  assumes "unat (wm_in_fligth_count s) = length cs" "cs \<noteq> []"
    and "distinct (map (unat \<circ> fst) cs)"
    and "\<And>g r. (g, r) \<in> set cs \<Longrightarrow> unat g < length (wm_fds s) \<and> wm_fds s ! unat g \<noteq> U32_MAX"
    and "slab_index (cur_idx rt) (rt_tasks rt) = Inr p" "rt_heap rt p = Some t"
  shows "\<exists>self' rt'. wm_feed cs (WM_Pending s) rt =
    Inr (self', Poll_Ready (wm_faileds s @ all_failures (wm_fds s) (wm_len s) cs), rt')"
  using assms
proof (induction cs arbitrary: s rt)
  case (Cons c cs)
  obtain g r where c: "c = (g, r)" by (cases c)
  let ?rt = "rt\<lparr>rt_current := (rt_current rt)\<lparr>ti_response_gen := g, ti_result := r\<rparr>\<rparr>"
  have g: "unat g < length (wm_fds s)" "wm_fds s ! unat g \<noteq> U32_MAX" using Cons.prems(4) c by auto
  have cur: "ti_response_gen (rt_current ?rt) = g" "ti_result (rt_current ?rt) = r"
    "slab_index (cur_idx ?rt) (rt_tasks ?rt) = Inr p" "rt_heap ?rt p = Some t" using Cons.prems(5,6) by simp_all
  show ?case
  proof (cases "cs = []")
    case True
    then have "wm_in_fligth_count s = 1" using Cons.prems(1) by (simp add: word_unat_eq_iff)
    from wm_poll_last [OF g this cur] True c show ?thesis
      by (auto simp: all_failures_def)
  next
    case False
    then have more: "wm_in_fligth_count s \<noteq> 0" "wm_in_fligth_count s \<noteq> 1"
      using Cons.prems(1) by auto
    let ?s = "s\<lparr>wm_in_fligth_count := wm_in_fligth_count s - 1, wm_fds := (wm_fds s)[unat g := U32_MAX],
      wm_faileds := wm_faileds s @ write_failures (wm_fds s ! unat g) (wm_len s) r\<rparr>"
    have other: "unat g' \<noteq> unat g" if "(g', r') \<in> set cs" for g' r'
      using Cons.prems(3) c that by force
    have "all_failures (wm_fds ?s) (wm_len s) cs = all_failures (wm_fds s) (wm_len s) cs"
      unfolding all_failures_def
      by (rule arg_cong [where f = concat], rule map_cong [OF refl]) (use other in \<open>fastforce simp: nth_list_update\<close>)
    moreover have "\<exists>self' rt'. wm_feed cs (WM_Pending ?s) ?rt =
        Inr (self', Poll_Ready (wm_faileds ?s @ all_failures (wm_fds ?s) (wm_len ?s) cs), rt')"
    proof (rule Cons.IH [OF _ False])
      show "unat (wm_in_fligth_count ?s) = length cs"
        using Cons.prems(1) more(1) by (simp add: unat_sub_one)
      show "unat g' < length (wm_fds ?s) \<and> wm_fds ?s ! unat g' \<noteq> U32_MAX" if "(g', r') \<in> set cs" for g' r'
        using Cons.prems(4) [of g' r'] that other [OF that] by simp
    qed (use Cons.prems(3) cur in simp_all)
    ultimately show ?thesis
      using wm_poll_step [OF g more cur(1,2)] c by (auto simp: all_failures_def)
  qed
qed simp

subsection \<open>Properties\<close>

text \<open>\<open>accept\<close> is one submission and one completion: the first poll stages one accept entry for the
  current task and is pending; a poll after a completion is ready with the fixed-file index, or with
  the negative result as the error, and submits nothing.\<close>

theorem accept_future:
  assumes "slab_index (cur_idx rt) (rt_tasks rt) = Inr p" "rt_heap rt p = Some t"
    "ref_counter t \<noteq> U16_MAX"
  shows "accept_poll (accept fd) rt =
      Inr (AF_Submited, Poll_Pending, submitted (Op_Accept fd) (current_udata rt) p t rt) \<and>
    accept_poll AF_Submited rt2 = Inr (AF_Submited, Poll_Ready (if neg (current_result rt2)
      then Inl (current_result rt2) else Inr (current_result rt2)), rt2)"
  using submit_exact [OF assms, of "Op_Accept fd" "current_udata rt"]
  by (simp add: accept_poll_def accept_def send_accept_def Let_def not_le)

theorem accept_future_witness:
  "accept_poll (accept 3) (sample_rt 2) = Inr (AF_Submited, Poll_Pending,
     submitted (Op_Accept 3) (current_udata (sample_rt 2)) 0x1000 (sample_task 2) (sample_rt 2))"
  using accept_future [OF sample_index, of 2 3 "sample_rt 2"] by (simp add: sample_task_def)

text \<open>C27. What a completed \<open>read\<close> yields: with a positive count and a buffer id of the pool, a buffer whose
  readable slice is that many bytes at the address of exactly that registered buffer; with a positive
  count and no id, a panic; otherwise the error, after giving any selected buffer back to the end of
  the ring the kernel reads.\<close>

theorem read_completion:
  assumes "ring_wf (unat (read_count (rt_buffer rt))) (rt_buf_ring rt)"
    "env_buffer_select E (current_cqe_flags rt) = sel"
    "\<And>b. sel = Some b \<Longrightarrow> ucast b < read_count (rt_buffer rt)"
  shows "if sint (current_result rt) \<le> 0
    then \<exists>rt'. read_poll E (RF_Pending fd) rt = Inr (RF_Pending fd, Poll_Ready (Inl (current_result rt)), rt')
      \<and> unseen rt rt' \<and> rt_buffer rt' = rt_buffer rt
      \<and> (case sel of None \<Rightarrow> rt' = rt
          | Some b \<Rightarrow> ring_tail (rt_buf_ring rt') = ring_tail (rt_buf_ring rt) + 1 \<and>
              ring_entry (unat (ring_tail (rt_buf_ring rt)) mod unat (read_count (rt_buffer rt)))
                (rt_buf_ring rt') = released_entry (ucast b) (rt_buffer rt))
    else case sel of
      None \<Rightarrow> read_poll E (RF_Pending fd) rt = Inl (Panic Missing_buf_id)
    | Some b \<Rightarrow> \<exists>buf. read_poll E (RF_Pending fd) rt = Inr (RF_Pending fd, Poll_Ready (Inr buf), rt)
        \<and> rw_read_slice buf = (buf_addr 1 (rt_buffer rt) (unat b), unat (current_result rt))
        \<and> rw_buf_idx buf = ucast b \<and> rw_fd_idx buf = fd \<and> \<not> rw_committed buf"
proof (cases sel)
  case None
  then show ?thesis using assms(2) by (simp add: read_poll_def Let_def)
next
  case (Some b)
  let ?pool = "rt_buffer rt" and ?n = "unat (read_count (rt_buffer rt))"
  have b: "ucast b < read_count ?pool" using assms(3) Some by blast
  from release_spec [OF assms(1) refl b] obtain m' where
    m': "release_buf_to_ring (ucast b) ?pool (rt_buf_ring rt) = Inr m'"
      "ring_tail m' = ring_tail (rt_buf_ring rt) + 1"
      "\<forall>k < ?n. ring_entry k m' = (if k = unat (ring_tail (rt_buf_ring rt)) mod ?n
         then released_entry (ucast b) ?pool else ring_entry k (rt_buf_ring rt))" by blast
  have "unat (ring_tail (rt_buf_ring rt)) mod ?n < ?n" using ring_wf_bounds(1) [OF assms(1)] by simp
  then have entry: "ring_entry (unat (ring_tail (rt_buf_ring rt)) mod ?n) m' = released_entry (ucast b) ?pool"
    using m'(3) by simp
  have "unat b < 2 ^ 32" using unat_u16_lt [of b] by simp
  then have "unat (ucast b :: u32) = unat b" by (simp add: unsigned_ucast_eq take_bit_nat_eq_self)
  then show ?thesis
    using assms(2) Some m'(1,2) entry b
    by (simp add: read_poll_def Let_def release_read_buf_def unseen_def checkout_read_def rw_read_slice_def
        del: One_nat_def)
qed

theorem read_completion_witness:
  "\<exists>buf. read_poll sample_env (RF_Pending 3)
       ((sample_rt 2)\<lparr>rt_current := \<lparr>ti_tag = Tag_new 0, ti_result = 5, ti_flags = 1, ti_response_gen = 0\<rparr>\<rparr>) =
     Inr (RF_Pending 3, Poll_Ready (Inr buf),
       (sample_rt 2)\<lparr>rt_current := \<lparr>ti_tag = Tag_new 0, ti_result = 5, ti_flags = 1, ti_response_gen = 0\<rparr>\<rparr>)
     \<and> rw_read_slice buf = (0x10000, 5)"
proof -
  let ?rt = "(sample_rt 2)\<lparr>rt_current := \<lparr>ti_tag = Tag_new 0, ti_result = 5, ti_flags = 1, ti_response_gen = 0\<rparr>\<rparr>"
  have wf: "ring_wf (unat (read_count (rt_buffer ?rt))) (rt_buf_ring ?rt)"
    by (auto simp: sample_rt_def ring_wf_def intro: exI [of _ 0])
  have sel: "env_buffer_select sample_env (current_cqe_flags ?rt) = Some 0"
    by (simp add: sample_env_def current_cqe_flags_def)
  from read_completion [OF wf sel, of 3] show ?thesis
    by (auto simp: current_result_def sample_rt_def buf_addr_def)
qed

text \<open>An accept stream yields every connection once and then ends: fed with completions that announce
  more, then one that does not, it yields all their indices in order, and from then on it is ended
  whatever context it is polled in. A negative result ends it at once.\<close>

theorem accept_stream_items:
  assumes "as_state self = SS_Running"
    "list_all (\<lambda>i. \<not> neg (ti_result i) \<and> env_more E (ti_flags i)) infos"
    "neg (ti_result fin) \<or> \<not> env_more E (ti_flags fin)"
  shows "\<exists>self' i. stream_feed (accept_poll_next E) (infos @ fin # later) self rt =
    Inr (map (\<lambda>i. Poll_Ready (Some (ti_result i))) infos @
         Poll_Ready (if neg (ti_result fin) then None else Some (ti_result fin)) #
         replicate (length later) (Poll_Ready None), self', rt\<lparr>rt_current := i\<rparr>) \<and> as_state self' = SS_Done"
  using assms accept_stream.feed_items [where s = self and infos = infos and E = E and rt = rt and fin = fin and later = later] by (simp add: list_all_iff)

theorem accept_stream_items_witness:
  "\<exists>self' i. stream_feed (accept_poll_next sample_env)
      [\<lparr>ti_tag = Tag_new 0, ti_result = 4, ti_flags = 2, ti_response_gen = 0\<rparr>,
       \<lparr>ti_tag = Tag_new 0, ti_result = 6, ti_flags = 0, ti_response_gen = 0\<rparr>]
      \<lparr>as_listen_fd = 3, as_state = SS_Running\<rparr> (sample_rt 2) =
    Inr ([Poll_Ready (Some 4), Poll_Ready (Some 6)], self', (sample_rt 2)\<lparr>rt_current := i\<rparr>) \<and> as_state self' = SS_Done"
  using accept_stream_items [of "\<lparr>as_listen_fd = 3, as_state = SS_Running\<rparr>" sample_env
      "[\<lparr>ti_tag = Tag_new 0, ti_result = 4, ti_flags = 2, ti_response_gen = 0\<rparr>]"
      "\<lparr>ti_tag = Tag_new 0, ti_result = 6, ti_flags = 0, ti_response_gen = 0\<rparr>" "[]" "sample_rt 2"]
  by (simp add: sample_env_def bit_iff_odd)

text \<open>C28. What a read stream yields when it is polled once per completion, every completion carries a
  buffer of the pool and a non-negative result, and all but the last announce more: for each completion,
  in order, a buffer whose readable slice is the received bytes in exactly the registered buffer the
  kernel chose, and from then on, whatever context it is polled in, that it has ended. The runtime's
  books, buffers and ring are not touched. (Completions without a buffer panic, and repeated polls for
  one completion repeat its item: these are other theorems.)\<close>

theorem read_stream_items:
  assumes "rs_state self = SS_Running"
    "list_all (\<lambda>i. \<not> neg (ti_result i) \<and> env_more E (ti_flags i)) infos"
    "\<not> neg (ti_result fin) \<and> \<not> env_more E (ti_flags fin)"
    "\<forall>i \<in> set (infos @ [fin]). \<exists>b. env_buffer_select E (ti_flags i) = Some b \<and> ucast b < read_count (rt_buffer rt)"
  shows "\<exists>bufs self' i. stream_feed (read_poll_next E) (infos @ fin # later) self rt =
      Inr (map (\<lambda>b. Poll_Ready (Some b)) bufs @ replicate (length later) (Poll_Ready None), self', rt\<lparr>rt_current := i\<rparr>)
    \<and> rs_state self' = SS_Done
    \<and> list_all2 (\<lambda>i buf. Some (rw_buf_idx buf) = map_option ucast (env_buffer_select E (ti_flags i))
        \<and> rw_read_slice buf = (buf_addr 1 (rt_buffer rt) (unat (rw_buf_idx buf)), unat (ti_result i))
        \<and> rw_fd_idx buf = rs_fd self \<and> \<not> rw_committed buf) (infos @ [fin]) bufs"
proof -
  let ?item = "\<lambda>i. read_item E self i (rt_buffer rt)"
  have item: "\<exists>buf. ?item i = Some buf \<and> Some (rw_buf_idx buf) = map_option ucast (env_buffer_select E (ti_flags i))
      \<and> rw_read_slice buf = (buf_addr 1 (rt_buffer rt) (unat (rw_buf_idx buf)), unat (ti_result i))
      \<and> rw_fd_idx buf = rs_fd self \<and> \<not> rw_committed buf" if i: "i \<in> set (infos @ [fin])" for i
  proof -
    obtain b where b: "env_buffer_select E (ti_flags i) = Some b" "ucast b < read_count (rt_buffer rt)"
      using assms(4) i by blast
    then show ?thesis by (simp add: read_item_def checkout_read_def rw_read_slice_def del: One_nat_def)
  qed
  have "\<forall>i \<in> set infos. \<not> neg (ti_result i) \<and> env_more E (ti_flags i) \<and> ?item i \<noteq> None"
    using assms(2) item by (auto simp: list_all_iff)
  moreover have "\<not> env_more E (ti_flags fin) \<and> ?item fin \<noteq> None" using assms(3) item by auto
  ultimately obtain self' i where feed: "stream_feed (read_poll_next E) (infos @ fin # later) self rt =
      Inr (map (\<lambda>i. Poll_Ready (?item i)) (infos @ [fin]) @ replicate (length later) (Poll_Ready None), self',
        rt\<lparr>rt_current := i\<rparr>)" "rs_state self' = SS_Done"
    using read_stream.feed_items [where s = self and infos = infos and E = E and rt = rt and fin = fin and later = later] assms(1,3) by auto
  have yields: "map (\<lambda>i. Poll_Ready (?item i)) (infos @ [fin]) =
      map (\<lambda>b. Poll_Ready (Some b)) (map (the \<circ> ?item) (infos @ [fin]))"
    using item by (fastforce simp: comp_def)
  show ?thesis unfolding feed(1) yields
    by (intro exI conjI, rule refl, rule feed(2), unfold list_all2_map2, rule list.rel_refl_strong)
      (use item in fastforce)
qed

theorem read_stream_items_witness:
  "\<exists>bufs self' i. stream_feed (read_poll_next sample_env)
      [\<lparr>ti_tag = Tag_new 0, ti_result = 5, ti_flags = 3, ti_response_gen = 0\<rparr>,
       \<lparr>ti_tag = Tag_new 0, ti_result = 6, ti_flags = 1, ti_response_gen = 0\<rparr>]
      \<lparr>rs_fd = 3, rs_state = SS_Running\<rparr> (sample_rt 2) =
    Inr (map (\<lambda>b. Poll_Ready (Some b)) bufs, self', (sample_rt 2)\<lparr>rt_current := i\<rparr>) \<and> rs_state self' = SS_Done"
  using read_stream_items [of "\<lparr>rs_fd = 3, rs_state = SS_Running\<rparr>" sample_env
      "[\<lparr>ti_tag = Tag_new 0, ti_result = 5, ti_flags = 3, ti_response_gen = 0\<rparr>]"
      "\<lparr>ti_tag = Tag_new 0, ti_result = 6, ti_flags = 1, ti_response_gen = 0\<rparr>" "sample_rt 2" "[]"]
  by (auto simp: sample_env_def sample_rt_def bit_iff_odd)

text \<open>C26. A fan-out future reports every write: fed with one completion per descriptor, in any order of
  their generations, it is ready exactly at the last one, with the failures of all of them in order of
  arrival (a negative result, or a count other than the length, of the descriptor of that generation).\<close>

theorem write_multiple_reports_all:
  assumes "unat (wm_in_fligth_count s) = length cs" "cs \<noteq> []" "distinct (map (unat \<circ> fst) cs)"
    "list_all (\<lambda>(g, r). unat g < length (wm_fds s) \<and> wm_fds s ! unat g \<noteq> U32_MAX) cs"
    "slab_index (cur_idx rt) (rt_tasks rt) = Inr p" "rt_heap rt p = Some t" "wm_faileds s = []"
  shows "\<exists>self' rt'. wm_feed cs (WM_Pending s) rt =
    Inr (self', Poll_Ready (concat (map (\<lambda>(g, r).
      (if neg r then [Failed (wm_fds s ! unat g)] else []) @
      (if r \<noteq> wm_len s then [Partial (wm_fds s ! unat g) r] else [])) cs)), rt')"
proof -
  have "unat g < length (wm_fds s) \<and> wm_fds s ! unat g \<noteq> U32_MAX" if "(g, r) \<in> set cs" for g r
    using assms(4) that by (auto simp: list_all_iff)
  from wm_feed_all [OF assms(1-3) this assms(5,6)] assms(7) show ?thesis
    by (simp add: all_failures_def write_failures_def)
qed

theorem write_multiple_reports_all_witness:
  "\<exists>self' rt'. wm_feed [(1, 4), (0, 2)] (WM_Pending \<lparr>wm_in_fligth_count = 2, wm_fds = [7, 8],
       wm_faileds = [], wm_len = 4, wm_buffer = \<lparr>w_ptr = 0x11000, w_abs_idx = 1\<rparr>\<rparr>) (sample_rt 2) =
     Inr (self', Poll_Ready [Partial 7 2], rt')"
  using write_multiple_reports_all [of "\<lparr>wm_in_fligth_count = 2, wm_fds = [7, 8], wm_faileds = [],
      wm_len = 4, wm_buffer = \<lparr>w_ptr = 0x11000, w_abs_idx = 1\<rparr>\<rparr>" "[(1, 4), (0, 2)]", OF _ _ _ _ sample_index]
  by simp

text \<open>The socket address of \<open>connect\<close> in memory: the bytes of the address field are the four bytes of the
  IP in order, and the bytes of the port field are the port most significant byte first.\<close>

theorem connect_network_order:
  "\<exists>adr. connect (a, b, c, d) port = SF_CreateSocket adr \<and> sin_family adr = 2 \<and>
     bytes_of 4 (ucast (s_addr adr)) = [a, b, c, d] \<and>
     bytes_of 2 (ucast (sin_port adr)) = [ucast (drop_bit 8 port), ucast port]"
proof -
  let ?ip = "ucast (from_ne_bytes (a, b, c, d)) :: u64" and ?port = "ucast (to_be port) :: u64"
  have "ucast ?ip = a" "ucast (drop_bit 8 ?ip) = b" "ucast (drop_bit 16 ?ip) = c"
    "ucast (drop_bit 24 ?ip) = d"
    by (rule bit_word_eqI, auto simp: from_ne_bytes_def bit_simps dest: bit_imp_le_length)+
  moreover have "ucast ?port = (ucast (drop_bit 8 port) :: u8)" "ucast (drop_bit 8 ?port) = (ucast port :: u8)"
    by (rule bit_word_eqI, auto simp: to_be_def bit_simps dest: bit_imp_le_length)+
  moreover have "[0..<4] = [0, 1, 2, 3::nat]" "[0..<2] = [0, 1::nat]" by (simp_all add: upt_conv_Cons)
  ultimately have "bytes_of 4 ?ip = [a, b, c, d]" "bytes_of 2 ?port = [ucast (drop_bit 8 port), ucast port]"
    by (simp_all add: bytes_of_def)
  then show ?thesis by (simp add: connect_def)
qed

end
