(* ===== verification/Event_Loop.thy ===== *)
theory Event_Loop
  imports Task_Accounting
begin

text \<open>
  Dispatching completions and running the event loop of \<open>src/src/runtime.rs\<close> under the accounting
  invariant. The functions that poll and drop a future are parameters of the locale
  \<open>task_client\<close>; a kernel is legal when every completion it posts belongs to an entry in flight.
  Inside the locale: one completion, one batch, one iteration and the whole loop are free of
  undefined behaviour, the loop never waits with nothing in flight, and when it returns every task
  has been freed.
\<close>

lemma no_ub_Inl_iff: "no_ub (Inl e) \<longleftrightarrow> (\<exists>p. e = Panic p)"
  by (cases e) (simp_all add: no_ub_def)

subsection \<open>Draining the free list\<close>

lemma acct_removed:
  assumes acct: "acct ok T rt" and s: "slab_inv (rt_tasks rt')"
    "slab_lookup (rt_tasks rt') = slab_lookup (rt_tasks rt) |` (- set (rt_free_list rt))"
    and rt': "rt_heap rt' = rt_heap rt" "rt_free_list rt' = []"
  shows "acct ok T rt'"
proof -
  have "live rt' = live rt"
    using s(2) rt'(2) by (auto simp: live_def fun_eq_iff restrict_map_def)
  then show ?thesis
    using s(1) rt' acctD [OF acct] unfolding acct_def by auto
qed

lemma free_unsed_slab_slot_spec:
  assumes inv: "rt_inv ok K H rt"
  shows "\<exists>s. free_unsed_slab_slot rt = Inr (rt\<lparr>rt_tasks := s, rt_free_list := []\<rparr>)
    \<and> rt_inv ok K H (rt\<lparr>rt_tasks := s, rt_free_list := []\<rparr>)
    \<and> slab_lookup s = slab_lookup (rt_tasks rt) |` (- set (rt_free_list rt))"
proof -
  have acct: "acct ok (tokens K H rt) rt" using inv by (simp add: rt_inv_def)
  from slab.remove_all [OF acctD(1,2,3) [OF acct]] obtain s where
    s: "fold_res remove_dropped_task (rt_free_list rt) (rt_tasks rt) = Inr s" "slab_inv s"
      "slab_lookup s = slab_lookup (rt_tasks rt) |` (- set (rt_free_list rt))" by blast
  have "acct ok (tokens K H rt) (rt\<lparr>rt_tasks := s, rt_free_list := []\<rparr>)"
    by (rule acct_removed [OF acct]) (use s in simp_all)
  then have "rt_inv ok K H (rt\<lparr>rt_tasks := s, rt_free_list := []\<rparr>)" by (simp add: rt_inv_def tokens_def)
  with s show ?thesis by (auto simp: free_unsed_slab_slot_def)
qed

subsection \<open>The state of an idle runtime\<close>

text \<open>Every occupied slot of a runtime whose free list is drained is referenced by a token.\<close>

lemma occupied_has_token:
  assumes "rt_inv ok K H rt" "rt_free_list rt = []" "slab_lookup (rt_tasks rt) i = Some p"
  shows "i \<in># tokens K H rt"
proof -
  have "live rt i p" using assms(2,3) by (simp add: live_def)
  with assms(1) acctD(4) [of ok "tokens K H rt" rt i p] show ?thesis
    by (auto simp: rt_inv_def header_ok_def)
qed

lemma is_runtime_free_iff:
  assumes "rt_inv ok K H rt"
  shows "is_runtime_free rt \<longleftrightarrow> slab_lookup (rt_tasks rt) = Map.empty"
  using slab.count_zero_iff [of "rt_tasks rt"] assms acctD(1)
  by (auto simp: is_runtime_free_def rt_inv_def unat_eq_0_iff)

text \<open>A runtime at rest: accounted for with nothing in flight, no header allocated, no slot occupied,
  nothing staged and nothing to wake.\<close>

definition idle :: "('f \<Rightarrow> bool) \<Rightarrow> 'f runtime \<Rightarrow> bool" where
  "idle ok rt \<longleftrightarrow> rt_inv ok [] {#} rt \<and> rt_heap rt = Map.empty
     \<and> slab_lookup (rt_tasks rt) = Map.empty \<and> rt_pending rt = [] \<and> rt_wake_list rt = []"

lemma runtime_free_idle:
  assumes inv: "rt_inv ok K {#} rt" and free: "is_runtime_free rt" and wake: "rt_wake_list rt = []"
  shows "K = [] \<and> idle ok rt"
proof -
  have acct: "acct ok (tokens K {#} rt) rt" using inv by (simp add: rt_inv_def)
  have look: "slab_lookup (rt_tasks rt) = Map.empty" using is_runtime_free_iff [OF inv] free by simp
  then have nolive: "\<not> live rt i p" for i p by (simp add: live_def)
  have "tokens K {#} rt = {#}" using acctD(6) [OF acct] nolive by (metis multiset_nonemptyE)
  then have "rt_pending rt = []" "K = []" by (simp_all add: tokens_def)
  moreover have "rt_heap rt p = None" for p
    using acctD(5) [OF acct, of p] nolive by (cases "rt_heap rt p") auto
  ultimately show ?thesis using look inv wake by (auto simp: idle_def)
qed

lemma busy_has_work:
  assumes inv: "rt_inv ok K {#} rt" and fl: "rt_free_list rt = []" and busy: "\<not> is_runtime_free rt"
  shows "K \<noteq> [] \<or> rt_pending rt \<noteq> []"
proof -
  from busy is_runtime_free_iff [OF inv] obtain i p where "slab_lookup (rt_tasks rt) i = Some p"
    by fastforce
  from occupied_has_token [OF inv fl this] show ?thesis by (auto simp: tokens_def)
qed

subsection \<open>Cloning a task out of the slab\<close>

lemma clone_task_at_spec:
  assumes inv: "rt_inv ok K H rt" and i: "i \<in># tokens K H rt"
  shows "no_ub (clone_task_at i rt)"
    and "clone_task_at i rt = Inr (p, rt') \<Longrightarrow> rt_inv ok K (add_mset i H) rt' \<and> live rt' i p
      \<and> (\<exists>h. rt' = rt\<lparr>rt_heap := h\<rparr>)"
proof -
  have acct: "acct ok (tokens K H rt) rt" using inv by (simp add: rt_inv_def)
  from acct i obtain q t where q: "live rt i q" "rt_heap rt q = Some t" by (rule acct_liveE)
  have eq: "clone_task_at i rt = and_then (with_task i inc_rc rt) (\<lambda>rt'. Inr (q, rt'))"
    using live_index [OF acct q(1)] q(2) by (cases "inc_rc t")
      (auto simp: clone_task_at_def with_task_def task_clone_def task_update_def task_deref_def)
  show "no_ub (clone_task_at i rt)"
    unfolding eq using with_task_no_ub [OF acct i] by (auto intro: no_ub_and_then)
  assume "clone_task_at i rt = Inr (p, rt')"
  then have w: "with_task i inc_rc rt = Inr rt'" and p: "p = q" by (auto simp: eq res_simps)
  from with_task_add [OF acct i w inc_rc_adds] obtain h where
    h: "acct ok (tokens K H rt + replicate_mset 1 i) rt'" "rt' = rt\<lparr>rt_heap := h\<rparr>" by blast
  then have "rt_inv ok K (add_mset i H) rt'" by (simp add: rt_inv_def tokens_add_handle)
  moreover have "live rt' i q" using q(1) h(2) by (simp add: live_def)
  ultimately show "rt_inv ok K (add_mset i H) rt' \<and> live rt' i p \<and> (\<exists>h. rt' = rt\<lparr>rt_heap := h\<rparr>)"
    using h(2) p by blast
qed

subsection \<open>Legal kernels\<close>

text \<open>A batch of completions is legal for the entries in flight when each completion belongs to an
  entry that is still in flight at its turn.\<close>

primrec legal_batch :: "'f env \<Rightarrow> cqe list \<Rightarrow> u64 list \<Rightarrow> bool" where
  "legal_batch E [] K \<longleftrightarrow> True"
| "legal_batch E (c # cs) K \<longleftrightarrow> cqe_user_data c \<in> set K \<and> legal_batch E cs (complete_one E c K)"

definition legal_kernel :: "'f env \<Rightarrow> (nat \<Rightarrow> u64 list \<Rightarrow> kernel_turn) \<Rightarrow> bool" where
  "legal_kernel E kern \<longleftrightarrow> (\<forall>n K cs. kern n K = Completions cs \<longrightarrow> legal_batch E cs K)"

text \<open>\<open>submit_and_wait (1)\<close>: with something in flight the kernel posts at least one completion.\<close>

definition waiting_kernel :: "(nat \<Rightarrow> u64 list \<Rightarrow> kernel_turn) \<Rightarrow> bool" where
  "waiting_kernel kern \<longleftrightarrow> (\<forall>n K. K \<noteq> [] \<longrightarrow> kern n K \<noteq> Completions [])"

lemma udata_idx_entry [simp]: "tag_task_idx (ti_tag (TaskInfo_from_entry c)) = udata_idx (cqe_user_data c)"
  by (simp add: TaskInfo_from_entry_def udata_idx_def Let_def payload_from_entry_def)

text \<open>The state of the loop when it waits: accounted for, nothing to wake, nothing to free, and at
  least one task left.\<close>

definition waiting :: "('f \<Rightarrow> bool) \<Rightarrow> u64 list \<Rightarrow> 'f runtime \<Rightarrow> bool" where
  "waiting ok K rt \<longleftrightarrow> rt_inv ok K {#} rt \<and> rt_wake_list rt = [] \<and> rt_free_list rt = []
     \<and> \<not> is_runtime_free rt"

text \<open>The check that ends an iteration: free the queued slots, stop when no task is left.\<close>

lemma free_and_test:
  assumes "rt_inv ok K {#} rt" "rt_wake_list rt = []"
  shows "\<exists>rt'. free_unsed_slab_slot rt = Inr rt'
    \<and> (if is_runtime_free rt' then K = [] \<and> idle ok rt' else waiting ok K rt')"
  using free_unsed_slab_slot_spec [OF assms(1)] assms(2) runtime_free_idle [of ok K]
  by (auto simp: waiting_def)

lemma waiting_in_flight:
  assumes "waiting ok K rt" "rt_pending rt = []"
  shows "K \<noteq> []"
  using assms busy_has_work [of ok K rt] by (auto simp: waiting_def)

lemma free_waiting: "waiting ok K rt \<Longrightarrow> free_unsed_slab_slot rt = Inr rt"
  by (simp add: waiting_def free_unsed_slab_slot_def)

text \<open>Handing the staged entries to the kernel moves their tokens.\<close>

lemma submit_pending_spec:
  assumes "waiting ok K rt"
  shows "no_ub (submit_pending E rt)"
    and "submit_pending E rt = Inr (es, rt') \<Longrightarrow>
      waiting ok (K @ map sqe_user_data es) rt' \<and> rt_pending rt' = []"
proof -
  show "no_ub (submit_pending E rt)"
    by (simp add: submit_pending_def assert_or_def)
  assume "submit_pending E rt = Inr (es, rt')"
  then have es: "es = rt_pending rt" "rt' = rt\<lparr>rt_pending := []\<rparr>"
    by (auto simp: submit_pending_def assert_or_def split: if_splits)
  then have "tokens (K @ map sqe_user_data es) {#} rt' = tokens K {#} rt"
    by (simp add: tokens_def)
  then show "waiting ok (K @ map sqe_user_data es) rt' \<and> rt_pending rt' = []"
    using assms es by (simp add: waiting_def rt_inv_def is_runtime_free_def)
qed

text \<open>What is promised of an outcome: no undefined behaviour, no endless wake loop, nothing left behind
  by a run that returned, something to wait for in a run that has not.\<close>

primrec outcome_ok :: "('f \<Rightarrow> bool) \<Rightarrow> 'f outcome \<Rightarrow> bool" where
  "outcome_ok ok (Finished rt) \<longleftrightarrow> idle ok rt"
| "outcome_ok ok (Io_error e rt) \<longleftrightarrow> (\<exists>K. waiting ok K rt)"
| "outcome_ok ok (Running K rt) \<longleftrightarrow> waiting ok K rt"
| "outcome_ok ok (Faulted e) \<longleftrightarrow> (\<exists>p. e = Panic p)"
| "outcome_ok ok Diverged \<longleftrightarrow> False"

subsection \<open>The client interface\<close>

text \<open>What the event loop relies on: polling and dropping a future keep the accounting.\<close>

locale task_client =
  fixes E :: "'f env" and poll_fn :: "'f poll_fn" and drop_fn :: "'f drop_fn" and ok :: "'f \<Rightarrow> bool"
  assumes drop: "drop_ok drop_fn"
    and poll: "env_ok E \<Longrightarrow> ok f \<Longrightarrow> run_ok ok (poll_fn f)"
begin

lemma dispatch_spec:
  assumes env: "env_ok E" and inv: "rt_inv ok K H rt" and l: "live rt i p" and i: "i \<in># H"
    and info: "tag_task_idx (ti_tag info) = i"
  shows "no_ub (dispatch_cqe poll_fn p info rt) \<and> (\<forall>rt'. dispatch_cqe poll_fn p info rt = Inr rt' \<longrightarrow>
    rt_inv ok K H rt' \<and> live rt' i p \<and> rt_wake_list rt' = rt_wake_list rt)"
proof -
  have acct: "acct ok (tokens K H rt) rt" using inv by (simp add: rt_inv_def)
  from acctD(4) [OF acct l] obtain t where t: "rt_heap rt p = Some t"
    and hdr: "header_ok ok (tokens K H rt) i t" by blast
  have polled: "no_ub (and_then (task_poll poll_fn p rt1) (\<lambda>(_, rt). Inr rt)) \<and>
      (\<forall>rt'. and_then (task_poll poll_fn p rt1) (\<lambda>(_, rt). Inr rt) = Inr rt' \<longrightarrow>
        rt_inv ok K H rt' \<and> live rt' i p \<and> rt_wake_list rt' = rt_wake_list rt)"
    if "rt_inv ok K H rt1" "live rt1 i p" "cur_idx rt1 = i" "rt_wake_list rt1 = rt_wake_list rt" for rt1
  proof -
    have "cur_idx rt1 \<in># H" using that(3) i by simp
    note k = keeps_task_poll [OF poll [OF env] that(1) this that(2) i]
    from keepsD(1) [OF k] keepsD(2,3) [OF k] that i show ?thesis
      by (auto simp: res_simps stable_def intro!: no_ub_and_then)
  qed
  have aug: "rt_inv ok K H (rt\<lparr>rt_heap := (rt_heap rt)(p \<mapsto> t')\<rparr>)"
    if "augmente_syscall_nb t = Inr t'" for t'
  proof -
    have "header_ok ok (tokens K H rt) i t'"
      using hdr that by (auto simp: augmente_syscall_nb_eq header_ok_def)
    from acct_update [OF acct l this] show ?thesis by (simp add: rt_inv_def)
  qed
  show ?thesis
  proof (cases "evaluate_syscall_nb (tag_syscall_nb (ti_tag info)) t")
    case Error
    then show ?thesis using t by (simp add: dispatch_cqe_def task_deref_def)
  next
    case Expired
    then show ?thesis using t inv l by (simp add: dispatch_cqe_def task_deref_def)
  next
    case Multiple
    then show ?thesis using t inv l info polled [of "rt\<lparr>rt_current := info\<rparr>"]
      by (simp add: dispatch_cqe_def task_deref_def)
  next
    case Normal
    obtain t' where t': "augmente_syscall_nb t = Inr t'" by (auto simp: augmente_syscall_nb_eq)
    let ?info = "\<lambda>nb. info\<lparr>ti_tag := (ti_tag info)\<lparr>tag_syscall_nb := nb\<rparr>\<rparr>"
    let ?rt = "\<lambda>nb. rt\<lparr>rt_heap := (rt_heap rt)(p \<mapsto> t'), rt_current := ?info nb\<rparr>"
    have eq: "dispatch_cqe poll_fn p info rt = and_then (add_ovf (tag_syscall_nb (ti_tag info)) 1)
        (\<lambda>nb. and_then (task_poll poll_fn p (?rt nb)) (\<lambda>(_, rt). Inr rt))"
      using Normal t t' by (simp add: dispatch_cqe_def task_deref_def task_update_def)
    have "live (rt\<lparr>rt_heap := (rt_heap rt)(p \<mapsto> t')\<rparr>) i p" using l by (simp add: live_def)
    with polled [of "?rt nb" for nb] aug [OF t'] info show ?thesis
      unfolding eq by (cases "checked_add (tag_syscall_nb (ti_tag info)) 1") (simp_all add: add_ovf_def)
  qed
qed

text \<open>One completion: what it stands for leaves flight exactly when its more flag is clear.\<close>

lemma handle_cqe_spec:
  assumes env: "env_ok E" and inv: "rt_inv ok K H rt" and c: "cqe_user_data c \<in> set K"
  shows "no_ub (handle_cqe_entry E poll_fn drop_fn c rt) \<and>
    (\<forall>rt'. handle_cqe_entry E poll_fn drop_fn c rt = Inr rt' \<longrightarrow>
      rt_inv ok (complete_one E c K) H rt' \<and> rt_wake_list rt' = rt_wake_list rt)"
proof -
  let ?i = "udata_idx (cqe_user_data c)" and ?info = "TaskInfo_from_entry c"
  let ?fin = "\<lambda>p rt. and_then (if env_more E (cqe_flags c) then Inr rt else task_drop drop_fn p rt)
    (task_drop drop_fn p)"
  have i: "?i \<in># tokens K H rt" using c by (simp add: tokens_def)
  note clone = clone_task_at_spec [OF inv i]
  have final: "no_ub (?fin p rt2) \<and> (\<forall>x. ?fin p rt2 = Inr x \<longrightarrow>
      rt_inv ok (complete_one E c K) H x \<and> rt_wake_list x = rt_wake_list rt2)"
    if rt2: "rt_inv ok K (add_mset ?i H) rt2" "live rt2 ?i p" for p rt2
  proof (cases "env_more E (cqe_flags c)")
    case True
    with keepsD [OF drop_handle [OF drop rt2]] show ?thesis by (simp add: complete_one_def stable_def)
  next
    case False
    note d1 = drop_completion [OF drop rt2(1) c rt2(2)]
    have "no_ub (task_drop drop_fn p rt3) \<and> (\<forall>x. task_drop drop_fn p rt3 = Inr x \<longrightarrow>
        rt_inv ok (complete_one E c K) H x \<and> rt_wake_list x = rt_wake_list rt2)"
      if "task_drop drop_fn p rt2 = Inr rt3" for rt3
    proof -
      have rt3: "rt_inv ok (remove1 (cqe_user_data c) K) (add_mset ?i H) rt3"
        "stable (add_mset ?i H) rt2 rt3" using d1(2) [OF that] by auto
      then have "live rt3 ?i p" using rt2(2) by (simp add: stable_def)
      from keepsD [OF drop_handle [OF drop rt3(1) this]] False rt3(2)
      show ?thesis by (simp add: complete_one_def stable_def)
    qed
    then show ?thesis using False d1(1) by (cases "task_drop drop_fn p rt2") auto
  qed
  have main: "no_ub (and_then (dispatch_cqe poll_fn p ?info rt1) (?fin p)) \<and>
      (\<forall>x. and_then (dispatch_cqe poll_fn p ?info rt1) (?fin p) = Inr x \<longrightarrow>
        rt_inv ok (complete_one E c K) H x \<and> rt_wake_list x = rt_wake_list rt)"
    if "clone_task_at ?i rt = Inr (p, rt1)" for p rt1
  proof -
    have rt1: "rt_inv ok K (add_mset ?i H) rt1" "live rt1 ?i p" "rt_wake_list rt1 = rt_wake_list rt"
      using clone(2) [OF that] by auto
    have "?i \<in># add_mset ?i H" "tag_task_idx (ti_tag ?info) = ?i" by simp_all
    note disp = dispatch_spec [OF env rt1(1,2) this]
    show ?thesis
    proof (cases "dispatch_cqe poll_fn p ?info rt1")
      case (Inr rt2)
      with disp rt1(3) final [of rt2 p] show ?thesis by (simp split del: if_split)
    qed (use disp in simp)
  qed
  have "handle_cqe_entry E poll_fn drop_fn c rt = and_then (clone_task_at ?i rt)
      (\<lambda>(p, rt). and_then (dispatch_cqe poll_fn p ?info rt) (?fin p))"
    by (simp add: handle_cqe_entry_def)
  then show ?thesis using clone(1) main by (cases "clone_task_at ?i rt") (auto simp: no_ub_Inl_iff)
qed

lemma batch_spec:
  assumes env: "env_ok E" and "rt_inv ok K H rt" "legal_batch E cs K"
  shows "no_ub (fold_res (handle_cqe_entry E poll_fn drop_fn) cs rt) \<and>
    (\<forall>rt'. fold_res (handle_cqe_entry E poll_fn drop_fn) cs rt = Inr rt' \<longrightarrow>
      rt_inv ok (fold (complete_one E) cs K) H rt' \<and> rt_wake_list rt' = rt_wake_list rt)"
  using assms(2,3)
proof (induction cs arbitrary: K rt)
  case (Cons c cs)
  from Cons.prems have "cqe_user_data c \<in> set K" by simp
  from handle_cqe_spec [OF env Cons.prems(1) this] Cons.IH [of "complete_one E c K"] Cons.prems(2)
  show ?case by (cases "handle_cqe_entry E poll_fn drop_fn c rt") auto
qed simp

text \<open>Waking one task polls it once and gives back only the handle taken for the poll.\<close>

lemma wake_spec:
  assumes env: "env_ok E" and inv: "rt_inv ok K H rt" and i: "tag_task_idx (ti_tag awake) \<in># tokens K H rt"
  shows "no_ub (wake_one poll_fn drop_fn awake rt) \<and> (\<forall>rt'. wake_one poll_fn drop_fn awake rt = Inr rt' \<longrightarrow>
    rt_inv ok K H rt' \<and> rt_wake_list rt' = rt_wake_list rt)"
proof -
  let ?i = "tag_task_idx (ti_tag awake)" and ?rt = "rt\<lparr>rt_current := awake\<rparr>"
  have inv': "rt_inv ok K H ?rt" using inv by simp
  have i': "?i \<in># tokens K H ?rt" using i by (simp add: tokens_def)
  note clone = clone_task_at_spec [OF inv' i']
  have rest: "no_ub (and_then (task_poll poll_fn p rt1) (\<lambda>(_, rt). task_drop drop_fn p rt)) \<and>
      (\<forall>x. and_then (task_poll poll_fn p rt1) (\<lambda>(_, rt). task_drop drop_fn p rt) = Inr x \<longrightarrow>
        rt_inv ok K H x \<and> rt_wake_list x = rt_wake_list rt)"
    if c: "clone_task_at ?i ?rt = Inr (p, rt1)" for p rt1
  proof -
    have rt1: "rt_inv ok K (add_mset ?i H) rt1" "live rt1 ?i p" "cur_idx rt1 \<in># add_mset ?i H" "rt_wake_list rt1 = rt_wake_list rt"
      using clone(2) [OF c] by auto
    have "?i \<in># add_mset ?i H" by simp
    note k = keeps_task_poll [where poll = poll_fn, OF poll [OF env] rt1(1,3,2) this]
    show ?thesis
    proof (cases "task_poll poll_fn p rt1")
      case (Inr x)
      obtain b rt2 where x: "x = (b, rt2)" by (cases x)
      have rt2: "rt_inv ok K (add_mset ?i H) rt2" "live rt2 ?i p" "rt_wake_list rt2 = rt_wake_list rt"
        using keepsD(2,3) [OF k] Inr x rt1(2,4) by (auto simp: stable_def)
      from keepsD [OF drop_handle [OF drop rt2(1,2)]] rt2(3) Inr x show ?thesis by (auto simp: stable_def)
    qed (use keepsD(1) [OF k] in \<open>simp add: no_ub_Inl_iff\<close>)
  qed
  show ?thesis unfolding wake_one_def using clone(1) rest by (cases "clone_task_at ?i ?rt") (auto simp: no_ub_Inl_iff)
qed

lemma drain_idle: "rt_wake_list rt = [] \<Longrightarrow> drain_wake_list poll_fn drop_fn rt = Some (Inr rt)"
  by (simp add: drain_wake_list.simps)


lemma loop_body_spec:
  assumes env: "env_ok E" and w: "waiting ok K rt" and legal: "legal_batch E cs K"
  shows "\<exists>r. loop_body E poll_fn drop_fn cs rt = Some r \<and> no_ub r
    \<and> (\<forall>b rt'. r = Inr (b, rt') \<longrightarrow>
        (if b then fold (complete_one E) cs K = [] \<and> idle ok rt'
         else waiting ok (fold (complete_one E) cs K) rt'))"
proof -
  let ?K = "fold (complete_one E) cs K" and ?batch = "fold_res (handle_cqe_entry E poll_fn drop_fn) cs rt"
  have inv: "rt_inv ok K {#} rt" and wake: "rt_wake_list rt = []" and busy: "\<not> is_runtime_free rt"
    using w by (simp_all add: waiting_def)
  note batch = batch_spec [OF env inv legal]
  show ?thesis
  proof (cases "cs = [] \<or> (\<exists>e. ?batch = Inl e)")
    case True
    then show ?thesis using batch free_waiting [OF w] busy by (auto simp: loop_body_def no_ub_Inl_iff)
  next
    case False
    then obtain rt1 where rt1: "?batch = Inr rt1" by (cases ?batch) auto
    with batch wake have inv1: "rt_inv ok ?K {#} rt1" "rt_wake_list rt1 = []" by simp_all
    from free_and_test [OF this] obtain rt2 where rt2: "free_unsed_slab_slot rt1 = Inr rt2"
      "if is_runtime_free rt2 then ?K = [] \<and> idle ok rt2 else waiting ok ?K rt2" by blast
    have "loop_body E poll_fn drop_fn cs rt = Some (Inr (is_runtime_free rt2, rt2))"
      using False rt1 rt2(1) free_waiting [OF w] busy drain_idle [OF inv1(2)]
      by (simp add: loop_body_def)
    then show ?thesis using rt2(2) by auto
  qed
qed

lemma block_loop_spec:
  assumes env: "env_ok E" and legal: "legal_kernel E kern" and w: "waiting ok K rt"
  shows "outcome_ok ok (block_loop E poll_fn drop_fn kern n K rt)"
  using w
proof (induction n arbitrary: K rt)
  case (Suc n)
  note sub = submit_pending_spec [OF Suc.prems, of E]
  show ?case
  proof (cases "submit_pending E rt")
    case (Inr x)
    obtain es rt1 where x: "x = (es, rt1)" by (cases x)
    let ?K = "K @ map sqe_user_data es"
    have rt1: "waiting ok ?K rt1" using sub(2) Inr x by blast
    show ?thesis
    proof (cases "kern n ?K")
      case (Completions cs)
      then have "legal_batch E cs ?K" using legal by (auto simp: legal_kernel_def)
      from loop_body_spec [OF env rt1 this] obtain r where
        r: "loop_body E poll_fn drop_fn cs rt1 = Some r" "no_ub r"
          "\<And>b rt'. r = Inr (b, rt') \<Longrightarrow> (if b then fold (complete_one E) cs ?K = [] \<and> idle ok rt'
             else waiting ok (fold (complete_one E) cs ?K) rt')" by blast
      show ?thesis
      proof (cases r)
        case (Inl e)
        then show ?thesis using r(1,2) Inr x Completions by (simp add: no_ub_Inl_iff)
      next
        case r': (Inr y)
        obtain b rt2 where "y = (b, rt2)" by (cases y)
        then show ?thesis
          using r(1) r(3) [of b rt2] r' Inr x Completions Suc.IH by (cases b) auto
      qed
    qed (use Inr x rt1 in auto)
  qed (use sub(1) in \<open>simp add: no_ub_Inl_iff\<close>)
qed simp

text \<open>The loop asks the kernel only while something is in flight: two kernels that agree there give the
  same run.\<close>

lemma block_loop_in_flight:
  assumes env: "env_ok E" and legal: "legal_kernel E kern" and same: "\<And>n K. K \<noteq> [] \<Longrightarrow> kern' n K = kern n K"
    and w: "waiting ok K rt"
  shows "block_loop E poll_fn drop_fn kern' n K rt = block_loop E poll_fn drop_fn kern n K rt"
  using w
proof (induction n arbitrary: K rt)
  case (Suc n)
  show ?case
  proof (cases "submit_pending E rt")
    case (Inr x)
    obtain es rt1 where x: "x = (es, rt1)" by (cases x)
    let ?K = "K @ map sqe_user_data es"
    have rt1: "waiting ok ?K rt1" "rt_pending rt1 = []"
      using submit_pending_spec(2) [OF Suc.prems, of E] Inr x by blast+
    then have k: "kern' n ?K = kern n ?K" by (intro same waiting_in_flight)
    show ?thesis
    proof (cases "kern n ?K")
      case (Completions cs)
      then have "legal_batch E cs ?K" using legal by (auto simp: legal_kernel_def)
      from loop_body_spec [OF env rt1(1) this] Suc.IH show ?thesis
        using Inr x k Completions by (auto split: sum.split bool.split)
    qed (use Inr x k in simp)
  qed simp
qed simp

lemma spawned:
  assumes env: "env_ok E" and st: "idle ok rt" "ok fut"
  shows "(\<exists>e. and_then (spawn E poll_fn drop_fn fut rt) free_unsed_slab_slot = Inl (Panic e)) \<or>
    (\<exists>rt'. and_then (spawn E poll_fn drop_fn fut rt) free_unsed_slab_slot = Inr rt'
      \<and> (if is_runtime_free rt' then idle ok rt' else waiting ok [] rt'))"
proof -
  have inv: "rt_inv ok [] {#} rt" using st(1) by (simp add: idle_def)
  note k = keeps_spawn [where poll = poll_fn, OF env drop st(2) poll [OF env st(2)] inv]
  show ?thesis
  proof (cases "spawn E poll_fn drop_fn fut rt")
    case (Inr rt1)
    then have "rt_inv ok [] {#} rt1" "rt_wake_list rt1 = []"
      using keepsD(2,3) [OF k Inr] st(1) by (simp_all add: stable_def idle_def)
    from free_and_test [OF this] Inr show ?thesis by auto
  qed (use keepsD(1) [OF k] in \<open>simp add: no_ub_Inl_iff\<close>)
qed

lemma block_on_spec:
  assumes env: "env_ok E" and legal: "legal_kernel E kern"
    and st: "idle ok rt" "ok fut"
  shows "outcome_ok ok (block_on E poll_fn drop_fn kern n fut rt)"
  using spawned [OF env st] block_loop_spec [OF env legal] by (auto simp: block_on_def)

lemma block_on_in_flight:
  assumes env: "env_ok E" and legal: "legal_kernel E kern"
    and same: "\<And>n K. K \<noteq> [] \<Longrightarrow> kern' n K = kern n K"
    and st: "idle ok rt" "ok fut"
  shows "block_on E poll_fn drop_fn kern' n fut rt = block_on E poll_fn drop_fn kern n fut rt"
  using spawned [OF env st] block_loop_in_flight [OF env legal same] by (auto simp: block_on_def)

end

subsection \<open>The initial runtime\<close>

lemma Runtime_new_idle:
  assumes "Runtime_new su entries conns = Inr (Inr rt)"
  shows "idle ok rt"
proof -
  from assms obtain s where tasks: "with_capacity (su_slab su) 16 = Inr (rt_tasks rt)"
    and rt: "rt_heap rt = Map.empty" "rt_free_list rt = []" "rt_pending rt = []" "rt_wake_list rt = []"
    by (auto simp: Runtime_new_def try_io_def Let_def res_simps split: option.splits)
  have s: "slab_inv (rt_tasks rt)" "slab_lookup (rt_tasks rt) = Map.empty"
    using with_capacity_inv [of 16 "su_slab su"] tasks
    by (auto simp: with_capacity_def assert_or_def res_simps split: if_splits)
  then show ?thesis
    using rt by (simp add: idle_def rt_inv_def acct_def tokens_def live_def)
qed

text \<open>The pool \<open>Runtime::new\<close> builds, and the ring it fills.\<close>

lemma pool_512_oom: "BufPool_new 1 None 512 512 = Inl (Panic Pool_oom)"
  by (simp add: BufPool_new_def add_ovf_def checked_add_def BUF_SIZE_def PAGE_SIZE_def round_up_def)

lemma pool_512:
  "\<exists>p. BufPool_new 1 (Some base) 512 512 = Inr p \<and> pool_owns {#} p \<and> read_count p = 512 \<and>
    length (write_free p) = 512 \<and> length (build_iovecs 1 p) = 1024 \<and> ring_wf 512 (buf_ring_new 1 p) \<and>
    ring_queue 512 0 (buf_ring_new 1 p) = map (\<lambda>k. (buf_addr 1 p k, 4096, of_nat k)) [0..<512]"
proof -
  obtain p where pool: "BufPool_new 1 (Some base) 512 512 = Inr p" "pool_owns {#} p"
    and p: "read_count p = 512" "length (write_free p) = 512" "length (write_rc p) = 512"
    using BufPool_new_eq [of 512 512 1 base] fresh_pool_owns [of 512 512]
    by (simp add: BUF_SIZE_def PAGE_SIZE_def round_up_def del: upt_rec_numeral)
  have pow: "\<exists>e \<le> 15. 512 = (2::nat) ^ e" by (intro exI [of _ 9]) simp
  have "unat (of_nat k :: u32) = k \<and> (ucast (of_nat k :: u32) :: u16) = of_nat k" if "k < 512" for k
    using that by (simp add: unsigned_of_nat take_bit_nat_eq_self)
  then have "ring_queue 512 0 (buf_ring_new 1 p) = map (\<lambda>k. (buf_addr 1 p k, 4096, of_nat k)) [0..<512]"
    using buf_ring_new_queue(1) [of 512 p] pow p(1) by (simp add: released_entry_def del: upt_rec_numeral)
  moreover have "ring_wf 512 (buf_ring_new 1 p)" using buf_ring_new_spec(1) [of 512 p] pow p(1) by simp
  moreover have "length (build_iovecs 1 p) = 1024" using p by (simp add: build_iovecs_def)
  ultimately show ?thesis using pool p by blast
qed

lemma with_capacity_16: "with_capacity f 16 = Inl e \<Longrightarrow> \<not> f 16 \<and> e = Panic Slab_alloc_failed"
  by (auto simp: with_capacity_def assert_or_def split: if_splits)

subsection \<open>Completions that are not delivered\<close>

lemma clone_task_at_exact:
  assumes "slab_index i (rt_tasks rt) = Inr p" "rt_heap rt p = Some t" "ref_counter t \<noteq> U16_MAX"
  shows "clone_task_at i rt =
    Inr (p, rt\<lparr>rt_heap := (rt_heap rt)(p \<mapsto> t\<lparr>ref_counter := ref_counter t + 1\<rparr>)\<rparr>)"
  using assms by (simp add: clone_task_at_def task_clone_def task_update_def task_deref_def inc_rc_eq)

text \<open>The handle a dispatch takes and gives back leaves no trace.\<close>

lemma drop_cloned:
  assumes t: "rt_heap rt p = Some t" and rc: "ref_counter t \<noteq> 0" "ref_counter t \<noteq> U16_MAX"
  shows "task_drop d p (rt\<lparr>rt_heap := (rt_heap rt)(p \<mapsto> t\<lparr>ref_counter := ref_counter t + 1\<rparr>)\<rparr>) = Inr rt"
proof -
  have "ref_counter t + 1 \<noteq> 0"
  proof
    assume "ref_counter t + 1 = 0"
    then have "ref_counter t = - 1" by (simp add: eq_neg_iff_add_eq_0)
    then show False using rc(2) by simp
  qed
  then have sub: "sub_ovf (ref_counter t + 1) 1 = Inr (ref_counter t)"
    by (simp add: sub_ovf_def word_le_nat_alt unat_eq_0_iff [symmetric] Suc_le_eq)
  have "(rt_heap rt)(p \<mapsto> t) = rt_heap rt" using t by (simp add: fun_upd_idem)
  then show ?thesis using sub rc(1) by (simp add: task_drop_def task_release_def task_deref_def Let_def)
qed

lemma undelivered:
  assumes "slab_index (udata_idx (cqe_user_data c)) (rt_tasks rt) = Inr p" "rt_heap rt p = Some t"
    "ref_counter t \<noteq> 0" "ref_counter t \<noteq> U16_MAX"
    "nb = up_syscall_nb (from_user_data (cqe_user_data c))"
  shows "(evaluate_syscall_nb nb t = Expired \<longrightarrow>
      handle_cqe_entry E poll_fn drop_fn c rt =
        (if env_more E (cqe_flags c) then Inr rt else task_drop drop_fn p rt)) \<and>
    (evaluate_syscall_nb nb t = Error \<longrightarrow>
      handle_cqe_entry E poll_fn drop_fn c rt = Inl (Panic Newer_cqe))"
proof -
  let ?rt = "rt\<lparr>rt_heap := (rt_heap rt)(p \<mapsto> t\<lparr>ref_counter := ref_counter t + 1\<rparr>)\<rparr>"
  have nb: "tag_syscall_nb (ti_tag (TaskInfo_from_entry c)) = nb"
    by (simp add: assms(5) TaskInfo_from_entry_def payload_from_entry_def Let_def)
  have ev: "evaluate_syscall_nb nb (t\<lparr>ref_counter := ref_counter t + 1\<rparr>) = evaluate_syscall_nb nb t"
    by (simp add: evaluate_syscall_nb_def)
  note clone = clone_task_at_exact [OF assms(1,2,4)] and gone = drop_cloned [OF assms(2-4), of drop_fn]
  have step: "handle_cqe_entry E poll_fn drop_fn c rt =
      and_then (dispatch_cqe poll_fn p (TaskInfo_from_entry c) ?rt) (\<lambda>rt.
      and_then (if env_more E (cqe_flags c) then Inr rt else task_drop drop_fn p rt) (task_drop drop_fn p))"
    by (simp add: handle_cqe_entry_def clone)
  show ?thesis
    unfolding step by (auto simp: dispatch_cqe_def task_deref_def nb ev gone Let_def)
qed

subsection \<open>Properties\<close>

text \<open>C19. Completions that are not the task's current one are never delivered: an expired completion polls
  nothing and only gives back the reference its entry held (none while more completions follow); one
  with a newer number, or with the wrong multiple flag, panics before anything is polled. The README
  says otherwise: that every mismatch is silently ignored and gives back a reference.\<close>

theorem stale_completion_not_delivered:
  assumes "slab_index (udata_idx (cqe_user_data c)) (rt_tasks rt) = Inr p" "rt_heap rt p = Some t"
    "ref_counter t \<noteq> 0" "ref_counter t \<noteq> U16_MAX"
    "nb = up_syscall_nb (from_user_data (cqe_user_data c))"
  shows "(evaluate_syscall_nb nb t = Expired \<longrightarrow>
      handle_cqe_entry E poll_fn drop_fn c rt =
        (if env_more E (cqe_flags c) then Inr rt else task_drop drop_fn p rt)) \<and>
    (evaluate_syscall_nb nb t = Error \<longrightarrow>
      handle_cqe_entry E poll_fn drop_fn c rt = Inl (Panic Newer_cqe))"
  using undelivered [OF assms] by blast

theorem stale_completion_not_delivered_witness:
  "handle_cqe_entry sample_env (\<lambda>_ _. Inl (Panic Client_panic)) (\<lambda>_. Inr)
     \<lparr>cqe_user_data = into_user_data \<lparr>up_task_idx = 0, up_response_gen = 0, up_syscall_nb = 5\<rparr>,
      cqe_result = 0, cqe_flags = 0\<rparr> (sample_rt 2) = Inl (Panic Newer_cqe)"
proof -
  let ?c = "\<lparr>cqe_user_data = into_user_data \<lparr>up_task_idx = 0, up_response_gen = 0, up_syscall_nb = 5\<rparr>,
    cqe_result = 0, cqe_flags = 0\<rparr>"
  have "slab_index (udata_idx (cqe_user_data ?c)) (rt_tasks (sample_rt 2)) = Inr 0x1000"
    using sample_index(1) [of 2] by (simp add: udata_idx_into sample_rt_def initial_poll_def Tag_new_def)
  from stale_completion_not_delivered [OF this sample_index(2) _ _ refl] show ?thesis
    by (simp add: from_into_user_data sample_task_def evaluate_syscall_nb_eq rank_def is_multiple_iff)
qed

text \<open>C32. A commit write of a task in single-shot mode cannot complete: its entry carries the multiple flag,
  the task's number does not, so the completion of that very entry makes the runtime panic with the
  message for a completion that is newer than expected, and the awaiting future is never resumed.\<close>

theorem commit_completion_rejected:
  assumes "slab_index (cur_idx rt) (rt_tasks rt) = Inr p" "rt_heap rt p = Some t"
    "unat (ref_counter t) < 65534"
    "tag_syscall_nb (ti_tag (rt_current rt)) = syscall_nb t" "\<not> is_multiple (syscall_nb t)"
    "send_commit_write ptr fd len b rt = Inr rt'"
    "cqe_user_data c = sqe_user_data (last (rt_pending rt'))"
  shows "handle_cqe_entry E poll_fn drop_fn c (rt'\<lparr>rt_pending := []\<rparr>) = Inl (Panic Newer_cqe)"
proof -
  let ?m = "set_current_task_multiple True rt" and ?t = "t\<lparr>ref_counter := ref_counter t + 1\<rparr>"
  have rc: "ref_counter t \<noteq> U16_MAX" using assms(3) by auto
  have u: "unat (ref_counter t + 1) = unat (ref_counter t) + 1"
    using assms(3) by (intro unat_add_one_of_lt) simp
  have m: "slab_index (cur_idx ?m) (rt_tasks ?m) = Inr p" "rt_heap ?m p = Some t"
    using assms(1,2) unseen_current_multiple [of rt True] by (simp_all add: unseen_def)
  from assms(6) have rt': "rt' = submitted (Op_WriteFixed fd ptr len b) (current_udata ?m) p t ?m"
    using submit_exact [OF m rc] by (simp add: send_commit_write_def Let_def)
  have c: "cqe_user_data c = current_udata ?m" using assms(7) by (simp add: rt' submitted_def)
  have nb: "up_syscall_nb (from_user_data (cqe_user_data c)) = syscall_nb t OR 0x8000"
    using assms(4) by (simp add: c current_udata_def from_into_user_data TaskInfo_into_payload_def
        set_current_task_multiple_def Let_def)
  have "evaluate_syscall_nb (syscall_nb t OR 0x8000) ?t = Error"
    using assms(5) by (simp add: evaluate_syscall_nb_eq or_mask_rank is_multiple_def or_exp_15)
  moreover have "rt_heap (rt'\<lparr>rt_pending := []\<rparr>) p = Some ?t" "rt_tasks rt' = rt_tasks ?m"
    by (simp_all add: rt' submitted_def)
  moreover have "ref_counter ?t \<noteq> 0" "ref_counter ?t \<noteq> U16_MAX"
    using u assms(3) by (auto simp: word_unat_eq_iff simp del: unat_eq_0)
  ultimately show ?thesis
    using undelivered [of c "rt'\<lparr>rt_pending := []\<rparr>" p ?t _ E poll_fn drop_fn] m(1) nb
    by (simp add: c)
qed

theorem commit_completion_rejected_witness:
  "\<exists>rt'. send_commit_write 0x10000 3 5 0 (sample_rt 2) = Inr rt' \<and>
     handle_cqe_entry sample_env (\<lambda>_ _. Inl (Panic Client_panic)) (\<lambda>_. Inr)
       \<lparr>cqe_user_data = sqe_user_data (last (rt_pending rt')), cqe_result = 5, cqe_flags = 0\<rparr>
       (rt'\<lparr>rt_pending := []\<rparr>) = Inl (Panic Newer_cqe)"
proof -
  let ?m = "set_current_task_multiple True (sample_rt 2)"
  have m: "slab_index (cur_idx ?m) (rt_tasks ?m) = Inr 0x1000" "rt_heap ?m 0x1000 = Some (sample_task 2)"
    using sample_index [of 2] unseen_current_multiple [of "sample_rt 2" True] by (simp_all add: unseen_def)
  obtain rt' where rt': "send_commit_write 0x10000 3 5 0 (sample_rt 2) = Inr rt'"
    using submit_exact [OF m] by (simp add: send_commit_write_def Let_def sample_task_def)
  from commit_completion_rejected [OF sample_index _ _ _ rt',
      of "\<lparr>cqe_user_data = sqe_user_data (last (rt_pending rt')), cqe_result = 5, cqe_flags = 0\<rparr>"
        sample_env "\<lambda>_ _. Inl (Panic Client_panic)" "\<lambda>_. Inr"]
  have "handle_cqe_entry sample_env (\<lambda>_ _. Inl (Panic Client_panic)) (\<lambda>_. Inr)
      \<lparr>cqe_user_data = sqe_user_data (last (rt_pending rt')), cqe_result = 5, cqe_flags = 0\<rparr>
      (rt'\<lparr>rt_pending := []\<rparr>) = Inl (Panic Newer_cqe)"
    by (simp add: sample_task_def sample_rt_def initial_poll_def Tag_new_def is_multiple_iff)
  with rt' show ?thesis by blast
qed

text \<open>C40. \<open>WBuffer::submit\<close> detaches the write from its buffer: the entry is staged, but the handle is dropped
  at once, so a sole handle's slot is free, and can be handed out again, while the write is in flight;
  and the entry's completion is dispatched to the task whose slab index is the buffer's index: if the
  slab is not that long, it panics.\<close>

theorem submitted_buffer_misrouted:
  assumes "pool_owns H (rt_buffer rt)" "count H (w_abs_idx w) = 1"
    "slab_len (rt_tasks rt) \<le> w_abs_idx w"
  shows "\<exists>rt'. wbuffer_submit w fd len rt = Inr rt'
    \<and> rt_pending rt' = rt_pending rt @
        [\<lparr>sqe_op = Op_WriteFixed fd (w_ptr w) len (wbuffer_index w),
          sqe_user_data = wbuf_write_udata (w_abs_idx w)\<rparr>]
    \<and> w_abs_idx w \<in> set (write_free (rt_buffer rt'))
    \<and> (\<forall>c rt2. cqe_user_data c = wbuf_write_udata (w_abs_idx w) \<and> rt_tasks rt2 = rt_tasks rt' \<longrightarrow>
        handle_cqe_entry E poll_fn drop_fn c rt2 = Inl (Panic Index_out_of_bounds))"
proof -
  have "w_abs_idx w \<in># H" using assms(2) by (simp flip: count_greater_zero_iff)
  from wbuffer_drop_owns [OF assms(1) this] obtain b where
    b: "wbuffer_drop w (rt_buffer rt) = Inr b" "w_abs_idx w \<in> set (write_free b)"
    using assms(2) by auto
  let ?e = "\<lparr>sqe_op = Op_WriteFixed fd (w_ptr w) len (wbuffer_index w),
    sqe_user_data = wbuf_write_udata (w_abs_idx w)\<rparr>"
  let ?rt = "rt\<lparr>rt_pending := rt_pending rt @ [?e], rt_buffer := b\<rparr>"
  have "wbuffer_submit w fd len rt = Inr ?rt"
    using b(1) by (simp add: wbuffer_submit_def push_entry_def drop_wbuffer_def on_pool_def sqe_queue_push_def
        wbuffer_write_entry_def)
  moreover have "handle_cqe_entry E poll_fn drop_fn c rt2 = Inl (Panic Index_out_of_bounds)"
    if "cqe_user_data c = wbuf_write_udata (w_abs_idx w)" "rt_tasks rt2 = rt_tasks ?rt" for c rt2
  proof -
    have "udata_idx (cqe_user_data c) = w_abs_idx w"
      using that(1) by (simp add: udata_idx_def from_wbuf_write_udata)
    moreover have "\<not> w_abs_idx w < slab_len (rt_tasks rt2)" using that(2) assms(3) by simp
    ultimately show ?thesis by (simp add: handle_cqe_entry_def clone_task_at_def slab_index_def)
  qed
  ultimately show ?thesis using b(2) by auto
qed

theorem submitted_buffer_misrouted_witness:
  "\<exists>rt'. wbuffer_submit \<lparr>w_ptr = 0x11000, w_abs_idx = 1\<rparr> 3 5 (sample_rt 1) = Inr rt'
     \<and> 1 \<in> set (write_free (rt_buffer rt'))"
proof -
  obtain p where p: "alloc_write 1 \<lparr>pool_base = 0x10000, pool_layout = (12288, 4096), read_count = 1,
      write_free = [1, 2], write_rc = [0, 0]\<rparr> = Inr (\<lparr>w_ptr = 0x11000, w_abs_idx = 1\<rparr>, p)"
    "pool_owns {#1#} p"
    using alloc_write_owns [OF small_pool_owns, of 1 "[2]" 1] by (auto simp: buf_addr_def BUF_SIZE_def PAGE_SIZE_def)
  then have "rt_buffer (sample_rt 1) = p"
    by (auto simp: alloc_write_def sub_ovf_def write_rc_at_def sample_rt_def)
  with p(2) have "pool_owns {#1#} (rt_buffer (sample_rt 1))" by simp
  moreover have "slab_len (rt_tasks (sample_rt 1)) \<le> 1" by (simp add: sample_rt_def)
  ultimately show ?thesis
    using submitted_buffer_misrouted [of "{#1#}" "sample_rt 1" "\<lparr>w_ptr = 0x11000, w_abs_idx = 1\<rparr>" 3 5
        sample_env "\<lambda>_ _. Inl (Panic Client_panic)" "\<lambda>_. Inr"] by auto
qed

end
