(* ===== verification/Client.thy ===== *)
theory Client
  imports Calls Event_Loop
begin

text \<open>
  The code the runtime runs: \<open>async\<close> bodies built from the crate's API. A body is a tree of awaits
  and immediate operations with continuations as functions of the awaited value; its locals (buffer
  handles and streams) are owned by the frame, are dropped when they are overwritten, when the body
  ends and when the task is freed, and move into a spawned child. A loop is its unrolling: every
  finite run of a looping body is a run of a deep enough tree.

  \<open>frame_poll\<close> and \<open>frame_drop\<close> are the \<open>poll_fn\<close> and \<open>drop_fn\<close> of the task header for such a
  body. The interpretation at the end shows that they meet the client interface of the event loop.
\<close>

subsection \<open>Bodies\<close>

datatype local_value =
    L_rw rw_buffer
  | L_w w_buffer
  | L_accept AcceptStream
  | L_read ReadStream

type_synonym locals = "(nat \<times> local_value) list"

text \<open>The rest of a body, a well-founded tree: whatever its awaits yield, it performs finitely many operations.
  A body that loops without end is not of this type; its runs up to any number of turns are those of an
  unrolling.\<close>

datatype prog =
    Done
  | Crash                                                  \<comment> \<open>a panic of its own\<close>
  | Forever                                                \<comment> \<open>pending without a submission\<close>
  | Accept i32 "u32 io_result \<Rightarrow> prog"
  | Read u32 nat "u32 io_result \<Rightarrow> prog"                   \<comment> \<open>the buffer goes to a local\<close>
  | Accept_stream nat i32 prog
  | Accept_next nat "u32 option \<Rightarrow> prog"
  | Read_stream nat u32 prog
  | Read_next nat nat "u32 option \<Rightarrow> prog"
  | Commit nat u32 "i32 \<Rightarrow> prog"
  | Write u32 u16 u32 "i32 \<Rightarrow> prog"
  | Connect "u8 \<times> u8 \<times> u8 \<times> u8" u16 u64 "u32 \<Rightarrow> prog"      \<comment> \<open>and the address of the stack copy\<close>
  | Alloc_write nat prog
  | Clone_write nat nat prog
  | Write_multiple nat "u32 list" u32 "WriteResult list \<Rightarrow> prog"
  | Drop_local nat prog
  | Spawn "nat list" prog prog                             \<comment> \<open>moved locals, child, rest\<close>

text \<open>Where a body is suspended: the leaf future it awaits, with what it owns.\<close>

datatype awaiting =
    Aw_forever
  | Aw_accept AcceptFuture "u32 io_result \<Rightarrow> prog"
  | Aw_read ReadFuture nat "u32 io_result \<Rightarrow> prog"
  | Aw_accept_next nat "u32 option \<Rightarrow> prog"
  | Aw_read_next nat nat "u32 option \<Rightarrow> prog"
  | Aw_commit rw_buffer CommitFuture "i32 \<Rightarrow> prog"
  | Aw_write WriteFuture "i32 \<Rightarrow> prog"
  | Aw_connect u64 SocketFuture "u32 \<Rightarrow> prog"
  | Aw_write_multiple WriteMultipleFuture "WriteResult list \<Rightarrow> prog"

datatype suspended = Start prog | Await awaiting | Stopped

record frame =
  fr_state :: suspended
  fr_locals :: locals

type_synonym rt = "frame runtime"
type_synonym step_result = "(frame \<times> bool \<times> rt) res"

subsection \<open>Locals\<close>

definition drop_local :: "local_value \<Rightarrow> rt \<Rightarrow> rt res" where
  "drop_local l rt =
     (case l of
        L_rw b \<Rightarrow> rwbuffer_drop b rt
      | L_w w \<Rightarrow> drop_wbuffer w rt
      | L_accept s \<Rightarrow> Inr rt
      | L_read s \<Rightarrow> Inr rt)"

definition drop_locals :: "locals \<Rightarrow> rt \<Rightarrow> rt res" where
  "drop_locals ls rt = fold_res (\<lambda>(_, l). drop_local l) ls rt"

definition remove_local :: "nat \<Rightarrow> locals \<Rightarrow> locals" where
  "remove_local i ls = filter (\<lambda>(j, _). j \<noteq> i) ls"

text \<open>Assignment drops the value it overwrites.\<close>

definition assign :: "nat \<Rightarrow> local_value \<Rightarrow> locals \<Rightarrow> rt \<Rightarrow> (locals \<times> rt) res" where
  "assign i l ls rt =
     and_then (case map_of ls i of None \<Rightarrow> Inr rt | Some old \<Rightarrow> drop_local old rt) (\<lambda>rt.
     Inr ((i, l) # remove_local i ls, rt))"

subsection \<open>Running a body\<close>

text \<open>Poll a leaf: suspend on it, or go on with its value.\<close>

definition await_leaf :: "('leaf \<times> 'v poll_result \<times> rt) res \<Rightarrow> ('leaf \<Rightarrow> awaiting) \<Rightarrow> locals
    \<Rightarrow> ('leaf \<Rightarrow> 'v \<Rightarrow> rt \<Rightarrow> step_result) \<Rightarrow> step_result" where
  "await_leaf r wrap ls go =
     and_then r (\<lambda>(leaf, p, rt).
     case p of
       Poll_Pending \<Rightarrow> Inr (\<lparr>fr_state = Await (wrap leaf), fr_locals = ls\<rparr>, False, rt)
     | Poll_Ready v \<Rightarrow> go leaf v rt)"

text \<open>Bind the buffer of a completed read to a local and go on with its length.\<close>

definition bind_buffer :: "nat \<Rightarrow> rw_buffer \<Rightarrow> locals \<Rightarrow> rt \<Rightarrow> (u32 \<Rightarrow> locals \<Rightarrow> rt \<Rightarrow> step_result)
    \<Rightarrow> step_result" where
  "bind_buffer j b ls rt go = and_then (assign j (L_rw b) ls rt) (\<lambda>(ls, rt). go (rw_bytes b) ls rt)"

definition poll_accept_next :: "frame env \<Rightarrow> nat \<Rightarrow> (u32 option \<Rightarrow> prog)
    \<Rightarrow> (u32 option \<Rightarrow> locals \<Rightarrow> rt \<Rightarrow> step_result) \<Rightarrow> locals \<Rightarrow> rt \<Rightarrow> step_result" where
  "poll_accept_next E i k go ls rt =
     (case map_of ls i of
        Some (L_accept s) \<Rightarrow>
          and_then (next_poll (accept_poll_next E) (stream_next s) rt) (\<lambda>(s', p, rt).
          let ls = (i, L_accept s') # remove_local i ls
          in case p of
               Poll_Pending \<Rightarrow> Inr (\<lparr>fr_state = Await (Aw_accept_next i k), fr_locals = ls\<rparr>, False, rt)
             | Poll_Ready v \<Rightarrow> go v ls rt)
      | _ \<Rightarrow> Inl (Panic Client_panic))"

definition poll_read_next :: "frame env \<Rightarrow> nat \<Rightarrow> nat \<Rightarrow> (u32 option \<Rightarrow> prog)
    \<Rightarrow> (u32 option \<Rightarrow> locals \<Rightarrow> rt \<Rightarrow> step_result) \<Rightarrow> locals \<Rightarrow> rt \<Rightarrow> step_result" where
  "poll_read_next E i j k go ls rt =
     (case map_of ls i of
        Some (L_read s) \<Rightarrow>
          and_then (next_poll (read_poll_next E) (stream_next s) rt) (\<lambda>(s', p, rt).
          let ls = (i, L_read s') # remove_local i ls
          in case p of
               Poll_Pending \<Rightarrow> Inr (\<lparr>fr_state = Await (Aw_read_next i j k), fr_locals = ls\<rparr>, False, rt)
             | Poll_Ready None \<Rightarrow> go None ls rt
             | Poll_Ready (Some b) \<Rightarrow> bind_buffer j b ls rt (\<lambda>n. go (Some n)))
      | _ \<Rightarrow> Inl (Panic Client_panic))"

text \<open>A read that completed: its buffer, if any, becomes a local.\<close>

definition read_done :: "nat \<Rightarrow> rw_buffer io_result \<Rightarrow> locals \<Rightarrow> rt
    \<Rightarrow> (u32 io_result \<Rightarrow> locals \<Rightarrow> rt \<Rightarrow> step_result) \<Rightarrow> step_result" where
  "read_done j v ls rt go =
     (case v of Inl e \<Rightarrow> go (Inl e) ls rt | Inr b \<Rightarrow> bind_buffer j b ls rt (\<lambda>n. go (Inr n)))"

definition drop_awaiting :: "awaiting \<Rightarrow> rt \<Rightarrow> rt res" where
  "drop_awaiting a rt =
     (case a of
        Aw_commit b c k \<Rightarrow> rwbuffer_drop b rt
      | Aw_write_multiple w k \<Rightarrow> write_multiple_drop w rt
      | _ \<Rightarrow> Inr rt)"

definition frame_drop :: "frame \<Rightarrow> rt \<Rightarrow> rt res" where
  "frame_drop fr rt =
     and_then (case fr_state fr of Await a \<Rightarrow> drop_awaiting a rt | _ \<Rightarrow> Inr rt)
       (drop_locals (fr_locals fr))"

primrec run :: "frame env \<Rightarrow> prog \<Rightarrow> locals \<Rightarrow> rt \<Rightarrow> step_result" where
  "run E Done ls rt =
     and_then (drop_locals ls rt) (\<lambda>rt. Inr (\<lparr>fr_state = Stopped, fr_locals = []\<rparr>, True, rt))"
| "run E Crash ls rt = Inl (Panic Client_panic)"
| "run E Forever ls rt = Inr (\<lparr>fr_state = Await Aw_forever, fr_locals = ls\<rparr>, False, rt)"
| "run E (Accept fd k) ls rt =
     await_leaf (accept_poll (accept fd) rt) (\<lambda>f. Aw_accept f k) ls (\<lambda>_ v. run E (k v) ls)"
| "run E (Read fd j k) ls rt =
     await_leaf (read_poll E (read fd) rt) (\<lambda>f. Aw_read f j k) ls
       (\<lambda>_ v rt. read_done j v ls rt (\<lambda>v. run E (k v)))"
| "run E (Accept_stream i fd k) ls rt =
     and_then (assign i (L_accept (accept_stream fd)) ls rt) (\<lambda>(ls, rt). run E k ls rt)"
| "run E (Accept_next i k) ls rt = poll_accept_next E i k (\<lambda>v. run E (k v)) ls rt"
| "run E (Read_stream i fd k) ls rt =
     and_then (assign i (L_read (read_stream fd)) ls rt) (\<lambda>(ls, rt). run E k ls rt)"
| "run E (Read_next i j k) ls rt = poll_read_next E i j k (\<lambda>v. run E (k v)) ls rt"
| "run E (Commit i len k) ls rt =
     (case map_of ls i of
        Some (L_rw b) \<Rightarrow>
          (case rwbuffer_commit b len of (b, c) \<Rightarrow>
            await_leaf (commit_poll c rt) (\<lambda>f. Aw_commit b f k) (remove_local i ls)
              (\<lambda>_ v rt. and_then (rwbuffer_drop b rt) (run E (k v) (remove_local i ls))))
      | _ \<Rightarrow> Inl (Panic Client_panic))"
| "run E (Write fd b len k) ls rt =
     await_leaf (write_poll (write_fn fd b len) rt) (\<lambda>f. Aw_write f k) ls (\<lambda>_ v. run E (k v) ls)"
| "run E (Connect ip port a k) ls rt =
     await_leaf (socket_poll a (connect ip port) rt) (\<lambda>f. Aw_connect a f k) ls (\<lambda>_ v. run E (k v) ls)"
| "run E (Alloc_write i k) ls rt =
     and_then (alloc_write_buffer rt) (\<lambda>(w, rt).
     and_then (assign i (L_w w) ls rt) (\<lambda>(ls, rt). run E k ls rt))"
| "run E (Clone_write i j k) ls rt =
     (case map_of ls i of
        Some (L_w w) \<Rightarrow>
          and_then (clone_wbuffer w rt) (\<lambda>rt.
          and_then (assign j (L_w w) ls rt) (\<lambda>(ls, rt). run E k ls rt))
      | _ \<Rightarrow> Inl (Panic Client_panic))"
| "run E (Write_multiple i fds len k) ls rt =
     (case map_of ls i of
        Some (L_w w) \<Rightarrow>
          await_leaf (write_multiple_poll (write_multiple fds w len) rt) (\<lambda>f. Aw_write_multiple f k)
            (remove_local i ls)
            (\<lambda>f v rt. and_then (write_multiple_drop f rt) (run E (k v) (remove_local i ls)))
      | _ \<Rightarrow> Inl (Panic Client_panic))"
| "run E (Drop_local i k) ls rt =
     (case map_of ls i of
        Some l \<Rightarrow> and_then (drop_local l rt) (run E k (remove_local i ls))
      | None \<Rightarrow> Inl (Panic Client_panic))"
| "run E (Spawn moved child k) ls rt =
     (let theirs = filter (\<lambda>(i, _). i \<in> set moved) ls;
          ours = filter (\<lambda>(i, _). i \<notin> set moved) ls
      in and_then (spawn_run E (run E child theirs) frame_drop
                     \<lparr>fr_state = Start child, fr_locals = theirs\<rparr> rt)
           (run E k ours))"

definition resume :: "frame env \<Rightarrow> awaiting \<Rightarrow> locals \<Rightarrow> rt \<Rightarrow> step_result" where
  "resume E a ls rt =
     (case a of
        Aw_forever \<Rightarrow> Inr (\<lparr>fr_state = Await Aw_forever, fr_locals = ls\<rparr>, False, rt)
      | Aw_accept f k \<Rightarrow>
          await_leaf (accept_poll f rt) (\<lambda>f. Aw_accept f k) ls (\<lambda>_ v. run E (k v) ls)
      | Aw_read f j k \<Rightarrow>
          await_leaf (read_poll E f rt) (\<lambda>f. Aw_read f j k) ls
            (\<lambda>_ v rt. read_done j v ls rt (\<lambda>v. run E (k v)))
      | Aw_accept_next i k \<Rightarrow> poll_accept_next E i k (\<lambda>v. run E (k v)) ls rt
      | Aw_read_next i j k \<Rightarrow> poll_read_next E i j k (\<lambda>v. run E (k v)) ls rt
      | Aw_commit b f k \<Rightarrow>
          await_leaf (commit_poll f rt) (\<lambda>f. Aw_commit b f k) ls
            (\<lambda>_ v rt. and_then (rwbuffer_drop b rt) (run E (k v) ls))
      | Aw_write f k \<Rightarrow> await_leaf (write_poll f rt) (\<lambda>f. Aw_write f k) ls (\<lambda>_ v. run E (k v) ls)
      | Aw_connect adr f k \<Rightarrow>
          await_leaf (socket_poll adr f rt) (\<lambda>f. Aw_connect adr f k) ls (\<lambda>_ v. run E (k v) ls)
      | Aw_write_multiple f k \<Rightarrow>
          await_leaf (write_multiple_poll f rt) (\<lambda>f. Aw_write_multiple f k) ls
            (\<lambda>f v rt. and_then (write_multiple_drop f rt) (run E (k v) ls)))"

definition frame_poll :: "frame env \<Rightarrow> frame \<Rightarrow> rt \<Rightarrow> step_result" where
  "frame_poll E fr rt =
     (case fr_state fr of
        Start p \<Rightarrow> run E p (fr_locals fr) rt
      | Await a \<Rightarrow> resume E a (fr_locals fr) rt
      | Stopped \<Rightarrow> Inl (Panic Resumed_after_completion))"

definition async_block :: "prog \<Rightarrow> frame" where
  "async_block p = \<lparr>fr_state = Start p, fr_locals = []\<rparr>"

subsection \<open>Dropping a frame\<close>

text \<open>Operations that touch buffers only.\<close>

definition buffers_only :: "rt \<Rightarrow> rt res \<Rightarrow> bool" where
  "buffers_only rt r \<longleftrightarrow> no_ub r \<and> (\<forall>rt'. r = Inr rt' \<longrightarrow> unseen rt rt')"

lemma buffers_only_Inr [simp]: "buffers_only rt (Inr rt)"
  by (simp add: buffers_only_def)

lemma buffers_only_and_then:
  assumes "buffers_only rt m" "\<And>rt'. m = Inr rt' \<Longrightarrow> buffers_only rt' (f rt')"
  shows "buffers_only rt (and_then m f)"
  using assms unfolding buffers_only_def
  by (auto simp: res_simps intro: no_ub_and_then unseen_trans)

lemma buffers_only_drops:
  "buffers_only rt (rwbuffer_drop b rt)" "buffers_only rt (drop_wbuffer w rt)"
  "buffers_only rt (write_multiple_drop f rt)"
  by (auto simp: buffers_only_def drop_wbuffer_def drop_write_multiple intro: no_ub_on_pool
      dest: rwbuffer_drop_unseen on_pool_unseen drop_write_multiple(2))

lemma buffers_only_drop_local: "buffers_only rt (drop_local l rt)"
  by (cases l) (simp_all add: drop_local_def buffers_only_drops)

lemma buffers_only_drop_locals: "buffers_only rt (drop_locals ls rt)"
  unfolding drop_locals_def
  by (induction ls arbitrary: rt) (auto intro!: buffers_only_and_then buffers_only_drop_local)

lemma buffers_only_drop_awaiting: "buffers_only rt (drop_awaiting a rt)"
  by (cases a) (simp_all add: drop_awaiting_def buffers_only_drops)

lemma frame_drop_ok: "drop_ok frame_drop"
proof -
  have "buffers_only rt (frame_drop fr rt)" for fr rt
    unfolding frame_drop_def
    by (rule buffers_only_and_then)
      (auto intro: buffers_only_drop_locals buffers_only_drop_awaiting split: suspended.split)
  then show ?thesis by (simp add: drop_ok_def buffers_only_def)
qed

lemma keeps_buffers_only: "rt_inv ok K H rt \<Longrightarrow> buffers_only rt r \<Longrightarrow> keeps ok K H rt id r"
  by (rule keeps_unseen) (auto simp: buffers_only_def)

lemma keeps_assign:
  assumes "rt_inv ok K H rt"
  shows "keeps ok K H rt snd (assign i l ls rt)"
  unfolding assign_def
proof (rule keeps_and_then [OF keeps_buffers_only [OF assms]])
  show "buffers_only rt (case map_of ls i of None \<Rightarrow> Inr rt | Some old \<Rightarrow> drop_local old rt)"
    by (auto intro: buffers_only_drop_local split: option.split)
qed (auto intro: keeps_Inr)

subsection \<open>Bodies and frames the theorems are about\<close>

text \<open>Fan-outs of at most \<open>u16::MAX\<close> descriptors.\<close>

primrec prog_ok :: "prog \<Rightarrow> bool" where
  "prog_ok Done \<longleftrightarrow> True"
| "prog_ok Crash \<longleftrightarrow> True"
| "prog_ok Forever \<longleftrightarrow> True"
| "prog_ok (Accept fd k) \<longleftrightarrow> (\<forall>v. prog_ok (k v))"
| "prog_ok (Read fd j k) \<longleftrightarrow> (\<forall>v. prog_ok (k v))"
| "prog_ok (Accept_stream i fd k) \<longleftrightarrow> prog_ok k"
| "prog_ok (Accept_next i k) \<longleftrightarrow> (\<forall>v. prog_ok (k v))"
| "prog_ok (Read_stream i fd k) \<longleftrightarrow> prog_ok k"
| "prog_ok (Read_next i j k) \<longleftrightarrow> (\<forall>v. prog_ok (k v))"
| "prog_ok (Commit i len k) \<longleftrightarrow> (\<forall>v. prog_ok (k v))"
| "prog_ok (Write fd b len k) \<longleftrightarrow> (\<forall>v. prog_ok (k v))"
| "prog_ok (Connect ip port a k) \<longleftrightarrow> (\<forall>v. prog_ok (k v))"
| "prog_ok (Alloc_write i k) \<longleftrightarrow> prog_ok k"
| "prog_ok (Clone_write i j k) \<longleftrightarrow> prog_ok k"
| "prog_ok (Write_multiple i fds len k) \<longleftrightarrow> length fds < 65536 \<and> (\<forall>v. prog_ok (k v))"
| "prog_ok (Drop_local i k) \<longleftrightarrow> prog_ok k"
| "prog_ok (Spawn moved child k) \<longleftrightarrow> prog_ok child \<and> prog_ok k"

primrec awaiting_ok :: "awaiting \<Rightarrow> bool" where
  "awaiting_ok Aw_forever \<longleftrightarrow> True"
| "awaiting_ok (Aw_accept f k) \<longleftrightarrow> (\<forall>v. prog_ok (k v))"
| "awaiting_ok (Aw_read f j k) \<longleftrightarrow> (\<forall>v. prog_ok (k v))"
| "awaiting_ok (Aw_accept_next i k) \<longleftrightarrow> (\<forall>v. prog_ok (k v))"
| "awaiting_ok (Aw_read_next i j k) \<longleftrightarrow> (\<forall>v. prog_ok (k v))"
| "awaiting_ok (Aw_commit b f k) \<longleftrightarrow> (\<forall>v. prog_ok (k v))"
| "awaiting_ok (Aw_write f k) \<longleftrightarrow> (\<forall>v. prog_ok (k v))"
| "awaiting_ok (Aw_connect a f k) \<longleftrightarrow> (\<forall>v. prog_ok (k v))"
| "awaiting_ok (Aw_write_multiple f k) \<longleftrightarrow> wm_ok f \<and> (\<forall>v. prog_ok (k v))"

definition frame_ok :: "frame \<Rightarrow> bool" where
  "frame_ok fr \<longleftrightarrow>
     (case fr_state fr of Start p \<Rightarrow> prog_ok p | Await a \<Rightarrow> awaiting_ok a | Stopped \<Rightarrow> True)"

subsection \<open>Running keeps the accounting\<close>

definition good :: "u64 list \<Rightarrow> SlabIdx multiset \<Rightarrow> rt \<Rightarrow> step_result \<Rightarrow> bool" where
  "good K H rt r \<longleftrightarrow> keeps frame_ok K H rt (snd \<circ> snd) r
     \<and> (\<forall>f b rt'. r = Inr (f, b, rt') \<longrightarrow> frame_ok f)"

text \<open>Started with its own task among the handles.\<close>

definition ready :: "u64 list \<Rightarrow> SlabIdx multiset \<Rightarrow> rt \<Rightarrow> bool" where
  "ready K H rt \<longleftrightarrow> rt_inv frame_ok K H rt \<and> cur_idx rt \<in># H"

lemma run_ok_frame: "run_ok frame_ok r \<longleftrightarrow> (\<forall>K H rt. ready K H rt \<longrightarrow> good K H rt (r rt))"
  by (simp add: run_ok_def good_def ready_def)

lemma good_panic [simp]: "good K H rt (Inl (Panic e))"
  by (simp add: good_def)

lemma good_value: "ready K H rt \<Longrightarrow> frame_ok f \<Longrightarrow> good K H rt (Inr (f, b, rt))"
  by (simp add: good_def ready_def keeps_def)

lemma good_and_then:
  assumes r: "ready K H rt" and m: "keeps frame_ok K H rt sel m"
    and f: "\<And>x. m = Inr x \<Longrightarrow> ready K H (sel x) \<Longrightarrow> good K H (sel x) (f x)"
  shows "good K H rt (and_then m f)"
proof -
  have nxt: "good K H (sel x) (f x)" if "m = Inr x" for x
    using f [OF that] keepsD(2,3) [OF m that] r by (auto simp: ready_def stable_def)
  have "keeps frame_ok K H rt (snd \<circ> snd) (and_then m f)"
    by (rule keeps_and_then [OF m]) (use nxt in \<open>simp add: good_def\<close>)
  with nxt show ?thesis by (auto simp: good_def res_simps)
qed

lemma good_await_leaf:
  assumes r: "ready K H rt" and m: "keeps frame_ok K H rt (snd \<circ> snd) m"
    and wrap: "\<And>leaf p rt'. m = Inr (leaf, p, rt') \<Longrightarrow> awaiting_ok (wrap leaf)"
    and go: "\<And>leaf v rt'. ready K H rt' \<Longrightarrow> good K H rt' (go leaf v rt')"
  shows "good K H rt (await_leaf m wrap ls go)"
  unfolding await_leaf_def
proof (rule good_and_then [OF r m])
  fix x assume x: "m = Inr x" "ready K H ((snd \<circ> snd) x)"
  obtain leaf p rt' where "x = (leaf, p, rt')" by (cases x)
  with x wrap go show "good K H ((snd \<circ> snd) x) (case x of (leaf, p, rt) \<Rightarrow> case p of
      Poll_Pending \<Rightarrow> Inr (\<lparr>fr_state = Await (wrap leaf), fr_locals = ls\<rparr>, False, rt)
    | Poll_Ready v \<Rightarrow> go leaf v rt)"
    by (auto intro!: good_value simp: frame_ok_def split: poll_result.split)
qed

lemma good_buffers:
  assumes "ready K H rt" "buffers_only rt m" "\<And>rt'. ready K H rt' \<Longrightarrow> good K H rt' (f rt')"
  shows "good K H rt (and_then m f)"
  by (rule good_and_then [OF assms(1), where sel = id])
    (use assms in \<open>auto simp: ready_def intro: keeps_buffers_only\<close>)

lemma good_assign:
  assumes "ready K H rt" "\<And>ls rt'. ready K H rt' \<Longrightarrow> good K H rt' (go ls rt')"
  shows "good K H rt (and_then (assign i l ls rt) (\<lambda>(ls, rt). go ls rt))"
  by (rule good_and_then [OF assms(1), where sel = snd])
    (use assms in \<open>auto simp: ready_def intro: keeps_assign\<close>)

lemma good_bind_buffer:
  assumes "ready K H rt" "\<And>n ls rt'. ready K H rt' \<Longrightarrow> good K H rt' (go n ls rt')"
  shows "good K H rt (bind_buffer j b ls rt go)"
  unfolding bind_buffer_def by (rule good_assign) (use assms in auto)

lemma good_read_done:
  assumes "ready K H rt" "\<And>v ls rt'. ready K H rt' \<Longrightarrow> good K H rt' (go v ls rt')"
  shows "good K H rt (read_done j v ls rt go)"
  using assms by (cases v) (auto simp: read_done_def intro: good_bind_buffer)

lemma good_accept_next:
  assumes r: "ready K H rt" and k: "\<forall>v. prog_ok (k v)"
    and go: "\<And>v ls rt'. ready K H rt' \<Longrightarrow> good K H rt' (go v ls rt')"
  shows "good K H rt (poll_accept_next E i k go ls rt)"
proof -
  have "good K H rt (and_then (accept_poll_next E s rt) (\<lambda>(s', p, rt).
      let ls = (i, L_accept s') # remove_local i ls
      in case p of
           Poll_Pending \<Rightarrow> Inr (\<lparr>fr_state = Await (Aw_accept_next i k), fr_locals = ls\<rparr>, False, rt)
         | Poll_Ready v \<Rightarrow> go v ls rt))" for s
    by (rule good_and_then [OF r keeps_accept_poll_next])
      (use r k go in \<open>auto simp: ready_def frame_ok_def Let_def intro!: good_value split: poll_result.split\<close>)
  then show ?thesis by (auto simp: poll_accept_next_def split: option.split local_value.split)
qed

lemma good_read_next:
  assumes r: "ready K H rt" and k: "\<forall>v. prog_ok (k v)"
    and go: "\<And>v ls rt'. ready K H rt' \<Longrightarrow> good K H rt' (go v ls rt')"
  shows "good K H rt (poll_read_next E i j k go ls rt)"
proof -
  have "good K H rt (and_then (read_poll_next E s rt) (\<lambda>(s', p, rt).
      let ls = (i, L_read s') # remove_local i ls
      in case p of
           Poll_Pending \<Rightarrow> Inr (\<lparr>fr_state = Await (Aw_read_next i j k), fr_locals = ls\<rparr>, False, rt)
         | Poll_Ready None \<Rightarrow> go None ls rt
         | Poll_Ready (Some b) \<Rightarrow> bind_buffer j b ls rt (\<lambda>n. go (Some n))))" for s
    by (rule good_and_then [OF r keeps_read_poll_next])
      (use r k go in \<open>auto simp: ready_def frame_ok_def Let_def
        intro!: good_value good_bind_buffer split: poll_result.split option.split\<close>)
  then show ?thesis by (auto simp: poll_read_next_def split: option.split local_value.split)
qed

lemma good_done: "ready K H rt \<Longrightarrow> good K H rt (run E Done ls rt)"
  by (auto simp: frame_ok_def intro!: good_buffers buffers_only_drop_locals good_value)

lemma good_forever: "ready K H rt \<Longrightarrow> good K H rt (run E Forever ls rt)"
  by (auto simp: frame_ok_def intro: good_value)

lemma keeps_ready:
  assumes "ready K H rt"
  shows "keeps frame_ok K H rt (snd \<circ> snd) (accept_poll fa rt)"
    "keeps frame_ok K H rt (snd \<circ> snd) (read_poll E fr rt)"
    "keeps frame_ok K H rt (snd \<circ> snd) (commit_poll fc rt)"
    "keeps frame_ok K H rt (snd \<circ> snd) (write_poll fw rt)"
    "keeps frame_ok K H rt (snd \<circ> snd) (socket_poll a fs rt)"
    "wm_ok fm \<Longrightarrow> keeps frame_ok K H rt (snd \<circ> snd) (write_multiple_poll fm rt)"
  using assms unfolding ready_def
  by (auto intro: keeps_accept_poll keeps_read_poll keeps_commit_poll keeps_write_poll
      keeps_socket_poll keeps_write_multiple_poll)

lemma good_alloc:
  assumes r: "ready K H rt" and go: "\<And>ls rt'. ready K H rt' \<Longrightarrow> good K H rt' (go ls rt')"
  shows "good K H rt (and_then (alloc_write_buffer rt) (\<lambda>(w, rt).
    and_then (assign i (L_w w) ls rt) (\<lambda>(ls, rt). go ls rt)))"
  by (rule good_and_then [OF r keeps_alloc_write_buffer])
    (use r go in \<open>auto simp: ready_def intro!: good_assign\<close>)

lemma good_clone:
  assumes r: "ready K H rt" and go: "\<And>ls rt'. ready K H rt' \<Longrightarrow> good K H rt' (go ls rt')"
  shows "good K H rt (and_then (clone_wbuffer w rt) (\<lambda>rt.
    and_then (assign i (L_w w) ls rt) (\<lambda>(ls, rt). go ls rt)))"
  by (rule good_and_then [OF r keeps_clone_wbuffer])
    (use r go in \<open>auto simp: ready_def intro!: good_assign\<close>)

lemma good_spawn:
  assumes E: "env_ok E" and r: "ready K H rt" and p: "prog_ok child"
    and child: "\<And>K H rt. ready K H rt \<Longrightarrow> good K H rt (run E child theirs rt)"
    and go: "\<And>rt'. ready K H rt' \<Longrightarrow> good K H rt' (go rt')"
  shows "good K H rt (and_then (spawn_run E (run E child theirs) frame_drop
    \<lparr>fr_state = Start child, fr_locals = theirs\<rparr> rt) go)"
proof (rule good_and_then [OF r keeps_spawn_run [OF E frame_drop_ok]])
  show "frame_ok \<lparr>fr_state = Start child, fr_locals = theirs\<rparr>" using p by (simp add: frame_ok_def)
  show "run_ok frame_ok (run E child theirs)" using child by (simp add: run_ok_frame)
  show "rt_inv frame_ok K H rt" using r by (simp add: ready_def)
qed (use go in simp)

lemma good_run:
  assumes E: "env_ok E" and "prog_ok p" "ready K H rt"
  shows "good K H rt (run E p ls rt)"
  using assms(2,3)
proof (induction p arbitrary: K H ls rt)
  case Done
  then show ?case by (intro good_done)
next
  case Forever
  then show ?case by (intro good_forever)
next
  case (Accept fd k)
  then show ?case by (auto intro!: good_await_leaf keeps_ready)
next
  case (Read fd j k)
  then show ?case by (auto intro!: good_await_leaf keeps_ready good_read_done)
next
  case (Accept_stream i fd k)
  then show ?case by (auto intro!: good_assign)
next
  case (Accept_next i k)
  then show ?case by (auto intro!: good_accept_next)
next
  case (Read_stream i fd k)
  then show ?case by (auto intro!: good_assign)
next
  case (Read_next i j k)
  then show ?case by (auto intro!: good_read_next)
next
  case (Commit i len k)
  then show ?case
    by (auto simp: rwbuffer_commit_def split: option.split local_value.split
        intro!: good_await_leaf keeps_ready good_buffers buffers_only_drops)
next
  case (Write fd b len k)
  then show ?case by (auto intro!: good_await_leaf keeps_ready)
next
  case (Connect ip port a k)
  then show ?case by (auto intro!: good_await_leaf keeps_ready)
next
  case (Alloc_write i k)
  then show ?case by (auto intro!: good_alloc)
next
  case (Clone_write i j k)
  then show ?case by (auto split: option.split local_value.split intro!: good_clone)
next
  case (Write_multiple i fds len k)
  then show ?case
    by (auto simp: write_multiple_def split: option.split local_value.split
        intro!: good_await_leaf keeps_ready good_buffers buffers_only_drops dest: wm_ok_poll)
next
  case (Drop_local i k)
  then show ?case
    by (auto split: option.split intro!: good_buffers buffers_only_drop_local)
next
  case (Spawn moved child k)
  then show ?case by (auto simp: Let_def intro!: good_spawn [OF E])
qed simp

lemma good_resume:
  assumes E: "env_ok E" and a: "awaiting_ok a" and r: "ready K H rt"
  shows "good K H rt (resume E a ls rt)"
  using a r by (cases a)
    (auto simp: resume_def frame_ok_def dest: wm_ok_poll
      intro!: good_value good_await_leaf keeps_ready good_run [OF E] good_read_done good_accept_next
        good_read_next good_buffers buffers_only_drops)

lemma frame_poll_ok:
  assumes "env_ok E" "frame_ok fr"
  shows "run_ok frame_ok (frame_poll E fr)"
  using assms by (auto simp: run_ok_frame frame_poll_def frame_ok_def
      intro: good_run good_resume split: suspended.split)

subsection \<open>How a poll leaves a body\<close>

text \<open>Finished with nothing left to drop, or suspended on a leaf.\<close>

definition settled :: "step_result \<Rightarrow> bool" where
  "settled r \<longleftrightarrow> (\<forall>fr b rt. r = Inr (fr, b, rt) \<longrightarrow>
     (if b then fr = \<lparr>fr_state = Stopped, fr_locals = []\<rparr> else \<exists>a. fr_state fr = Await a))"

lemma settled_simps [simp]:
  "settled (Inl e)"
  "settled (Inr (fr, b, rt)) \<longleftrightarrow> (if b then fr = \<lparr>fr_state = Stopped, fr_locals = []\<rparr> else \<exists>a. fr_state fr = Await a)"
  by (simp_all add: settled_def)

lemma settled_and_then: "(\<And>x. r = Inr x \<Longrightarrow> settled (f x)) \<Longrightarrow> settled (and_then r f)"
  by (cases r) simp_all

lemma settled_await: "(\<And>leaf v rt. settled (go leaf v rt)) \<Longrightarrow> settled (await_leaf r wrap ls go)"
  by (auto simp: await_leaf_def intro!: settled_and_then split: poll_result.split)

lemma settled_bind: "(\<And>n ls rt. settled (go n ls rt)) \<Longrightarrow> settled (bind_buffer j b ls rt go)"
  by (auto simp: bind_buffer_def intro!: settled_and_then)

lemma settled_read: "(\<And>v ls rt. settled (go v ls rt)) \<Longrightarrow> settled (read_done j v ls rt go)"
  by (auto simp: read_done_def intro!: settled_bind split: sum.split)

lemma settled_next:
  "(\<And>v ls rt. settled (go v ls rt)) \<Longrightarrow> settled (poll_accept_next E i k go ls rt)"
  "(\<And>v ls rt. settled (go v ls rt)) \<Longrightarrow> settled (poll_read_next E i j k go ls rt)"
  by (auto simp: poll_accept_next_def poll_read_next_def Let_def intro!: settled_and_then settled_bind
      split: option.split local_value.split poll_result.split)

lemmas settled_intros = settled_and_then settled_await settled_bind settled_read settled_next

lemma settled_run: "settled (run E p ls rt)"
  by (induction p arbitrary: ls rt)
    (auto simp: Let_def intro!: settled_intros split: option.split local_value.split prod.split)

lemma settled_resume: "settled (resume E a ls rt)"
  by (cases a) (auto simp: resume_def settled_run intro!: settled_intros)

lemma settled_poll: "settled (frame_poll E fr rt)"
  by (auto simp: frame_poll_def settled_run settled_resume split: suspended.split)

subsection \<open>The client interface holds for every body\<close>

interpretation client: task_client E "frame_poll E" frame_drop frame_ok
  for E
  by unfold_locales (rule frame_drop_ok, rule frame_poll_ok)

end
