(* ===== verification/Scenarios.thy ===== *)
theory Scenarios
  imports Client
begin

text \<open>
  Concrete runs of the whole runtime, evaluated by rewriting: a small environment, a runtime with a
  two-slot slab and four buffers, and kernels that complete the oldest entry in flight. They show
  that the hypotheses of the general theorems can hold, and what the runtime does with the client
  code of the repository's documentation and tests.
\<close>

subsection \<open>A concrete environment\<close>

text \<open>Flag bits as io_uring documents them: bit 0 announces a buffer id in the upper half, bit 1 that
  more completions follow.\<close>

definition demo_env :: "frame env" where
  "demo_env =
     \<lparr>env_layout = \<lambda>_. (64, 8),
      env_malloc = \<lambda>alive _. find (\<lambda>p. \<not> alive p) [0x1000, 0x2000, 0x3000],
      env_slab_alloc = \<lambda>n. n \<le> 64,
      env_more = \<lambda>flags. bit flags 1,
      env_buffer_select = \<lambda>flags. if bit flags 0 then Some (ucast (drop_bit 16 flags)) else None,
      env_sq_room = \<lambda>n. n \<le> 1024\<rparr>"

definition demo_pool :: buf_pool where
  "demo_pool =
     \<lparr>pool_base = 0x10000, pool_layout = (16384, 4096), read_count = 2, write_free = [2, 3],
      write_rc = [0, 0]\<rparr>"

definition demo_rt :: rt where
  "demo_rt =
     \<lparr>rt_heap = Map.empty,
      rt_tasks = \<lparr>slots = [3, 5], slab_head = 0, slab_len = 2, task_count = 0\<rparr>,
      rt_buffer = demo_pool, rt_pending = [], rt_buf_ring = replicate 32 0,
      rt_current = TaskInfo_dummy, rt_free_list = [], rt_wake_list = [], rt_freed_reads = 0\<rparr>"

definition oldest_first :: "i32 \<Rightarrow> u32 \<Rightarrow> nat \<Rightarrow> u64 list \<Rightarrow> kernel_turn" where
  "oldest_first res flags n K =
     Completions (case K of [] \<Rightarrow> []
       | d # _ \<Rightarrow> [\<lparr>cqe_user_data = d, cqe_result = res, cqe_flags = flags\<rparr>])"

lemma eval_slots:
  "slot_is_free 3" "slot_is_free 5" "slot_link 3 = 1" "slot_link 5 = 2"
  "free_slot 1 = 3" "free_slot 2 = 5" "\<not> slot_is_free 0x1000" "\<not> slot_is_free 0x2000"
  "slot_is_task 0x1000" "slot_is_task 0x2000" "slot_is_task 0x3000"
  by code_simp+

lemma eval_layout: "task_layout 64 8 = (96, 32)" "RAW_TASK_ALIGN = 32" "RAW_TASK_SIZE = 32"
  by code_simp+

lemma eval_rank: "rank 1 = 1" "rank 2 = 2"
  by (simp_all add: rank_def)

lemma demo_env_ok: "env_ok demo_env"
  using eval_slots(9-11)
  by (auto simp: env_ok_def demo_env_def word_le_nat_alt split: if_splits)

lemma demo_rt_idle: "idle ok demo_rt"
proof -
  have "with_capacity (\<lambda>_. True) 2 = Inr (rt_tasks demo_rt)"
    by (simp add: with_capacity_def demo_rt_def eval_slots)
  with with_capacity_inv [of 2 "\<lambda>_. True"]
  have "slab_inv (rt_tasks demo_rt)" "slab_lookup (rt_tasks demo_rt) = Map.empty" by auto
  then show ?thesis
    by (simp add: idle_def rt_inv_def acct_def tokens_def live_def) (simp add: demo_rt_def)
qed

lemma demo_pool_free: "pool_owns {#} (rt_buffer demo_rt)"
proof -
  have "{..<length (write_rc demo_pool)} = {0, Suc 0}" by (auto simp: demo_pool_def)
  then show ?thesis by (auto simp: pool_owns_def demo_rt_def demo_pool_def slot_abs_def less_Suc_eq)
qed

lemma oldest_first_legal: "legal_kernel E (oldest_first res flags)"
  by (auto simp: legal_kernel_def oldest_first_def split: list.split)

subsection \<open>Evaluation\<close>

text \<open>The defining equations a run of the loop unfolds, per component.\<close>

lemmas eval_tasks = task_new_def task_clone_def task_update_def task_deref_def set_task_idx_def
  inc_rc_eq add_rc_eq evaluate_syscall_nb_def augmente_syscall_nb_def MULTIPLE_MASK_def
  add_ovf_def sub_ovf_def checked_add_def

lemmas eval_slab = insert_task_def slab_insert_def slot_at_def slot_next_free_def slot_from_task_def
  slab_index_def remove_dropped_task_def slab_count_def

lemmas eval_info = initial_poll_def Tag_new_def TaskInfo_from_entry_def payload_from_entry_def
  current_udata_def TaskInfo_into_payload_def from_into_user_data set_to_next_task_def
  Tag_augmente_syscall_nb_def set_current_task_multiple_def current_result_def current_cqe_flags_def

lemmas eval_buffers = alloc_write_buffer_def alloc_write_def write_rc_at_def clone_wbuffer_def
  on_pool_def wbuffer_clone_def drop_wbuffer_def wbuffer_drop_def wbuffer_write_def
  wbuffer_write_entry_def wbuffer_index_def checkout_read_def

lemmas eval_sends = with_task_def sqe_queue_push_def send_accept_def send_read_def
  send_commit_write_def send_multiple_write_def advance_syscall_nb_def

lemmas eval_calls = accept_def accept_poll_def read_def read_poll_def make_commit_future_def
  rwbuffer_commit_def commit_poll_def write_multiple_def write_multiple_poll_def write_failures_def
  write_multiple_drop_def

lemmas eval_client = frame_poll_def frame_drop_def drop_locals_def async_block_def await_leaf_def
  resume_def read_done_def bind_buffer_def assign_def remove_local_def drop_awaiting_def

lemmas eval_loop = block_on_def spawn_def spawn_insert_def task_alloc_def spawn_finish_def
  task_release_def task_drop_def task_poll_def task_poll_with_def free_unsed_slab_slot_def
  is_runtime_free_def submit_pending_def loop_body_def client.drain_idle complete_one_def
  handle_cqe_entry_def dispatch_cqe_def clone_task_at_def Let_def

lemmas eval_demo = eval_slots eval_layout eval_rank eval_tasks eval_slab eval_info eval_buffers eval_sends eval_calls
  eval_client eval_loop demo_env_def demo_rt_def oldest_first_def

subsection \<open>Runs\<close>

text \<open>A body that accepts one connection and ends.\<close>

definition accept_once :: prog where
  "accept_once = Accept 3 (\<lambda>_. Done)"

lemma accept_once_run:
  "block_on demo_env (frame_poll demo_env) frame_drop (oldest_first 7 0) (Suc (Suc 0))
     (async_block accept_once) demo_rt =
   Finished (demo_rt\<lparr>rt_current := \<lparr>ti_tag = \<lparr>tag_task_idx = 0, tag_syscall_nb = 1\<rparr>, ti_result = 7,
     ti_flags = 0, ti_response_gen = U16_MAX\<rparr>, rt_freed_reads := 1\<rparr>)"
  by (simp add: eval_demo accept_once_def)

text \<open>The echo handler of the README: read, then commit what was read. The kernel delivers five bytes in
  buffer 1 and then completes the write.\<close>

definition echo_once :: prog where
  "echo_once = Read 3 0 (\<lambda>r. case r of Inl _ \<Rightarrow> Crash | Inr n \<Rightarrow> Commit 0 n (\<lambda>_. Done))"

lemma echo_once_run:
  "block_on demo_env (frame_poll demo_env) frame_drop (oldest_first 5 0x10001) (Suc (Suc (Suc 0)))
     (async_block echo_once) demo_rt = Faulted (Panic Newer_cqe)"
  by (simp add: eval_demo echo_once_def demo_pool_def)

text \<open>A fan-out write to two descriptors, followed by a panic if the await ever returns.\<close>

definition fan_out_two :: prog where
  "fan_out_two = Alloc_write 0 (Write_multiple 0 [7, 8] 4 (\<lambda>_. Crash))"

lemma fan_out_two_run:
  "\<exists>rt. block_on demo_env (frame_poll demo_env) frame_drop (oldest_first 4 0) (Suc (Suc (Suc 0)))
     (async_block fan_out_two) demo_rt = Finished rt"
  by (simp add: eval_demo fan_out_two_def demo_pool_def)

text \<open>Two connections accepted by two spawned children of one body.\<close>

definition spawn_two :: prog where
  "spawn_two = Spawn [] (Accept 3 (\<lambda>_. Done)) (Accept 4 (\<lambda>_. Done))"

lemma spawn_two_run:
  "\<exists>rt. block_on demo_env (frame_poll demo_env) frame_drop (oldest_first 9 0) (Suc (Suc (Suc 0)))
     (async_block spawn_two) demo_rt = Finished rt"
  by (simp add: eval_demo spawn_two_def spawn_run_def)

end
