(* ===== verification/Unit_Tests.thy ===== *)
theory Unit_Tests
  imports Scenarios
begin

text \<open>
  The unit tests inside \<open>src/src/task.rs\<close> and \<open>src/src/task_slab.rs\<close>, translated with their
  assertions and with the drops at the ends of their scopes. A test passes when its run reaches the
  end; a failed assertion is a panic of the test. The empty \<open>async\<close> block is the body that ends at
  once. The destructor that \<open>drop_fn_appele_si_future_non_consommee\<close> observes through a shared flag is
  observed here on a captured write buffer, whose destructor frees its slot.
\<close>

subsection \<open>Raw handles\<close>

text \<open>\<open>Task::get_rc\<close>, and \<open>Task::into_raw\<close> and \<open>from_raw\<close>, which move a handle in and out of an opaque
  pointer without touching the header.\<close>

definition get_rc :: "u64 \<Rightarrow> 'f runtime \<Rightarrow> u16 res" where
  "get_rc t rt = and_then (task_deref t (rt_heap rt)) (\<lambda>raw. Inr (ref_counter raw))"

datatype opaque = Opaque u64

definition into_raw :: "u64 \<Rightarrow> opaque" where "into_raw t = Opaque t"

definition from_raw :: "opaque \<Rightarrow> u64" where "from_raw raw = (case raw of Opaque t \<Rightarrow> t)"

definition check :: "bool \<Rightarrow> unit res" where
  "check b = assert_or Client_panic b"

definition check_rc :: "u64 \<Rightarrow> u16 \<Rightarrow> rt \<Rightarrow> unit res" where
  "check_rc t n rt = and_then (get_rc t rt) (\<lambda>rc. check (rc = n))"

subsection \<open>Tests of tasks\<close>

definition ready_future :: "frame env \<Rightarrow> rt \<Rightarrow> rt res" where
  "ready_future E rt =
     and_then (task_alloc E (async_block Done) rt) (\<lambda>(t, rt).
     and_then (task_poll (frame_poll E) t rt) (\<lambda>(ready, rt).
     and_then (check ready) (\<lambda>_.
     and_then (check_rc t 1 rt) (\<lambda>_.
     task_drop frame_drop t rt))))"

definition clone_bump_et_drop_dec :: "frame env \<Rightarrow> rt \<Rightarrow> rt res" where
  "clone_bump_et_drop_dec E rt =
     and_then (task_alloc E (async_block Done) rt) (\<lambda>(t1, rt).
     and_then (check_rc t1 1 rt) (\<lambda>_.
     and_then (task_clone t1 (rt_heap rt)) (\<lambda>(t2, h).
     let rt = rt\<lparr>rt_heap := h\<rparr> in
     and_then (check_rc t1 2 rt) (\<lambda>_.
     and_then (task_drop frame_drop t2 rt) (\<lambda>rt.
     and_then (check_rc t1 1 rt) (\<lambda>_.
     task_drop frame_drop t1 rt))))))"

definition into_raw_from_raw_preserves_rc :: "frame env \<Rightarrow> rt \<Rightarrow> rt res" where
  "into_raw_from_raw_preserves_rc E rt =
     and_then (task_alloc E (async_block Done) rt) (\<lambda>(t, rt).
     and_then (check_rc t 1 rt) (\<lambda>_.
     let raw = into_raw t in
     and_then (check_rc (case raw of Opaque p \<Rightarrow> p) 1 rt) (\<lambda>_.
     let t2 = from_raw raw in
     and_then (check_rc t2 1 rt) (\<lambda>_.
     task_drop frame_drop t2 rt))))"

definition drop_fn_appele_si_future_non_consommee :: "frame env \<Rightarrow> rt \<Rightarrow> rt res" where
  "drop_fn_appele_si_future_non_consommee E rt =
     and_then (alloc_write_buffer rt) (\<lambda>(probe, rt).
     and_then (task_alloc E \<lparr>fr_state = Start Forever, fr_locals = [(0, L_w probe)]\<rparr> rt) (\<lambda>(t, rt).
     and_then (check (w_abs_idx probe \<notin> set (write_free (rt_buffer rt)))) (\<lambda>_.
     and_then (task_drop frame_drop t rt) (\<lambda>rt.
     and_then (check (w_abs_idx probe \<in> set (write_free (rt_buffer rt)))) (\<lambda>_.
     Inr rt)))))"

subsection \<open>Tests of the slab\<close>

text \<open>A task of an empty \<open>async\<close> block inserted into a local slab, and the drop of that slab.\<close>

definition insert_new :: "frame env \<Rightarrow> slab \<Rightarrow> rt \<Rightarrow> (SlabIdx \<times> slab \<times> rt) res" where
  "insert_new E slab rt =
     and_then (task_alloc E (async_block Done) rt) (\<lambda>(t, rt).
     and_then (insert_task (env_slab_alloc E) t (rt_heap rt) slab) (\<lambda>(i, h, slab).
     Inr (i, slab, rt\<lparr>rt_heap := h\<rparr>)))"

definition drop_slab :: "slab \<Rightarrow> rt \<Rightarrow> rt res" where
  "drop_slab slab rt = fold_res (task_drop frame_drop) (slab_drop slab) rt"

definition simple_test :: "frame env \<Rightarrow> rt \<Rightarrow> rt res" where
  "simple_test E rt =
     and_then (with_capacity (env_slab_alloc E) 1) (\<lambda>slab.
     and_then (insert_new E slab rt) (\<lambda>(idx, slab, rt).
     and_then (check (idx = 0)) (\<lambda>_.
     and_then (slab_remove idx slab) (\<lambda>(task, slab).
     and_then (task_poll (frame_poll E) task rt) (\<lambda>(ready, rt).
     and_then (check ready) (\<lambda>_.
     and_then (task_drop frame_drop task rt) (drop_slab slab)))))))"

definition free_list_reuse :: "frame env \<Rightarrow> rt \<Rightarrow> rt res" where
  "free_list_reuse E rt =
     and_then (with_capacity (env_slab_alloc E) 2) (\<lambda>slab.
     and_then (insert_new E slab rt) (\<lambda>(i0, slab, rt).
     and_then (insert_new E slab rt) (\<lambda>(i1, slab, rt).
     and_then (check (i0 = 0)) (\<lambda>_.
     and_then (check (i1 = 1)) (\<lambda>_.
     and_then (slab_remove i0 slab) (\<lambda>(task, slab).
     and_then (task_drop frame_drop task rt) (\<lambda>rt.
     and_then (insert_new E slab rt) (\<lambda>(i2, slab, rt).
     and_then (check (i2 = 0)) (\<lambda>_.
     drop_slab slab rt)))))))))"

definition growth_test :: "frame env \<Rightarrow> rt \<Rightarrow> rt res" where
  "growth_test E rt =
     and_then (with_capacity (env_slab_alloc E) 2) (\<lambda>slab.
     and_then (insert_new E slab rt) (\<lambda>(i0, slab, rt).
     and_then (insert_new E slab rt) (\<lambda>(i1, slab, rt).
     and_then (insert_new E slab rt) (\<lambda>(i2, slab, rt).
     and_then (check (i2 = 2)) (\<lambda>_.
     and_then (check (slab_len slab = 4)) (\<lambda>_.
     drop_slab slab rt))))))"

subsection \<open>The runs\<close>

text \<open>What an allocation gives a test.\<close>

definition can_alloc :: "frame env \<Rightarrow> rt \<Rightarrow> bool" where
  "can_alloc E rt \<longleftrightarrow> (\<exists>t p. task_new (fst (env_layout E (async_block Done))) (snd (env_layout E (async_block Done)))
       (async_block Done) = Inr t \<and> env_malloc E (\<lambda>p. rt_heap rt p \<noteq> None) (alloc_size t) = Some p)"

lemma task_alloc_test:
  assumes "env_ok E" "can_alloc E rt"
  shows "\<exists>t p. rt_heap rt p = None \<and> slot_is_task p \<and>
    task_fut t = async_block Done \<and> ref_counter t = 1 \<and> slab_idx t = None \<and>
    task_alloc E (async_block Done) rt = Inr (p, rt\<lparr>rt_heap := (rt_heap rt)(p \<mapsto> t)\<rparr>)"
proof -
  obtain t p where t: "task_new (fst (env_layout E (async_block Done))) (snd (env_layout E (async_block Done)))
       (async_block Done) = Inr t" and p: "env_malloc E (\<lambda>p. rt_heap rt p \<noteq> None) (alloc_size t) = Some p"
    using assms(2) by (auto simp: can_alloc_def)
  have "task_fut t = async_block Done \<and> ref_counter t = 1 \<and> slab_idx t = None"
    using t by (auto simp: task_new_def and_then_eq_Inr assert_or_eq_Inr split: prod.splits)
  with t p env_mallocD [OF assms(1) p] show ?thesis by (auto simp: task_alloc_def split: prod.split)
qed

lemmas eval_task_tests = check_def check_rc_def get_rc_def task_deref_def task_poll_def task_poll_with_def frame_poll_def
  task_drop_def task_release_def frame_drop_def drop_locals_def async_block_def task_clone_def task_update_def
  inc_rc_eq sub_ovf_def checked_add_def add_ovf_def Let_def

lemma task_tests_run:
  assumes "env_ok E" "can_alloc E rt"
  shows "\<exists>rt'. ready_future E rt = Inr rt' \<and> rt_heap rt' = rt_heap rt"
    and "\<exists>rt'. clone_bump_et_drop_dec E rt = Inr rt' \<and> rt_heap rt' = rt_heap rt"
    and "\<exists>rt'. into_raw_from_raw_preserves_rc E rt = Inr rt' \<and> rt_heap rt' = rt_heap rt"
proof -
  obtain t p where t: "rt_heap rt p = None" "task_fut t = async_block Done" "ref_counter t = 1" "slab_idx t = None"
    "task_alloc E (async_block Done) rt = Inr (p, rt\<lparr>rt_heap := (rt_heap rt)(p \<mapsto> t)\<rparr>)"
    using task_alloc_test [OF assms] by blast
  note t' = t [unfolded async_block_def]
  have heap: "(rt_heap rt)(p := None) = rt_heap rt" using t(1) by auto
  show "\<exists>rt'. ready_future E rt = Inr rt' \<and> rt_heap rt' = rt_heap rt"
    using t' heap by (simp add: ready_future_def eval_task_tests)
  show "\<exists>rt'. clone_bump_et_drop_dec E rt = Inr rt' \<and> rt_heap rt' = rt_heap rt"
    using t' heap by (simp add: clone_bump_et_drop_dec_def eval_task_tests)
  show "\<exists>rt'. into_raw_from_raw_preserves_rc E rt = Inr rt' \<and> rt_heap rt' = rt_heap rt"
    using t' heap by (simp add: into_raw_from_raw_preserves_rc_def into_raw_def from_raw_def eval_task_tests)
qed

lemma eval_more_slots:
  "free_slot 0 = 1" "free_slot 3 = 7" "free_slot 4 = 9" "slot_is_free 1" "slot_is_free 7" "slot_is_free 9"
  "slot_link 1 = 0" "slot_link 7 = 3" "slot_link 9 = 4" "\<not> slot_is_free 0x3000" "\<not> slot_is_task 1" "\<not> slot_is_task 3"
  "\<not> slot_is_task 5" "\<not> slot_is_task 7" "\<not> slot_is_task 9"
  by code_simp+

lemmas eval_slab_tests = eval_demo eval_more_slots slab_remove_def with_capacity_def growth_def insert_new_def drop_slab_def slab_drop_def slot_drop_def check_def
  checked_mul_def

lemma drop_fn_run: "\<exists>rt. drop_fn_appele_si_future_non_consommee demo_env demo_rt = Inr rt \<and> rt_heap rt = Map.empty"
  by (simp add: drop_fn_appele_si_future_non_consommee_def eval_slab_tests demo_pool_def drop_local_def)

lemma simple_test_run: "\<exists>rt. simple_test demo_env demo_rt = Inr rt \<and> rt_heap rt = Map.empty"
  by (simp add: simple_test_def eval_slab_tests)

lemma free_list_reuse_run: "\<exists>rt. free_list_reuse demo_env demo_rt = Inr rt \<and> rt_heap rt = Map.empty"
  by (simp add: free_list_reuse_def eval_slab_tests)

lemma growth_test_run: "\<exists>rt. growth_test demo_env demo_rt = Inr rt \<and> rt_heap rt = Map.empty"
  by (simp add: growth_test_def eval_slab_tests)

end
