(* ===== verification/Progress.thy ===== *)
theory Progress
  imports Client
begin

text \<open>
  Why the event loop ends. The bodies of \<open>Client\<close> are well-founded trees, so there is an order on
  suspended bodies in which every delivered completion moves a task down: it resumes the body into a
  continuation, advances a leaf future to its next state, or counts down a fan-out. A spawned child
  starts below its parent. The order on bodies gives one on the multiset of all live bodies; a
  completion that delivers nothing takes an entry out of flight instead.

  The future of \<open>connect\<close> is left out: given file slot 0 it submits the connect again and again.
\<close>

subsection \<open>The order on bodies\<close>

text \<open>The bodies a body can continue with after its first operation.\<close>

primrec kids :: "prog \<Rightarrow> prog set" where
  "kids Done = {}"
| "kids Crash = {}"
| "kids Forever = {}"
| "kids (Accept fd k) = range k"
| "kids (Read fd j k) = range k"
| "kids (Accept_stream i fd k) = {k}"
| "kids (Accept_next i k) = range k"
| "kids (Read_stream i fd k) = {k}"
| "kids (Read_next i j k) = range k"
| "kids (Commit i len k) = range k"
| "kids (Write fd b len k) = range k"
| "kids (Connect ip port a k) = range k"
| "kids (Alloc_write i k) = {k}"
| "kids (Clone_write i j k) = {k}"
| "kids (Write_multiple i fds len k) = range k"
| "kids (Drop_local i k) = {k}"
| "kids (Spawn moved child k) = {child, k}"

definition later :: "(prog set \<times> prog set) set" where
  "later = {(kids p, S) |p S. p \<in> S}"

lemma later_kids: "p \<in> S \<Longrightarrow> (kids p, S) \<in> later"
  by (auto simp: later_def)

lemma later_accI: "(\<And>p. p \<in> S \<Longrightarrow> kids p \<in> Wellfounded.acc later) \<Longrightarrow> S \<in> Wellfounded.acc later"
  by (rule accI) (auto simp: later_def)

lemma wf_later: "wf later"
proof -
  have "kids p \<in> Wellfounded.acc later" for p
    by (induction p; rule later_accI) auto
  then show ?thesis by (auto intro: later_accI simp: wf_iff_acc)
qed

lemma later_single: "(X, {p}) \<in> later\<^sup>+ \<Longrightarrow> p \<in> S \<Longrightarrow> (X, S) \<in> later\<^sup>+"
  by (erule trancl.cases) (auto simp: later_def intro: trancl_into_trancl)

lemma later_kid: "(X, {p'}) \<in> later\<^sup>+ \<Longrightarrow> p' \<in> kids p \<Longrightarrow> (X, {p}) \<in> later\<^sup>+"
  using later_single [of X p' "kids p"] later_kids [of p "{p}"] by (auto intro: trancl_into_trancl)

text \<open>The continuations of a suspended body, and how often its leaf can be polled before it yields.\<close>

primrec conts :: "awaiting \<Rightarrow> prog set" where
  "conts Aw_forever = {}"
| "conts (Aw_accept f k) = range k"
| "conts (Aw_read f j k) = range k"
| "conts (Aw_accept_next i k) = range k"
| "conts (Aw_read_next i j k) = range k"
| "conts (Aw_commit b f k) = range k"
| "conts (Aw_write f k) = range k"
| "conts (Aw_connect a f k) = range k"
| "conts (Aw_write_multiple f k) = range k"

definition stream_polls :: "local_value option \<Rightarrow> nat" where
  "stream_polls l =
     (case l of
        Some (L_accept s) \<Rightarrow> if as_state s = SS_Init then 1 else 0
      | Some (L_read s) \<Rightarrow> if rs_state s = SS_Init then 1 else 0
      | _ \<Rightarrow> 0)"

primrec polls_left :: "locals \<Rightarrow> awaiting \<Rightarrow> nat" where
  "polls_left ls Aw_forever = 0"
| "polls_left ls (Aw_accept f k) = (case f of AF_Pending fd \<Rightarrow> 1 | AF_Submited \<Rightarrow> 0)"
| "polls_left ls (Aw_read f j k) = (case f of RF_Init fd \<Rightarrow> 1 | RF_Pending fd \<Rightarrow> 0)"
| "polls_left ls (Aw_accept_next i k) = stream_polls (map_of ls i)"
| "polls_left ls (Aw_read_next i j k) = stream_polls (map_of ls i)"
| "polls_left ls (Aw_commit b f k) = (case f of CF_Init p i fd len \<Rightarrow> 1 | CF_Pending i \<Rightarrow> 0)"
| "polls_left ls (Aw_write f k) = (case f of WF_Init fd b len \<Rightarrow> 1 | WF_Pending \<Rightarrow> 0)"
| "polls_left ls (Aw_connect a f k) = 0"
| "polls_left ls (Aw_write_multiple f k) =
     (case f of WM_Init fds b len \<Rightarrow> 65536 | WM_Pending s \<Rightarrow> unat (wm_in_fligth_count s) | WM_Poisoned \<Rightarrow> 0)"

definition rank_of :: "frame \<Rightarrow> prog set \<times> nat" where
  "rank_of fr =
     (case fr_state fr of
        Start p \<Rightarrow> ({p}, 0)
      | Await a \<Rightarrow> (conts a, polls_left (fr_locals fr) a)
      | Stopped \<Rightarrow> ({}, 0))"

definition frame_less :: "(frame \<times> frame) set" where
  "frame_less = inv_image (later\<^sup>+ <*lex*> less_than) rank_of"

lemma wf_frame_less: "wf frame_less"
  by (simp add: frame_less_def wf_later wf_trancl wf_inv_image wf_lex_prod)

text \<open>Bodies without \<open>connect\<close>.\<close>

primrec connectless :: "prog \<Rightarrow> bool" where
  "connectless Done \<longleftrightarrow> True"
| "connectless Crash \<longleftrightarrow> True"
| "connectless Forever \<longleftrightarrow> True"
| "connectless (Accept fd k) \<longleftrightarrow> (\<forall>v. connectless (k v))"
| "connectless (Read fd j k) \<longleftrightarrow> (\<forall>v. connectless (k v))"
| "connectless (Accept_stream i fd k) \<longleftrightarrow> connectless k"
| "connectless (Accept_next i k) \<longleftrightarrow> (\<forall>v. connectless (k v))"
| "connectless (Read_stream i fd k) \<longleftrightarrow> connectless k"
| "connectless (Read_next i j k) \<longleftrightarrow> (\<forall>v. connectless (k v))"
| "connectless (Commit i len k) \<longleftrightarrow> (\<forall>v. connectless (k v))"
| "connectless (Write fd b len k) \<longleftrightarrow> (\<forall>v. connectless (k v))"
| "connectless (Connect ip port a k) \<longleftrightarrow> False"
| "connectless (Alloc_write i k) \<longleftrightarrow> connectless k"
| "connectless (Clone_write i j k) \<longleftrightarrow> connectless k"
| "connectless (Write_multiple i fds len k) \<longleftrightarrow> (\<forall>v. connectless (k v))"
| "connectless (Drop_local i k) \<longleftrightarrow> connectless k"
| "connectless (Spawn moved child k) \<longleftrightarrow> connectless child \<and> connectless k"

definition quiet :: "frame \<Rightarrow> bool" where
  "quiet fr \<longleftrightarrow> (\<forall>p \<in> fst (rank_of fr). connectless p) \<and>
     (\<forall>a f k. fr_state fr \<noteq> Await (Aw_connect a f k))"

text \<open>A body further down than the continuations in \<open>S\<close>.\<close>

definition lower :: "prog set \<Rightarrow> frame \<Rightarrow> bool" where
  "lower S fr \<longleftrightarrow> (fst (rank_of fr), S) \<in> later\<^sup>+ \<and> ((\<forall>p \<in> S. connectless p) \<longrightarrow> quiet fr)"

lemma connectless_kids: "connectless p \<Longrightarrow> p' \<in> kids p \<Longrightarrow> connectless p'"
  by (cases p) auto

lemma lower_single: "lower {p} fr \<Longrightarrow> p \<in> S \<Longrightarrow> lower S fr"
  unfolding lower_def using later_single by blast

lemma lower_kid: "lower {p'} fr \<Longrightarrow> p' \<in> kids p \<Longrightarrow> lower {p} fr"
  unfolding lower_def using later_kid connectless_kids by blast

lemma lower_self: "rank_of fr = (kids p, n) \<Longrightarrow> (connectless p \<Longrightarrow> quiet fr) \<Longrightarrow> lower {p} fr"
  unfolding lower_def using later_kids [of p "{p}"] by auto

lemma lower_less: "lower (fst (rank_of g)) f \<Longrightarrow> (f, g) \<in> frame_less"
  by (cases "rank_of f"; cases "rank_of g") (simp add: lower_def frame_less_def)

subsection \<open>The live bodies\<close>

definition futs :: "'f runtime \<Rightarrow> u64 \<Rightarrow> 'f option" where
  "futs rt q = map_option task_fut (rt_heap rt q)"

text \<open>Nothing happened to the live bodies, except for new ones below \<open>S\<close>.\<close>

definition adds :: "prog set \<Rightarrow> rt \<Rightarrow> rt \<Rightarrow> bool" where
  "adds S rt rt' \<longleftrightarrow>
     (\<forall>q f. futs rt q = Some f \<longrightarrow> futs rt' q = Some f) \<and>
     (\<forall>q f. futs rt q = None \<longrightarrow> futs rt' q = Some f \<longrightarrow> lower S f)"

lemma adds_same: "futs rt' = futs rt \<Longrightarrow> adds S rt rt'"
  by (simp add: adds_def)

lemma adds_trans: "adds S a b \<Longrightarrow> adds S b c \<Longrightarrow> adds S a c"
  unfolding adds_def by (metis not_None_eq)

lemma adds_single: "adds {p} a b \<Longrightarrow> p \<in> S \<Longrightarrow> adds S a b"
  unfolding adds_def using lower_single by blast

lemma adds_kid: "adds {p'} a b \<Longrightarrow> p' \<in> kids p \<Longrightarrow> adds {p} a b"
  unfolding adds_def using lower_kid by blast

text \<open>Results that leave the live bodies alone.\<close>

definition calm :: "'f runtime \<Rightarrow> ('a \<Rightarrow> 'f runtime) \<Rightarrow> 'a res \<Rightarrow> bool" where
  "calm rt sel r \<longleftrightarrow> (\<forall>x. r = Inr x \<longrightarrow> futs (sel x) = futs rt)"

named_theorems calm_intros \<open>operations that leave the live bodies alone\<close>

lemma calm_and_then:
  "calm rt sel m \<Longrightarrow> (\<And>x. m = Inr x \<Longrightarrow> calm (sel x) sel' (f x)) \<Longrightarrow> calm rt sel' (and_then m f)"
  by (auto simp: calm_def res_simps)

lemma calm_Inr [simp]: "calm rt sel (Inr x) \<longleftrightarrow> futs (sel x) = futs rt"
  by (simp add: calm_def)

lemma calm_Inl [simp]: "calm rt sel (Inl e)"
  by (simp add: calm_def)

lemma futs_unseen: "unseen rt rt' \<Longrightarrow> futs rt' = futs rt"
  by (simp add: futs_def unseen_def fun_eq_iff)

lemma futs_update [simp]: "rt_heap rt p = Some t \<Longrightarrow>
    futs (rt\<lparr>rt_heap := (rt_heap rt)(p \<mapsto> t')\<rparr>) = (futs rt)(p \<mapsto> task_fut t')"
  by (simp add: futs_def fun_eq_iff)

lemma futs_simps [simp]:
  "futs (rt\<lparr>rt_pending := x\<rparr>) = futs rt" "futs (rt\<lparr>rt_current := y\<rparr>) = futs rt"
  "futs (rt\<lparr>rt_buffer := b\<rparr>) = futs rt" "futs (rt\<lparr>rt_tasks := s\<rparr>) = futs rt"
  "futs (rt\<lparr>rt_free_list := l\<rparr>) = futs rt" "futs (rt\<lparr>rt_buf_ring := r\<rparr>) = futs rt"
  "futs (rt\<lparr>rt_wake_list := w\<rparr>) = futs rt"
  "futs (sqe_queue_push e rt) = futs rt" "futs (set_current_task_multiple c rt) = futs rt"
  by (simp_all add: futs_def fun_eq_iff sqe_queue_push_def set_current_task_multiple_def Let_def)

lemma task_update_futs:
  assumes "task_update p f h = Inr h'" "\<And>t t'. f t = Inr t' \<Longrightarrow> task_fut t' = task_fut t"
  shows "map_option task_fut (h' q) = map_option task_fut (h q)"
  using assms by (auto simp: task_update_def task_deref_def res_simps split: option.splits)

lemma futs_headers:
  "inc_rc t = Inr t' \<Longrightarrow> task_fut t' = task_fut t" "add_rc n t = Inr t' \<Longrightarrow> task_fut t' = task_fut t"
  "augmente_syscall_nb t = Inr t' \<Longrightarrow> task_fut t' = task_fut t" "task_fut (set_multishot t) = task_fut t"
  by (auto simp: inc_rc_def add_rc_def augmente_syscall_nb_def set_multishot_def res_simps)

lemma calm_with_task:
  assumes "\<And>t t'. f t = Inr t' \<Longrightarrow> task_fut t' = task_fut t"
  shows "calm rt id (with_task i f rt)"
  using task_update_futs [OF _ assms] by (auto simp: calm_def with_task_def res_simps futs_def fun_eq_iff)

lemma calm_headers [calm_intros]:
  "calm rt id (with_task i inc_rc rt)" "calm rt id (with_task i (add_rc n) rt)"
  "calm rt id (with_task i augmente_syscall_nb rt)" "calm rt id (with_task i (\<lambda>t. Inr (set_multishot t)) rt)"
  by (auto intro!: calm_with_task simp: futs_headers)

lemma calm_unseen: "(\<And>x. r = Inr x \<Longrightarrow> unseen rt (sel x)) \<Longrightarrow> calm rt sel r"
  by (auto simp: calm_def dest: futs_unseen)

lemma calm_buffers: "buffers_only rt r \<Longrightarrow> calm rt id r"
  by (rule calm_unseen) (simp add: buffers_only_def)

lemma calm_push: "calm rt id m \<Longrightarrow> calm rt id (and_then m (\<lambda>rt. Inr (sqe_queue_push (e rt) rt)))"
  by (rule calm_and_then [where sel = id]) auto

lemma calm_submit:
  "futs rt1 = futs rt \<Longrightarrow> calm rt id (and_then (with_task i inc_rc rt1) (\<lambda>rt. Inr (sqe_queue_push (e rt) rt)))"
  using calm_push [OF calm_headers(1), of rt1 i e] by (simp add: calm_def)

lemma calm_sends [calm_intros]:
  "calm rt id (send_read fd rt)" "calm rt id (send_accept lfd rt)" "calm rt id (send_write fd b len rt)"
  "calm rt id (send_connect fd a n rt)" "calm rt id (send_socket rt)"
  "calm rt id (send_commit_write p fd len b rt)"
  unfolding send_read_def send_accept_def send_write_def send_connect_def send_socket_def
    send_commit_write_def Let_def
  by (rule calm_submit, simp)+

lemma calm_drop_wbuffer [calm_intros]: "calm rt id (drop_wbuffer w rt)"
  by (rule calm_unseen) (auto simp: drop_wbuffer_def dest: on_pool_unseen)

lemma calm_multishot [calm_intros]:
  "calm rt id (send_recv_multishot fd rt)" "calm rt id (send_accept_multishot lfd rt)"
proof -
  have *: "calm rt id (and_then (with_task i (\<lambda>t. Inr (set_multishot t)) (set_current_task_multiple True rt)) (\<lambda>rt.
      and_then (with_task (cur_idx rt) inc_rc rt) (\<lambda>rt. Inr (sqe_queue_push e rt))))" for i e
    using calm_and_then [OF calm_headers(4) [of "set_current_task_multiple True rt" i] calm_push [OF calm_headers(1)]]
    by (auto simp: calm_def)
  then show "calm rt id (send_recv_multishot fd rt)" "calm rt id (send_accept_multishot lfd rt)"
    by (simp_all add: send_recv_multishot_def send_accept_multishot_def Let_def)
qed

lemma calm_multiple_write [calm_intros]: "calm rt id (send_multiple_write fds w len rt)"
proof -
  have "calm rt id (send_writes ud w len 0 fds rt)" for ud
    by (auto simp: calm_def dest!: send_writes_stages)
  then show ?thesis
    unfolding send_multiple_write_def Let_def
    by (auto intro!: calm_and_then [where sel = id] calm_headers calm_drop_wbuffer)
qed

lemma calm_leaf: "calm rt id m \<Longrightarrow> calm rt (snd \<circ> snd) (and_then m (\<lambda>rt. Inr (a rt, b rt, rt)))"
  by (rule calm_and_then [where sel = id]) auto

lemma calm_release [calm_intros]: "calm rt id (release_read_buf i rt)"
  by (rule calm_unseen) (auto dest: release_read_buf_unseen)

lemma calm_clone [calm_intros]: "calm rt id (clone_wbuffer w rt)" "calm rt snd (alloc_write_buffer rt)"
  by (auto simp: calm_def clone_wbuffer_def alloc_write_buffer_def res_simps dest!: on_pool_unseen futs_unseen)

lemma calm_polls [calm_intros]:
  "calm rt (snd \<circ> snd) (accept_poll fa rt)" "calm rt (snd \<circ> snd) (write_poll fw rt)"
  "calm rt (snd \<circ> snd) (commit_poll fc rt)" "calm rt (snd \<circ> snd) (socket_poll a fs rt)"
  "calm rt (snd \<circ> snd) (accept_poll_next E sa rt)"
  unfolding accept_poll_def write_poll_def commit_poll_def socket_poll_def accept_poll_next_def Let_def
  by (auto intro!: calm_leaf calm_intros split: AcceptFuture.split WriteFuture.split CommitFuture.split
      SocketFuture.split stream_state.split)

lemma calm_read_polls [calm_intros]:
  "calm rt (snd \<circ> snd) (read_poll E fr rt)" "calm rt (snd \<circ> snd) (read_poll_next E sr rt)"
  unfolding read_poll_def read_poll_next_def Let_def
  by (auto intro!: calm_leaf calm_intros simp: calm_def [of _ _ "and_then (expect _ _) _"] res_simps
      split: ReadFuture.split stream_state.split option.split)

lemma calm_write_multiple [calm_intros]: "calm rt (snd \<circ> snd) (write_multiple_poll fm rt)"
proof (cases fm)
  case (WM_Init fds b len)
  then show ?thesis unfolding write_multiple_poll_def
    by (auto intro!: calm_leaf calm_and_then [where sel = id] calm_intros)
next
  case (WM_Pending s)
  have "futs r = futs rt" if "advance_syscall_nb t rt = Inr r" for t r
    using calm_headers(3) [of rt "tag_task_idx t"] that by (simp add: advance_syscall_nb_def calm_def)
  then show ?thesis unfolding write_multiple_poll_def
    by (auto simp: WM_Pending calm_def res_simps Let_def split: if_splits)
qed (simp add: write_multiple_poll_def)

subsection \<open>Polling moves a body down\<close>

text \<open>A run of \<open>p\<close>: it ends below \<open>p\<close>, and so do the children it leaves.\<close>

definition descends :: "prog set \<Rightarrow> rt \<Rightarrow> step_result \<Rightarrow> bool" where
  "descends S rt r \<longleftrightarrow> (\<forall>fr b rt'. r = Inr (fr, b, rt') \<longrightarrow> adds S rt rt' \<and> lower S fr)"

lemma descends_Inl [simp]: "descends S rt (Inl e)"
  by (simp add: descends_def)

lemma descends_value: "lower S fr \<Longrightarrow> descends S rt (Inr (fr, b, rt))"
  by (simp add: descends_def adds_same)

lemma descends_single: "descends {p} rt r \<Longrightarrow> p \<in> S \<Longrightarrow> descends S rt r"
  unfolding descends_def by (metis adds_single lower_single)

lemma descends_kid: "descends {p'} rt r \<Longrightarrow> p' \<in> kids p \<Longrightarrow> descends {p} rt r"
  unfolding descends_def by (metis adds_kid lower_kid)

lemma descends_calm:
  assumes "calm rt sel m" "\<And>x. m = Inr x \<Longrightarrow> descends S (sel x) (f x)"
  shows "descends S rt (and_then m f)"
  using assms unfolding descends_def calm_def adds_def by (fastforce simp: res_simps)

lemma descends_adds:
  assumes "\<And>x. m = Inr x \<Longrightarrow> adds S rt x" "\<And>x. m = Inr x \<Longrightarrow> descends S x (f x)"
  shows "descends S rt (and_then m f)"
  using assms adds_trans unfolding descends_def by (fastforce simp: res_simps)

lemma descends_buffers:
  "buffers_only rt m \<Longrightarrow> (\<And>rt'. descends S rt' (f rt')) \<Longrightarrow> descends S rt (and_then m f)"
  by (rule descends_calm [OF calm_buffers]) auto

lemma calm_assign: "calm rt snd (assign i l ls rt)"
  unfolding assign_def
  by (rule calm_and_then [where sel = id])
    (auto intro!: calm_buffers intro: buffers_only_drop_local split: option.split)

lemma descends_assign:
  "(\<And>ls rt'. descends S rt' (go ls rt')) \<Longrightarrow> descends S rt (and_then (assign i l ls rt) (\<lambda>(ls, rt). go ls rt))"
  by (rule descends_calm [OF calm_assign]) auto

lemma descends_bind_buffer:
  "(\<And>n ls rt'. descends S rt' (go n ls rt')) \<Longrightarrow> descends S rt (bind_buffer j b ls rt go)"
  unfolding bind_buffer_def using descends_assign [of S "go (rw_bytes b)" rt j "L_rw b" ls] by simp

lemma descends_read_done:
  "(\<And>v ls rt'. descends S rt' (go v ls rt')) \<Longrightarrow> descends S rt (read_done j v ls rt go)"
  by (cases v) (simp_all add: read_done_def descends_bind_buffer)

text \<open>Polling a leaf: suspend on it, or go on below.\<close>

lemma descends_await_leaf:
  assumes "calm rt (snd \<circ> snd) m" "\<And>leaf. lower S \<lparr>fr_state = Await (wrap leaf), fr_locals = ls\<rparr>"
    and "\<And>leaf v rt'. descends S rt' (go leaf v rt')"
  shows "descends S rt (await_leaf m wrap ls go)"
  unfolding await_leaf_def
  by (rule descends_calm [OF assms(1)])
    (use assms(2,3) in \<open>auto intro!: descends_value split: poll_result.split\<close>)

lemma descends_accept_next:
  assumes "\<And>ls. lower S \<lparr>fr_state = Await (Aw_accept_next i k), fr_locals = ls\<rparr>"
    and "\<And>v ls rt'. descends S rt' (go v ls rt')"
  shows "descends S rt (poll_accept_next E i k go ls rt)"
  unfolding poll_accept_next_def
  by (auto split: option.split local_value.split intro!: descends_calm [OF calm_polls(5)])
    (use assms in \<open>auto simp: Let_def intro!: descends_value split: poll_result.split\<close>)

lemma descends_read_next:
  assumes "\<And>ls. lower S \<lparr>fr_state = Await (Aw_read_next i j k), fr_locals = ls\<rparr>"
    and "\<And>v ls rt'. descends S rt' (go v ls rt')"
  shows "descends S rt (poll_read_next E i j k go ls rt)"
  unfolding poll_read_next_def
  by (auto split: option.split local_value.split intro!: descends_calm [OF calm_read_polls(2)])
    (use assms in \<open>auto simp: Let_def intro!: descends_value descends_bind_buffer
      split: poll_result.split option.split\<close>)

subsection \<open>Spawning, running, resuming\<close>

lemma task_drop_futs:
  assumes "task_drop frame_drop p rt = Inr rt'"
  shows "(futs rt' = futs rt \<or> futs rt' = (futs rt)(p := None)) \<and> rt_pending rt' = rt_pending rt"
proof -
  from assms obtain t c where t: "rt_heap rt p = Some t" "sub_ovf (ref_counter t) 1 = Inr c"
    by (auto simp: task_drop_def task_release_def task_deref_def res_simps split: option.splits)
  let ?rt = "rt\<lparr>rt_heap := (rt_heap rt)(p \<mapsto> t\<lparr>ref_counter := c\<rparr>)\<rparr>"
  have same: "futs ?rt = futs rt" using t(1) by (auto simp: futs_def fun_eq_iff)
  show ?thesis
  proof (cases "c = 0")
    case True
    with assms t obtain r where r: "frame_drop (task_fut t) ?rt = Inr r"
      and "rt_heap rt' = (rt_heap r)(p := None)" and pending: "rt_pending rt' = rt_pending r"
      by (cases "frame_drop (task_fut t) ?rt")
        (auto simp: task_drop_def task_release_def task_deref_def Let_def split: option.splits)
    then have rt': "futs rt' = (futs r)(p := None)" by (auto simp: futs_def fun_eq_iff)
    from r have "unseen ?rt r" using frame_drop_ok by (auto simp: drop_ok_def)
    then have "futs r = futs ?rt" "rt_pending r = rt_pending rt" by (simp_all add: futs_unseen unseen_def)
    with rt' pending same show ?thesis by simp
  next
    case False
    with assms t have "rt' = ?rt"
      by (auto simp: task_drop_def task_release_def task_deref_def res_simps Let_def split: option.splits)
    with same show ?thesis by simp
  qed
qed

lemma spawn_insert_futs:
  assumes "env_ok E" "spawn_insert E fut rt = Inr (p, old, rt')"
  shows "futs rt p = None" "futs rt' = (futs rt)(p \<mapsto> fut)"
proof -
  obtain t h s i where t: "task_fut t = fut" "rt_heap rt p = None"
    and h: "task_update p inc_rc ((rt_heap rt)(p \<mapsto> t)) = Inr h"
    and i: "task_update p (\<lambda>t. Inr (set_task_idx i t)) h = Inr (rt_heap rt')"
    using assms env_mallocD [OF assms(1)]
    by (auto simp: spawn_insert_def task_alloc_def task_clone_def insert_task_def res_simps Let_def
        dest!: task_newD split: prod.splits) blast
  show "futs rt p = None" using t(2) by (simp add: futs_def)
  have "map_option task_fut (rt_heap rt' q) = map_option task_fut (h q)" for q
    by (rule task_update_futs [OF i]) (auto simp: set_task_idx_def)
  moreover have "map_option task_fut (h q) = map_option task_fut (((rt_heap rt)(p \<mapsto> t)) q)" for q
    by (rule task_update_futs [OF h]) (rule futs_headers)
  ultimately show "futs rt' = (futs rt)(p \<mapsto> fut)" using t(1) by (auto simp: futs_def fun_eq_iff)
qed

lemma adds_started:
  assumes "futs a p = None" "futs a1 = (futs a)(p \<mapsto> f)" "adds S a1 b" "lower S g"
    and "futs c = (futs b)(p \<mapsto> g) \<or> futs c = (futs b)(p := None)"
  shows "adds S a c"
  unfolding adds_def
proof (intro conjI allI impI)
  fix q g assume "futs a q = Some g"
  with assms(1,2) have "q \<noteq> p" "futs a1 q = Some g" by auto
  then show "futs c q = Some g" using assms(3,5) by (auto simp: adds_def)
next
  fix q g' assume q: "futs a q = None" "futs c q = Some g'"
  show "lower S g'"
  proof (cases "q = p")
    case False
    then have "futs a1 q = None" "futs b q = Some g'" using q assms(2,5) by auto
    then show ?thesis using assms(3) by (auto simp: adds_def)
  qed (use q assms(4,5) in auto)
qed

lemma adds_spawn_run:
  assumes E: "env_ok E" and body: "\<And>rt. descends {child} rt (body rt)"
    and res: "spawn_run E body frame_drop fut rt = Inr rt'"
  shows "adds {child} rt rt'"
proof -
  from res obtain p old rt1 fr b rt2 t rt3 where
    ins: "spawn_insert E fut rt = Inr (p, old, rt1)" and poll: "body rt1 = Inr (fr, b, rt2)"
    and t: "rt_heap rt2 p = Some t"
    and d1: "task_drop frame_drop p (rt2\<lparr>rt_heap := (rt_heap rt2)(p \<mapsto> t\<lparr>task_fut := fr\<rparr>)\<rparr>) = Inr rt3"
    and d2: "task_drop frame_drop p (rt3\<lparr>rt_current := old\<rparr>) = Inr rt'"
    by (auto simp: spawn_run_def task_poll_with_def spawn_finish_eq task_deref_def res_simps split: option.splits)
  have fresh: "futs rt p = None" "futs rt1 = (futs rt)(p \<mapsto> fut)" by (rule spawn_insert_futs [OF E ins])+
  have low: "adds {child} rt1 rt2" "lower {child} fr" using body [of rt1] poll by (simp_all add: descends_def)
  have "futs rt' = (futs rt2)(p \<mapsto> fr) \<or> futs rt' = (futs rt2)(p := None)"
    using task_drop_futs [OF d1] task_drop_futs [OF d2] t by auto
  then show ?thesis by (rule adds_started [OF fresh low])
qed

lemma rank_of_await [simp]:
  "rank_of \<lparr>fr_state = Await a, fr_locals = ls\<rparr> = (conts a, polls_left ls a)"
  "rank_of \<lparr>fr_state = Stopped, fr_locals = ls\<rparr> = ({}, 0)"
  "rank_of \<lparr>fr_state = Start p, fr_locals = ls\<rparr> = ({p}, 0)"
  by (simp_all add: rank_of_def)

lemma descends_cont:
  assumes "\<And>p' rt ls. p' \<in> range k \<Longrightarrow> descends {p'} rt (run E p' ls rt)" "range k \<subseteq> kids p"
  shows "descends {p} rt (run E (k v) ls rt)"
  by (rule descends_kid [OF assms(1)]) (use assms(2) in auto)

lemma descends_seq:
  "(\<And>rt ls. descends {k} rt (run E k ls rt)) \<Longrightarrow> k \<in> kids p \<Longrightarrow> descends {p} rt (run E k ls rt)"
  by (rule descends_kid)

lemma descends_run:
  assumes E: "env_ok E"
  shows "descends {p} rt (run E p ls rt)"
proof (induction p arbitrary: ls rt)
  case Done
  then show ?case
    by (auto intro!: descends_buffers buffers_only_drop_locals descends_value lower_self simp: quiet_def)
next
  case Forever
  then show ?case by (auto intro!: descends_value lower_self simp: quiet_def)
next
  case (Accept fd k)
  then show ?case
    by (auto intro!: descends_await_leaf calm_intros lower_self simp: quiet_def intro: descends_cont)
next
  case (Read fd j k)
  then show ?case
    by (auto intro!: descends_await_leaf calm_intros lower_self descends_read_done simp: quiet_def
        intro: descends_cont)
next
  case (Accept_stream i fd k)
  then show ?case by (auto intro!: descends_assign intro: descends_seq)
next
  case (Accept_next i k)
  then show ?case by (auto intro!: descends_accept_next lower_self simp: quiet_def intro: descends_cont)
next
  case (Read_stream i fd k)
  then show ?case by (auto intro!: descends_assign intro: descends_seq)
next
  case (Read_next i j k)
  then show ?case by (auto intro!: descends_read_next lower_self simp: quiet_def intro: descends_cont)
next
  case (Commit i len k)
  then show ?case
    by (auto simp: rwbuffer_commit_def quiet_def split: option.split local_value.split
        intro!: descends_await_leaf calm_intros lower_self descends_buffers buffers_only_drops intro: descends_cont)
next
  case (Write fd b len k)
  then show ?case
    by (auto intro!: descends_await_leaf calm_intros lower_self simp: quiet_def intro: descends_cont)
next
  case (Connect ip port a k)
  then show ?case
    by (auto intro!: descends_await_leaf calm_intros lower_self simp: quiet_def intro: descends_cont)
next
  case (Alloc_write i k)
  have "descends {Alloc_write i k} rt' (run E k ls rt')" for ls rt'
    by (rule descends_seq [OF Alloc_write]) simp
  then show ?case by (auto intro!: descends_calm [OF calm_clone(2)] descends_assign)
next
  case (Clone_write i j k)
  have "descends {Clone_write i j k} rt' (run E k ls rt')" for ls rt'
    by (rule descends_seq [OF Clone_write]) simp
  then show ?case
    by (auto split: option.split local_value.split intro!: descends_calm [OF calm_clone(1)] descends_assign)
next
  case (Write_multiple i fds len k)
  then show ?case
    by (auto simp: quiet_def split: option.split local_value.split
        intro!: descends_await_leaf calm_intros lower_self descends_buffers buffers_only_drops intro: descends_cont)
next
  case (Drop_local i k)
  then show ?case
    by (auto split: option.split intro!: descends_buffers buffers_only_drop_local intro: descends_seq)
next
  case (Spawn moved child k)
  then show ?case
    by (auto simp: Let_def intro!: descends_adds dest!: adds_spawn_run [OF E Spawn.IH(1)]
        intro: adds_kid descends_seq)
qed simp

text \<open>A poll of the suspended body \<open>fr0\<close> that moves it down.\<close>

definition moves :: "frame \<Rightarrow> rt \<Rightarrow> step_result \<Rightarrow> bool" where
  "moves fr0 rt r \<longleftrightarrow> (\<forall>fr b rt'. r = Inr (fr, b, rt') \<longrightarrow>
     adds (fst (rank_of fr0)) rt rt' \<and> (fr, fr0) \<in> frame_less \<and> quiet fr)"

lemma moves_Inl [simp]: "moves fr0 rt (Inl e)"
  by (simp add: moves_def)

lemma moves_descends: "quiet fr0 \<Longrightarrow> descends (fst (rank_of fr0)) rt r \<Longrightarrow> moves fr0 rt r"
  unfolding moves_def descends_def using lower_less by (auto simp: quiet_def lower_def)

lemma moves_calm:
  assumes "calm rt sel m" "\<And>x. m = Inr x \<Longrightarrow> moves fr0 (sel x) (f x)"
  shows "moves fr0 rt (and_then m f)"
  using assms unfolding moves_def calm_def adds_def by (fastforce simp: res_simps)

lemma moves_suspend:
  assumes "conts a' = conts a" "polls_left ls' a' < polls_left ls a"
    and "\<And>adr f k. a' \<noteq> Aw_connect adr f k" "quiet \<lparr>fr_state = Await a, fr_locals = ls\<rparr>"
  shows "moves \<lparr>fr_state = Await a, fr_locals = ls\<rparr> rt
    (Inr (\<lparr>fr_state = Await a', fr_locals = ls'\<rparr>, b, rt))"
  using assms by (auto simp: moves_def adds_same frame_less_def quiet_def)

lemma moves_polled:
  assumes "quiet \<lparr>fr_state = Await a, fr_locals = ls\<rparr>" "conts a' = conts a" "\<And>adr f k. a' \<noteq> Aw_connect adr f k"
    and "p = Poll_Pending \<Longrightarrow> polls_left ls' a' < polls_left ls a" "\<And>v. descends (conts a) rt (go v)"
  shows "moves \<lparr>fr_state = Await a, fr_locals = ls\<rparr> rt
    (case p of Poll_Pending \<Rightarrow> Inr (\<lparr>fr_state = Await a', fr_locals = ls'\<rparr>, False, rt) | Poll_Ready v \<Rightarrow> go v)"
proof (cases p)
  case Poll_Pending
  with assms moves_suspend [of a' a ls' ls rt] show ?thesis by simp
next
  case (Poll_Ready v)
  with assms(1,5) show ?thesis by (simp add: moves_descends)
qed

lemma moves_await_leaf:
  assumes q: "quiet \<lparr>fr_state = Await a, fr_locals = ls\<rparr>" and m: "calm rt (snd \<circ> snd) m"
    and wrap: "\<And>leaf. conts (wrap leaf) = conts a" "\<And>leaf adr f k. wrap leaf \<noteq> Aw_connect adr f k"
      "\<And>leaf rt'. m = Inr (leaf, Poll_Pending, rt') \<Longrightarrow> polls_left ls (wrap leaf) < polls_left ls a"
    and go: "\<And>leaf v rt'. descends (conts a) rt' (go leaf v rt')"
  shows "moves \<lparr>fr_state = Await a, fr_locals = ls\<rparr> rt (await_leaf m wrap ls go)"
  unfolding await_leaf_def
proof (rule moves_calm [OF m])
  fix x assume x: "m = Inr x"
  obtain leaf p rt' where xs: "x = (leaf, p, rt')" by (cases x)
  show "moves \<lparr>fr_state = Await a, fr_locals = ls\<rparr> ((snd \<circ> snd) x) (case x of (leaf, p, rt) \<Rightarrow> case p of
      Poll_Pending \<Rightarrow> Inr (\<lparr>fr_state = Await (wrap leaf), fr_locals = ls\<rparr>, False, rt)
    | Poll_Ready v \<Rightarrow> go leaf v rt)"
    using x by (auto simp: xs intro!: moves_polled q wrap go)
qed

lemma descends_ready:
  assumes "env_ok E"
  shows "descends (range k) rt (run E (k v) ls rt)"
  by (rule descends_single [OF descends_run [OF assms]]) simp

lemma moves_accept_next:
  assumes E: "env_ok E" and q: "quiet \<lparr>fr_state = Await (Aw_accept_next i k), fr_locals = ls\<rparr>"
  shows "moves \<lparr>fr_state = Await (Aw_accept_next i k), fr_locals = ls\<rparr> rt
    (poll_accept_next E i k (\<lambda>v. run E (k v)) ls rt)"
proof -
  have "moves \<lparr>fr_state = Await (Aw_accept_next i k), fr_locals = ls\<rparr> rt
      (and_then (accept_poll_next E s rt) (\<lambda>(s', p, rt).
        let ls = (i, L_accept s') # remove_local i ls
        in case p of
             Poll_Pending \<Rightarrow> Inr (\<lparr>fr_state = Await (Aw_accept_next i k), fr_locals = ls\<rparr>, False, rt)
           | Poll_Ready v \<Rightarrow> run E (k v) ls rt))" if s: "map_of ls i = Some (L_accept s)" for s
  proof (rule moves_calm [OF calm_polls(5)])
    fix x assume x: "accept_poll_next E s rt = Inr x"
    obtain s' p rt' where xs: "x = (s', p, rt')" by (cases x)
    have "p = Poll_Pending \<Longrightarrow> as_state s = SS_Init \<and> as_state s' \<noteq> SS_Init"
      using x xs accept_stream.pending_starts by blast
    then show "moves \<lparr>fr_state = Await (Aw_accept_next i k), fr_locals = ls\<rparr> ((snd \<circ> snd) x)
       (case x of (s', p, rt) \<Rightarrow> let ls = (i, L_accept s') # remove_local i ls
        in case p of
             Poll_Pending \<Rightarrow> Inr (\<lparr>fr_state = Await (Aw_accept_next i k), fr_locals = ls\<rparr>, False, rt)
           | Poll_Ready v \<Rightarrow> run E (k v) ls rt)"
      using s by (auto simp: xs stream_polls_def Let_def intro!: moves_polled q descends_ready [OF E])
  qed
  then show ?thesis by (auto simp: poll_accept_next_def split: option.split local_value.split)
qed

lemma moves_read_next:
  assumes E: "env_ok E" and q: "quiet \<lparr>fr_state = Await (Aw_read_next i j k), fr_locals = ls\<rparr>"
  shows "moves \<lparr>fr_state = Await (Aw_read_next i j k), fr_locals = ls\<rparr> rt
    (poll_read_next E i j k (\<lambda>v. run E (k v)) ls rt)"
proof -
  have "moves \<lparr>fr_state = Await (Aw_read_next i j k), fr_locals = ls\<rparr> rt
      (and_then (read_poll_next E s rt) (\<lambda>(s', p, rt).
        let ls = (i, L_read s') # remove_local i ls
        in case p of
             Poll_Pending \<Rightarrow> Inr (\<lparr>fr_state = Await (Aw_read_next i j k), fr_locals = ls\<rparr>, False, rt)
           | Poll_Ready None \<Rightarrow> run E (k None) ls rt
           | Poll_Ready (Some b) \<Rightarrow> bind_buffer j b ls rt (\<lambda>n. run E (k (Some n)))))"
    if s: "map_of ls i = Some (L_read s)" for s
  proof (rule moves_calm [OF calm_read_polls(2)])
    fix x assume x: "read_poll_next E s rt = Inr x"
    obtain s' p rt' where xs: "x = (s', p, rt')" by (cases x)
    have "p = Poll_Pending \<Longrightarrow> rs_state s = SS_Init \<and> rs_state s' \<noteq> SS_Init"
      using x xs read_stream.pending_starts by blast
    then show "moves \<lparr>fr_state = Await (Aw_read_next i j k), fr_locals = ls\<rparr> ((snd \<circ> snd) x)
       (case x of (s', p, rt) \<Rightarrow> let ls = (i, L_read s') # remove_local i ls
        in case p of
             Poll_Pending \<Rightarrow> Inr (\<lparr>fr_state = Await (Aw_read_next i j k), fr_locals = ls\<rparr>, False, rt)
           | Poll_Ready None \<Rightarrow> run E (k None) ls rt
           | Poll_Ready (Some b) \<Rightarrow> bind_buffer j b ls rt (\<lambda>n. run E (k (Some n))))"
      using s by (auto simp: xs stream_polls_def Let_def split: option.split
          intro!: moves_polled q descends_bind_buffer descends_ready [OF E])
  qed
  then show ?thesis by (auto simp: poll_read_next_def split: option.split local_value.split)
qed

lemma sub_ovf_less: "sub_ovf (c :: u16) 1 = Inr x \<Longrightarrow> unat x < unat c"
  by (auto simp: sub_ovf_Inr_iff word_le_nat_alt)

lemma wm_poll_pending:
  assumes "write_multiple_poll f rt = Inr (f', Poll_Pending, rt')"
  shows "polls_left ls (Aw_write_multiple f' k) < polls_left ls (Aw_write_multiple f k)"
proof (cases f)
  case (WM_Init fds b len)
  then show ?thesis using assms by (auto simp: write_multiple_poll_def res_simps unat_u16_lt)
next
  case (WM_Pending st)
  then show ?thesis using assms
    by (auto simp: write_multiple_poll_def res_simps Let_def split: if_splits dest: sub_ovf_less)
qed (use assms in \<open>simp add: write_multiple_poll_def\<close>)

text \<open>Resuming a body that does not connect moves it down, unless it waits forever.\<close>

lemma moves_resume:
  assumes E: "env_ok E" and q: "quiet \<lparr>fr_state = Await a, fr_locals = ls\<rparr>" and a: "a \<noteq> Aw_forever"
  shows "moves \<lparr>fr_state = Await a, fr_locals = ls\<rparr> rt (resume E a ls rt)"
proof (cases a)
  case (Aw_accept f k)
  show ?thesis unfolding resume_def Aw_accept awaiting.case
    by (rule moves_await_leaf [OF q [unfolded Aw_accept] calm_polls(1)])
      (auto simp: accept_poll_def res_simps Let_def intro!: descends_ready [OF E] split: AcceptFuture.splits)
next
  case (Aw_read f j k)
  show ?thesis unfolding resume_def Aw_read awaiting.case
    by (rule moves_await_leaf [OF q [unfolded Aw_read] calm_read_polls(1)])
      (auto simp: read_poll_def res_simps Let_def intro!: descends_read_done descends_ready [OF E]
        split: ReadFuture.splits if_splits option.splits)
next
  case (Aw_accept_next i k)
  then show ?thesis using moves_accept_next [OF E] q by (simp add: resume_def)
next
  case (Aw_read_next i j k)
  then show ?thesis using moves_read_next [OF E] q by (simp add: resume_def)
next
  case (Aw_commit b f k)
  show ?thesis unfolding resume_def Aw_commit awaiting.case
    by (rule moves_await_leaf [OF q [unfolded Aw_commit] calm_polls(3)])
      (auto simp: commit_poll_def res_simps intro!: descends_buffers buffers_only_drops descends_ready [OF E]
        split: CommitFuture.splits)
next
  case (Aw_write f k)
  show ?thesis unfolding resume_def Aw_write awaiting.case
    by (rule moves_await_leaf [OF q [unfolded Aw_write] calm_polls(2)])
      (auto simp: write_poll_def res_simps intro!: descends_ready [OF E] split: WriteFuture.splits)
next
  case (Aw_write_multiple f k)
  show ?thesis unfolding resume_def Aw_write_multiple awaiting.case
    by (rule moves_await_leaf [OF q [unfolded Aw_write_multiple] calm_write_multiple])
      (auto dest: wm_poll_pending intro!: descends_buffers buffers_only_drops descends_ready [OF E])
qed (use a q in \<open>auto simp: quiet_def\<close>)

lemma frame_poll_moves:
  assumes E: "env_ok E" and q: "quiet fr0" and res: "frame_poll E fr0 rt = Inr (fr, b, rt')"
  shows "fr = fr0 \<and> rt' = rt \<or> adds (fst (rank_of fr0)) rt rt' \<and> (fr, fr0) \<in> frame_less \<and> quiet fr"
proof (cases "fr_state fr0")
  case (Start p)
  then have "descends (fst (rank_of fr0)) rt (frame_poll E fr0 rt)"
    using descends_run [OF E] by (simp add: frame_poll_def rank_of_def)
  from moves_descends [OF q this] res show ?thesis by (simp add: moves_def)
next
  case (Await a)
  have fr0: "fr0 = \<lparr>fr_state = Await a, fr_locals = fr_locals fr0\<rparr>" using Await by (cases fr0) simp
  show ?thesis
  proof (cases "a = Aw_forever")
    case True
    then show ?thesis using res fr0 Await by (auto simp: frame_poll_def resume_def)
  next
    case False
    then have "moves fr0 rt (frame_poll E fr0 rt)"
      using moves_resume [OF E _ False, of "fr_locals fr0" rt] q fr0 Await by (simp add: frame_poll_def)
    with res show ?thesis by (simp add: moves_def)
  qed
qed (use res in \<open>simp add: frame_poll_def\<close>)

subsection \<open>One completion\<close>

text \<open>The multiset of live bodies; \<open>settles\<close>: it went down, or neither it nor what is staged changed.\<close>

definition bodies :: "rt \<Rightarrow> frame multiset" where
  "bodies rt = image_mset (\<lambda>q. the (futs rt q)) (mset_set (dom (futs rt)))"

definition settles :: "rt \<Rightarrow> rt \<Rightarrow> bool" where
  "settles rt rt' \<longleftrightarrow> (bodies rt', bodies rt) \<in> mult frame_less \<or>
     futs rt' = futs rt \<and> length (rt_pending rt') = length (rt_pending rt)"

lemma bodies_cong: "futs rt' = futs rt \<Longrightarrow> bodies rt' = bodies rt"
  by (simp add: bodies_def)

lemma settles_refl [simp]: "settles rt rt"
  by (simp add: settles_def)

lemma settles_trans: "settles a b \<Longrightarrow> settles b c \<Longrightarrow> settles a c"
  using bodies_cong [of b a] bodies_cong [of c b]
  by (auto simp: settles_def mult_def intro: trancl_trans)

text \<open>A body replaced by smaller ones: one step of the multiset order.\<close>

lemma bodies_step:
  assumes p: "futs a p = Some g"
    and keep: "\<And>q f. q \<noteq> p \<Longrightarrow> futs a q = Some f \<Longrightarrow> futs b q = Some f"
    and small: "\<And>q f. q = p \<or> futs a q = None \<Longrightarrow> futs b q = Some f \<Longrightarrow> (f, g) \<in> frame_less"
  shows "(bodies b, bodies a) \<in> mult frame_less"
proof -
  let ?A = "dom (futs a)" and ?B = "dom (futs b)"
  let ?rest = "image_mset (\<lambda>q. the (futs a q)) (mset_set (?A - {p}))"
  let ?new = "image_mset (\<lambda>q. the (futs b q)) (mset_set (?B - (?A - {p})))"
  have "mset_set ?A = add_mset p (mset_set (?A - {p}))" using p by (intro mset_set.remove) auto
  then have a: "bodies a = ?rest + {#g#}" using p by (simp add: bodies_def)
  have sub: "?A - {p} \<subseteq> ?B" using keep by auto
  have "mset_set ?B = mset_set (?A - {p}) + mset_set (?B - (?A - {p}))"
    using mset_set_Union [of "?A - {p}" "?B - (?A - {p})"] sub by (simp add: Un_absorb1)
  moreover have "image_mset (\<lambda>q. the (futs b q)) (mset_set (?A - {p})) = ?rest"
    using keep by (intro image_mset_cong) auto
  ultimately have b: "bodies b = ?rest + ?new" by (simp add: bodies_def)
  have "(f, g) \<in> frame_less" if "f \<in># ?new" for f
  proof -
    from that obtain q where q: "q \<in> ?B" "q \<notin> ?A - {p}" "f = the (futs b q)" by auto
    then have "q = p \<or> futs a q = None" "futs b q = Some f" by auto
    then show ?thesis by (rule small)
  qed
  then show ?thesis unfolding a b by (intro one_step_implies_mult) simp_all
qed

lemma settles_drop:
  assumes "task_drop frame_drop p rt = Inr rt'"
  shows "settles rt rt'"
proof (cases "futs rt' = futs rt")
  case True
  then show ?thesis using task_drop_futs [OF assms] by (simp add: settles_def)
next
  case False
  then have n: "futs rt' = (futs rt)(p := None)" using task_drop_futs [OF assms] by blast
  with False obtain g where "futs rt p = Some g" by (cases "futs rt p") (auto simp: fun_upd_idem)
  then have "(bodies rt', bodies rt) \<in> mult frame_less" by (rule bodies_step) (auto simp: n split: if_splits)
  then show ?thesis by (simp add: settles_def)
qed

definition all_quiet :: "rt \<Rightarrow> bool" where
  "all_quiet rt \<longleftrightarrow> (\<forall>q f. futs rt q = Some f \<longrightarrow> quiet f)"

lemma adds_quiet: "adds S rt rt' \<Longrightarrow> \<forall>p \<in> S. connectless p \<Longrightarrow> all_quiet rt \<Longrightarrow> all_quiet rt'"
  unfolding adds_def all_quiet_def lower_def by (metis not_None_eq option.inject)

lemma settles_poll:
  assumes E: "env_ok E" and q: "all_quiet rt" and res: "task_poll (frame_poll E) p rt = Inr (b, rt')"
  shows "settles rt rt' \<and> all_quiet rt'"
proof -
  from res obtain t fr rt1 t1 where t: "rt_heap rt p = Some t"
    and poll: "frame_poll E (task_fut t) rt = Inr (fr, b, rt1)" and t1: "rt_heap rt1 p = Some t1"
    and rt': "rt' = rt1\<lparr>rt_heap := (rt_heap rt1)(p \<mapsto> t1\<lparr>task_fut := fr\<rparr>)\<rparr>"
    by (auto simp: task_poll_def task_poll_with_def task_deref_def res_simps split: option.splits)
  have p: "futs rt p = Some (task_fut t)" using t by (simp add: futs_def)
  then have qt: "quiet (task_fut t)" using q by (simp add: all_quiet_def)
  have f': "futs rt' = (futs rt1)(p \<mapsto> fr)" using t1 rt' by simp
  from frame_poll_moves [OF E qt poll] show ?thesis
  proof
    assume "fr = task_fut t \<and> rt1 = rt"
    then have "futs rt' = futs rt" "rt_pending rt' = rt_pending rt" using f' p rt' by auto
    then show ?thesis using q by (simp add: settles_def all_quiet_def)
  next
    assume m: "adds (fst (rank_of (task_fut t))) rt rt1 \<and> (fr, task_fut t) \<in> frame_less \<and> quiet fr"
    then have "all_quiet rt1" using adds_quiet q qt by (auto simp: quiet_def)
    then have "all_quiet rt'" using m by (auto simp: all_quiet_def f')
    moreover have "(bodies rt', bodies rt) \<in> mult frame_less"
      using p by (rule bodies_step) (use m lower_less in \<open>auto simp: f' adds_def split: if_splits\<close>)
    ultimately show ?thesis by (simp add: settles_def)
  qed
qed

lemma settles_clone:
  assumes "clone_task_at i rt = Inr (p, rt')"
  shows "futs rt' = futs rt \<and> rt_pending rt' = rt_pending rt"
proof -
  from assms obtain h where h: "task_update p inc_rc (rt_heap rt) = Inr h" "rt' = rt\<lparr>rt_heap := h\<rparr>"
    by (auto simp: clone_task_at_def task_clone_def res_simps)
  from task_update_futs [OF h(1) futs_headers(1)] h(2) show ?thesis by (simp add: futs_def fun_eq_iff)
qed

lemma settles_dispatch:
  assumes E: "env_ok E" and q: "all_quiet rt" and res: "dispatch_cqe (frame_poll E) p info rt = Inr rt'"
  shows "settles rt rt' \<and> all_quiet rt'"
proof -
  have poll: "settles rt rt' \<and> all_quiet rt'"
    if "task_poll (frame_poll E) p rt1 = Inr (b, rt')" "futs rt1 = futs rt" "rt_pending rt1 = rt_pending rt" for b rt1
    using settles_poll [OF E _ that(1)] that(2,3) q by (simp add: settles_def all_quiet_def bodies_def)
  have "futs (rt\<lparr>rt_heap := h, rt_current := c\<rparr>) = futs rt" if "task_update p augmente_syscall_nb (rt_heap rt) = Inr h" for h c
    using task_update_futs [OF that futs_headers(3)] by (simp add: futs_def fun_eq_iff)
  note normal = this
  from res obtain t where t: "task_deref p (rt_heap rt) = Inr t" by (auto simp: dispatch_cqe_def res_simps)
  show ?thesis
  proof (cases "evaluate_syscall_nb (tag_syscall_nb (ti_tag info)) t")
    case Normal
    then show ?thesis using res t poll normal by (auto simp: dispatch_cqe_def Let_def res_simps)
  next
    case Multiple
    then show ?thesis using res t poll by (auto simp: dispatch_cqe_def Let_def res_simps)
  qed (use res t q in \<open>simp_all add: dispatch_cqe_def\<close>)
qed

text \<open>The measure of the loop: the live bodies, then the entries staged and in flight.\<close>

definition load :: "u64 list \<Rightarrow> rt \<Rightarrow> frame multiset \<times> nat" where
  "load K rt = (bodies rt, length K + length (rt_pending rt))"

definition load_less :: "((frame multiset \<times> nat) \<times> (frame multiset \<times> nat)) set" where
  "load_less = mult frame_less <*lex*> less_than"

lemma wf_load_less: "wf load_less"
  by (simp add: load_less_def wf_mult wf_frame_less wf_lex_prod)

lemma trans_load_less: "trans load_less"
  by (simp add: load_less_def mult_def)

lemma cqe_settles:
  assumes E: "env_ok E" and q: "all_quiet rt"
    and res: "handle_cqe_entry E (frame_poll E) frame_drop c rt = Inr rt'"
  shows "settles rt rt' \<and> all_quiet rt'"
proof -
  from res obtain p rt1 rt2 rt3 where clone: "clone_task_at (udata_idx (cqe_user_data c)) rt = Inr (p, rt1)"
    and disp: "dispatch_cqe (frame_poll E) p (TaskInfo_from_entry c) rt1 = Inr rt2"
    and d1: "(if env_more E (cqe_flags c) then Inr rt2 else task_drop frame_drop p rt2) = Inr rt3"
    and d2: "task_drop frame_drop p rt3 = Inr rt'"
    by (auto simp: handle_cqe_entry_def Let_def res_simps)
  have "settles rt rt1" "all_quiet rt1"
    using settles_clone [OF clone] q by (simp_all add: settles_def all_quiet_def)
  moreover have "settles rt1 rt2" "all_quiet rt2" using settles_dispatch [OF E \<open>all_quiet rt1\<close> disp] by blast+
  moreover have "settles rt2 rt3 \<and> all_quiet rt3"
    using d1 settles_drop task_drop_futs [of p rt2 rt3] \<open>all_quiet rt2\<close>
    by (auto simp: all_quiet_def split: if_splits)
  moreover have "all_quiet rt'" if "all_quiet rt3"
    using that task_drop_futs [OF d2] by (auto simp: all_quiet_def split: if_splits)
  ultimately show ?thesis using settles_drop [OF d2] settles_trans by blast
qed

lemma cqe_load:
  assumes "settles rt rt'" "cqe_user_data c \<in> set K" "\<not> env_more E (cqe_flags c)"
  shows "(load (complete_one E c K) rt', load K rt) \<in> load_less"
proof -
  have "Suc (length (remove1 (cqe_user_data c) K)) = length K"
    using assms(2) length_pos_if_in_set [OF assms(2)] by (simp add: length_remove1)
  with assms(1,3) bodies_cong [of rt' rt] show ?thesis
    by (auto simp: settles_def load_def load_less_def complete_one_def)
qed

subsection \<open>The loop\<close>

lemma batch_settles:
  assumes E: "env_ok E" and "all_quiet rt" "fold_res (handle_cqe_entry E (frame_poll E) frame_drop) cs rt = Inr rt'"
  shows "settles rt rt' \<and> all_quiet rt'"
  using assms(2,3)
proof (induction cs arbitrary: rt)
  case (Cons c cs)
  then obtain rt1 where rt1: "handle_cqe_entry E (frame_poll E) frame_drop c rt = Inr rt1"
    "fold_res (handle_cqe_entry E (frame_poll E) frame_drop) cs rt1 = Inr rt'" by (auto simp: res_simps)
  from cqe_settles [OF E Cons.prems(1) rt1(1)] Cons.IH [OF _ rt1(2)] show ?case
    using settles_trans by blast
qed simp

text \<open>Completions that are the last of their entry make the load smaller.\<close>

definition last_ones :: "'f env \<Rightarrow> cqe list \<Rightarrow> bool" where
  "last_ones E cs \<longleftrightarrow> (\<forall>c \<in> set cs. \<not> env_more E (cqe_flags c))"

lemma batch_load:
  assumes E: "env_ok E" and "all_quiet rt" "legal_batch E cs K" "last_ones E cs"
    "fold_res (handle_cqe_entry E (frame_poll E) frame_drop) cs rt = Inr rt'"
  shows "cs = [] \<or> (load (fold (complete_one E) cs K) rt', load K rt) \<in> load_less"
  using assms(2-)
proof (induction cs arbitrary: rt K)
  case (Cons c cs)
  then obtain rt1 where rt1: "handle_cqe_entry E (frame_poll E) frame_drop c rt = Inr rt1"
    "fold_res (handle_cqe_entry E (frame_poll E) frame_drop) cs rt1 = Inr rt'" by (auto simp: res_simps)
  have s: "settles rt rt1" "all_quiet rt1" using cqe_settles [OF E Cons.prems(1) rt1(1)] by blast+
  have one: "(load (complete_one E c K) rt1, load K rt) \<in> load_less"
    using Cons.prems(2,3) by (intro cqe_load [OF s(1)]) (auto simp: last_ones_def)
  from Cons.IH [OF s(2) _ _ rt1(2), of "complete_one E c K"] Cons.prems(2,3) one show ?case
    using rt1(2) by (auto simp: last_ones_def intro: transD [OF trans_load_less])
qed simp

lemma free_slots_bodies:
  "free_unsed_slab_slot rt = Inr rt' \<Longrightarrow> futs rt' = futs rt \<and> rt_pending rt' = rt_pending rt"
  by (auto simp: free_unsed_slab_slot_def res_simps futs_def fun_eq_iff)

text \<open>One turn that does not end the loop.\<close>

lemma turn_load:
  assumes E: "env_ok E" and w: "waiting frame_ok K rt" and q: "all_quiet rt" and legal: "legal_batch E cs K"
    and res: "loop_body E (frame_poll E) frame_drop cs rt = Some (Inr (False, rt'))"
  shows "all_quiet rt'"
    and "last_ones E cs \<Longrightarrow> (load (fold (complete_one E) cs K) rt', load K rt) \<in> load_less"
proof -
  have inv: "rt_inv frame_ok K {#} rt" and wake: "rt_wake_list rt = []" and busy: "\<not> is_runtime_free rt"
    using w by (simp_all add: waiting_def)
  let ?batch = "fold_res (handle_cqe_entry E (frame_poll E) frame_drop) cs rt"
  from res free_waiting [OF w] busy obtain rt1 where cs: "cs \<noteq> []" and rt1: "?batch = Inr rt1"
    by (cases ?batch) (auto simp: loop_body_def split: if_splits)
  then have "rt_wake_list rt1 = []" using client.batch_spec [OF E inv legal] wake by simp
  from client.drain_idle [OF this, of E] res free_waiting [OF w] busy cs rt1
  have free: "free_unsed_slab_slot rt1 = Inr rt'" by (auto simp: loop_body_def res_simps)
  then show "all_quiet rt'"
    using batch_settles [OF E q rt1] free_slots_bodies [OF free] by (simp add: all_quiet_def)
  show "(load (fold (complete_one E) cs K) rt', load K rt) \<in> load_less" if "last_ones E cs"
    using batch_load [OF E q legal that rt1] cs free_slots_bodies [OF free] by (simp add: load_def bodies_def)
qed

text \<open>A kernel given turn by turn in the order of time; \<open>block_loop\<close> counts the turns that are left.\<close>

definition timed :: "nat \<Rightarrow> (nat \<Rightarrow> u64 list \<Rightarrow> kernel_turn) \<Rightarrow> nat \<Rightarrow> u64 list \<Rightarrow> kernel_turn" where
  "timed n ks m = ks (n - Suc m)"

lemma block_loop_cong:
  "(\<And>m K. m < n \<Longrightarrow> kern' m K = kern m K) \<Longrightarrow>
    block_loop E poll_fn drop_fn kern' n K rt = block_loop E poll_fn drop_fn kern n K rt"
proof (induction n arbitrary: K rt)
  case (Suc n)
  then have "kern' n = kern n" by auto
  moreover have "block_loop E poll_fn drop_fn kern' n K rt = block_loop E poll_fn drop_fn kern n K rt" for K rt
    by (rule Suc.IH) (simp add: Suc.prems)
  ultimately show ?case by (simp add: Let_def split: sum.split prod.split kernel_turn.split option.split bool.split)
qed simp

lemma timed_later:
  "block_loop E poll_fn drop_fn (timed (Suc n) ks) n K rt =
   block_loop E poll_fn drop_fn (timed n (\<lambda>i. ks (Suc i))) n K rt"
  by (rule block_loop_cong) (simp add: timed_def Suc_diff_Suc)

definition ends :: "frame env \<Rightarrow> (nat \<Rightarrow> u64 list \<Rightarrow> kernel_turn) \<Rightarrow> u64 list \<Rightarrow> rt \<Rightarrow> bool" where
  "ends E ks K rt \<longleftrightarrow> (\<exists>N r. (\<forall>K rt. r \<noteq> Running K rt) \<and>
     (\<forall>n \<ge> N. block_loop E (frame_poll E) frame_drop (timed n ks) n K rt = r))"

lemma ends_step:
  assumes sub: "submit_pending E rt = Inr (es, rt1)"
    and turn: "ks 0 (K @ map sqe_user_data es) = Completions cs"
      "loop_body E (frame_poll E) frame_drop cs rt1 = Some (Inr (False, rt2))"
    and fin: "ends E (\<lambda>i. ks (Suc i)) (fold (complete_one E) cs (K @ map sqe_user_data es)) rt2"
  shows "ends E ks K rt"
proof -
  let ?K = "fold (complete_one E) cs (K @ map sqe_user_data es)"
  from fin obtain N r where r: "\<forall>K rt. r \<noteq> Running K rt"
    "\<And>n. n \<ge> N \<Longrightarrow> block_loop E (frame_poll E) frame_drop (timed n (\<lambda>i. ks (Suc i))) n ?K rt2 = r"
    unfolding ends_def by blast
  have "block_loop E (frame_poll E) frame_drop (timed n ks) n K rt = r" if "n \<ge> Suc N" for n
  proof -
    from that obtain m where m: "n = Suc m" "m \<ge> N" by (cases n) auto
    have "timed n ks m = ks 0" "block_loop E (frame_poll E) frame_drop (timed n ks) m ?K rt2 = r"
      using r(2) [OF m(2)] timed_later [of E _ _ m ks ?K rt2] m(1) by (simp_all add: timed_def)
    then show ?thesis using sub turn m(1) by simp
  qed
  with r(1) show ?thesis unfolding ends_def by blast
qed

text \<open>The loop ends, whatever it has to do, if from some turn on every completion is the last of its entry.\<close>

lemma ends_now:
  assumes "\<And>n. block_loop E (frame_poll E) frame_drop (timed (Suc n) ks) (Suc n) K rt = r" "\<And>K rt. r \<noteq> Running K rt"
  shows "ends E ks K rt"
  unfolding ends_def
proof (intro exI conjI allI impI)
  fix n :: nat assume "Suc 0 \<le> n"
  with assms(1) [of "n - 1"] show "block_loop E (frame_poll E) frame_drop (timed n ks) n K rt = r" by simp
qed (rule assms(2))

lemma turn_ends:
  assumes E: "env_ok E" and legal: "legal_kernel E ks" and w: "waiting frame_ok K rt" and q: "all_quiet rt"
    and later: "\<And>K' rt' cs L. \<lbrakk>waiting frame_ok K' rt'; all_quiet rt'; ks 0 L = Completions cs;
      last_ones E cs \<Longrightarrow> (load K' rt', load K rt) \<in> load_less\<rbrakk> \<Longrightarrow> ends E (\<lambda>i. ks (Suc i)) K' rt'"
  shows "ends E ks K rt"
proof (cases "submit_pending E rt")
  case (Inl e)
  then show ?thesis by (intro ends_now [of _ _ _ _ "Faulted e"]) simp_all
next
  case (Inr x)
  obtain es rt1 where x: "x = (es, rt1)" by (cases x)
  note sub = Inr [unfolded x]
  let ?K = "K @ map sqe_user_data es"
  have w1: "waiting frame_ok ?K rt1" using submit_pending_spec(2) [OF w sub] by blast
  have rt1: "es = rt_pending rt" "rt1 = rt\<lparr>rt_pending := []\<rparr>" using sub by (auto simp: submit_pending_def res_simps)
  then have q1: "all_quiet rt1" and load1: "load ?K rt1 = load K rt"
    using q by (simp_all add: all_quiet_def load_def bodies_def)
  show ?thesis
  proof (cases "ks 0 ?K")
    case (Io_err e)
    then show ?thesis using sub by (intro ends_now [of _ _ _ _ "Io_error e rt1"]) (simp_all add: timed_def)
  next
    case (Completions cs)
    then have lb: "legal_batch E cs ?K" using legal by (auto simp: legal_kernel_def)
    from client.loop_body_spec [OF E w1 lb] obtain r where r: "loop_body E (frame_poll E) frame_drop cs rt1 = Some r"
      and "\<forall>b rt'. r = Inr (b, rt') \<longrightarrow> (if b then fold (complete_one E) cs ?K = [] \<and> idle frame_ok rt'
        else waiting frame_ok (fold (complete_one E) cs ?K) rt')" by blast
    then have w2: "waiting frame_ok (fold (complete_one E) cs ?K) rt'" if "r = Inr (False, rt')" for rt'
      using that by force
    show ?thesis
    proof (cases "\<exists>rt'. r = Inr (False, rt')")
      case True
      then obtain rt2 where rt2: "r = Inr (False, rt2)" by blast
      note body = r [unfolded rt2]
      show ?thesis
        by (rule ends_step [where ks = ks, OF sub Completions body], rule later [OF w2 [OF rt2] turn_load(1) [OF E w1 q1 lb body] Completions])
          (use turn_load(2) [OF E w1 q1 lb body] load1 in simp)
    next
      case False
      show ?thesis
      proof (cases r)
        case (Inl e)
        with sub Completions r show ?thesis
          by (intro ends_now [of _ _ _ _ "Faulted e"]) (simp_all add: timed_def)
      next
        case (Inr y)
        obtain d rt2 where "y = (d, rt2)" by (cases y)
        with False Inr have "y = (True, rt2)" by (cases d) auto
        with Inr sub Completions r show ?thesis
          by (intro ends_now [of _ _ _ _ "Finished rt2"]) (simp_all add: timed_def)
      qed
    qed
  qed
qed

lemma block_loop_ends:
  assumes E: "env_ok E" and legal: "legal_kernel E ks" and w: "waiting frame_ok K rt" and q: "all_quiet rt"
    and single: "\<And>n L cs. n \<ge> T \<Longrightarrow> ks n L = Completions cs \<Longrightarrow> last_ones E cs"
  shows "ends E ks K rt"
  using legal w q single
proof (induction T arbitrary: ks K rt)
  case 0
  then show ?case
  proof (induction "load K rt" arbitrary: ks K rt rule: wf_induct_rule [OF wf_load_less])
    case 1
    show ?case
    proof (rule turn_ends [OF E "1.prems"(1-3)])
      fix K' rt' cs L
      assume a: "waiting frame_ok K' rt'" "all_quiet rt'" "ks 0 L = Completions cs"
        "last_ones E cs \<Longrightarrow> (load K' rt', load K rt) \<in> load_less"
      show "ends E (\<lambda>i. ks (Suc i)) K' rt'"
      proof (rule "1.hyps" [OF _ _ a(1,2)])
        show "(load K' rt', load K rt) \<in> load_less" using a(4) "1.prems"(4) [OF _ a(3)] by simp
        show "legal_kernel E (\<lambda>i. ks (Suc i))" using "1.prems"(1) by (simp add: legal_kernel_def)
        show "last_ones E cs" if "ks (Suc n) L = Completions cs" for n L cs using "1.prems"(4) that by blast
      qed
    qed
  qed
next
  case (Suc T)
  show ?case
  proof (rule turn_ends [OF E Suc.prems(1-3)])
    fix K' rt' assume "waiting frame_ok K' rt'" "all_quiet rt'"
    moreover have "legal_kernel E (\<lambda>i. ks (Suc i))" using Suc.prems(1) by (simp add: legal_kernel_def)
    ultimately show "ends E (\<lambda>i. ks (Suc i)) K' rt'" using Suc.IH Suc.prems(4) by blast
  qed
qed

subsection \<open>The whole run\<close>

lemma quiet_start: "connectless p \<Longrightarrow> quiet (async_block p)"
  by (simp add: quiet_def async_block_def)

lemma spawn_quiet:
  assumes E: "env_ok E" and st: "idle frame_ok rt" and p: "connectless p"
    and res: "spawn E (frame_poll E) frame_drop (async_block p) rt = Inr rt'"
  shows "all_quiet rt'"
proof -
  have inv: "slab_inv (rt_tasks rt)" and empty: "rt_heap rt = Map.empty"
    using st acctD(1) by (auto simp: idle_def rt_inv_def)
  have "adds {p} rt rt'"
  proof (rule adds_spawn_run [OF E])
    show "spawn_run E (run E p []) frame_drop (async_block p) rt = Inr rt'"
      using res spawn_eq_run [OF E inv] by (simp add: frame_poll_def [abs_def] async_block_def)
  qed (rule descends_run [OF E])
  then show ?thesis using p empty by (auto simp: adds_def all_quiet_def lower_def futs_def)
qed

lemma block_on_ends:
  assumes E: "env_ok E" and legal: "legal_kernel E ks" and st: "idle frame_ok rt" "frame_ok (async_block p)" "connectless p"
    and single: "\<And>n L cs. n \<ge> T \<Longrightarrow> ks n L = Completions cs \<Longrightarrow> last_ones E cs"
  shows "\<exists>N r. (\<forall>K rt. r \<noteq> Running K rt) \<and>
    (\<forall>n \<ge> N. block_on E (frame_poll E) frame_drop (timed n ks) n (async_block p) rt = r)"
proof (cases "and_then (spawn E (frame_poll E) frame_drop (async_block p) rt) free_unsed_slab_slot")
  case (Inl e)
  then show ?thesis by (intro exI [of _ 0] exI [of _ "Faulted e"]) (simp add: block_on_def)
next
  case (Inr rt1)
  then obtain rt0 where rt0: "spawn E (frame_poll E) frame_drop (async_block p) rt = Inr rt0"
    "free_unsed_slab_slot rt0 = Inr rt1" by (auto simp: res_simps)
  have q: "all_quiet rt1"
    using spawn_quiet [OF E st(1,3) rt0(1)] free_slots_bodies [OF rt0(2)] by (simp add: all_quiet_def)
  from client.spawned [OF E st(1,2)] Inr
  have w: "if is_runtime_free rt1 then idle frame_ok rt1 else waiting frame_ok [] rt1" by auto
  show ?thesis
  proof (cases "is_runtime_free rt1")
    case True
    then show ?thesis using Inr by (intro exI [of _ 0] exI [of _ "Finished rt1"]) (simp add: block_on_def)
  next
    case False
    then have "ends E ks [] rt1" using block_loop_ends [OF E legal _ q single] w by simp
    then show ?thesis using Inr False by (simp add: block_on_def ends_def)
  qed
qed

end
