(* ===== verification/Resources.thy ===== *)
theory Resources
  imports Progress
begin

text \<open>
  Resources that bodies own. A frame owns what its locals and the future it awaits hold; the
  runtime's pool and ring must agree with everything that is owned. The locale \<open>resource\<close> states
  what each operation of the crate must do to the books of one kind of resource, and proves once
  that every body, completion, turn and run then keeps them. It is interpreted for the write slots
  (\<open>Ownership\<close>) and for the read buffers (\<open>Read_Ownership\<close>).
\<close>

subsection \<open>What a frame holds\<close>

definition locals_handles :: "(local_value \<Rightarrow> 'x multiset) \<Rightarrow> locals \<Rightarrow> 'x multiset" where
  "locals_handles lh ls = (\<Sum>(i, l) \<leftarrow> ls. lh l)"

definition handles :: "(local_value \<Rightarrow> 'x multiset) \<Rightarrow> (awaiting \<Rightarrow> 'x multiset) \<Rightarrow> frame \<Rightarrow> 'x multiset" where
  "handles lh ah fr =
     (case fr_state fr of Await a \<Rightarrow> ah a | _ \<Rightarrow> {#}) + locals_handles lh (fr_locals fr)"

text \<open>\<open>P\<close> are the addresses of the tasks that are being polled: what they hold is accounted for apart.\<close>

definition held :: "(local_value \<Rightarrow> 'x multiset) \<Rightarrow> (awaiting \<Rightarrow> 'x multiset) \<Rightarrow> u64 set \<Rightarrow> rt \<Rightarrow> 'x multiset" where
  "held lh ah P rt = (\<Sum>q \<in> dom (futs rt) - P. handles lh ah (the (futs rt q)))"

text \<open>A name is bound once.\<close>

definition tidy :: "locals \<Rightarrow> bool" where
  "tidy ls \<longleftrightarrow> distinct (map fst ls)"

lemma locals_handles_simps [simp]:
  "locals_handles lh [] = {#}" "locals_handles lh ((i, l) # ls) = lh l + locals_handles lh ls"
  by (simp_all add: locals_handles_def)

lemma handles_simps [simp]:
  "handles lh ah \<lparr>fr_state = Await a, fr_locals = ls\<rparr> = ah a + locals_handles lh ls"
  "handles lh ah \<lparr>fr_state = Start p, fr_locals = ls\<rparr> = locals_handles lh ls"
  "handles lh ah \<lparr>fr_state = Stopped, fr_locals = ls\<rparr> = locals_handles lh ls"
  by (simp_all add: handles_def)

lemma remove_local_handles:
  "tidy ls \<Longrightarrow> map_of ls i = Some l \<Longrightarrow> locals_handles lh ls = lh l + locals_handles lh (remove_local i ls)"
  "map_of ls i = None \<Longrightarrow> remove_local i ls = ls"
proof -
  show none: "map_of ls i = None \<Longrightarrow> remove_local i ls = ls" for ls
    by (induction ls) (auto simp: remove_local_def split: if_splits)
  show "locals_handles lh ls = lh l + locals_handles lh (remove_local i ls)"
    if "tidy ls" "map_of ls i = Some l"
    using that
  proof (induction ls)
    case (Cons x ls)
    obtain j m where x: "x = (j, m)" by (cases x)
    show ?case
    proof (cases "j = i")
      case True
      then have "map_of ls i = None" using Cons.prems(1) x by (simp add: tidy_def map_of_eq_None_iff)
      then show ?thesis using none [of ls] Cons.prems(2) x True by (simp add: remove_local_def)
    next
      case False
      then show ?thesis using Cons x by (simp add: remove_local_def tidy_def add_ac)
    qed
  qed simp
qed

lemma tidy_remove [simp]: "tidy ls \<Longrightarrow> tidy (remove_local i ls)"
  by (simp add: tidy_def remove_local_def distinct_map_filter)

lemma tidy_bind [simp]: "tidy ls \<Longrightarrow> tidy ((i, l) # remove_local i ls)"
  by (auto simp: tidy_def remove_local_def distinct_map_filter)

lemma tidy_filter [simp]: "tidy ls \<Longrightarrow> tidy (filter P ls)"
  by (simp add: tidy_def distinct_map_filter)

lemma handles_split:
  "locals_handles lh ls = locals_handles lh (filter P ls) + locals_handles lh (filter (\<lambda>x. \<not> P x) ls)"
  by (induction ls) (auto simp: locals_handles_def)

lemma local_stream_handles:
  assumes "tidy ls" "map_of ls i = Some l" "lh l = {#}" "lh l' = {#}"
  shows "locals_handles lh ((i, l') # remove_local i ls) = locals_handles lh ls"
  using remove_local_handles(1) [OF assms(1,2), of lh] assms(3,4) by simp

lemma held_insert:
  assumes "futs rt p = Some f" "p \<notin> P"
  shows "held lh ah P rt = handles lh ah f + held lh ah (insert p P) rt"
proof -
  have "dom (futs rt) - P = insert p (dom (futs rt) - insert p P)" using assms by auto
  then show ?thesis using assms by (simp add: held_def)
qed

lemma held_other: "futs rt' = (futs rt)(p := x) \<Longrightarrow> held lh ah (insert p P) rt' = held lh ah (insert p P) rt"
  unfolding held_def by (rule sum.cong) auto

lemma held_cong: "futs rt' = futs rt \<Longrightarrow> held lh ah P rt' = held lh ah P rt"
  by (simp add: held_def)

subsection \<open>Bodies without read streams\<close>

primrec streamless :: "prog \<Rightarrow> bool" where
  "streamless Done \<longleftrightarrow> True"
| "streamless Crash \<longleftrightarrow> True"
| "streamless Forever \<longleftrightarrow> True"
| "streamless (Accept fd k) \<longleftrightarrow> (\<forall>v. streamless (k v))"
| "streamless (Read fd j k) \<longleftrightarrow> (\<forall>v. streamless (k v))"
| "streamless (Accept_stream i fd k) \<longleftrightarrow> streamless k"
| "streamless (Accept_next i k) \<longleftrightarrow> (\<forall>v. streamless (k v))"
| "streamless (Read_stream i fd k) \<longleftrightarrow> streamless k"
| "streamless (Read_next i j k) \<longleftrightarrow> False"
| "streamless (Commit i len k) \<longleftrightarrow> (\<forall>v. streamless (k v))"
| "streamless (Write fd b len k) \<longleftrightarrow> (\<forall>v. streamless (k v))"
| "streamless (Connect ip port a k) \<longleftrightarrow> (\<forall>v. streamless (k v))"
| "streamless (Alloc_write i k) \<longleftrightarrow> streamless k"
| "streamless (Clone_write i j k) \<longleftrightarrow> streamless k"
| "streamless (Write_multiple i fds len k) \<longleftrightarrow> (\<forall>v. streamless (k v))"
| "streamless (Drop_local i k) \<longleftrightarrow> streamless k"
| "streamless (Spawn moved child k) \<longleftrightarrow> streamless child \<and> streamless k"

definition awaiting_streamless :: "awaiting \<Rightarrow> bool" where
  "awaiting_streamless a =
     (case a of
        Aw_forever \<Rightarrow> True
      | Aw_accept f k \<Rightarrow> (\<forall>v. streamless (k v))
      | Aw_read f j k \<Rightarrow> (\<forall>v. streamless (k v))
      | Aw_accept_next i k \<Rightarrow> (\<forall>v. streamless (k v))
      | Aw_read_next i j k \<Rightarrow> False
      | Aw_commit b f k \<Rightarrow> (\<forall>v. streamless (k v))
      | Aw_write f k \<Rightarrow> (\<forall>v. streamless (k v))
      | Aw_connect adr f k \<Rightarrow> (\<forall>v. streamless (k v))
      | Aw_write_multiple f k \<Rightarrow> (\<forall>v. streamless (k v)))"

definition state_streamless :: "suspended \<Rightarrow> bool" where
  "state_streamless s = (case s of Start p \<Rightarrow> streamless p | Await a \<Rightarrow> awaiting_streamless a | Stopped \<Rightarrow> True)"

lemma state_streamless_simps [simp]:
  "state_streamless (Start p) \<longleftrightarrow> streamless p" "state_streamless (Await a) \<longleftrightarrow> awaiting_streamless a"
  "state_streamless Stopped"
  by (simp_all add: state_streamless_def)

lemma awaiting_streamless_simps [simp]:
  "awaiting_streamless Aw_forever" "awaiting_streamless (Aw_accept fa ka) \<longleftrightarrow> (\<forall>v. streamless (ka v))"
  "awaiting_streamless (Aw_read fr j kr) \<longleftrightarrow> (\<forall>v. streamless (kr v))"
  "awaiting_streamless (Aw_accept_next i ko) \<longleftrightarrow> (\<forall>v. streamless (ko v))"
  "\<not> awaiting_streamless (Aw_read_next i j ko)"
  "awaiting_streamless (Aw_commit b fc kc) \<longleftrightarrow> (\<forall>v. streamless (kc v))"
  "awaiting_streamless (Aw_write fw kc) \<longleftrightarrow> (\<forall>v. streamless (kc v))"
  "awaiting_streamless (Aw_connect adr fs ks) \<longleftrightarrow> (\<forall>v. streamless (ks v))"
  "awaiting_streamless (Aw_write_multiple fm km) \<longleftrightarrow> (\<forall>v. streamless (km v))"
  by (simp_all add: awaiting_streamless_def)

subsection \<open>Results\<close>

text \<open>A result that is no fault of the given kind, and whose value satisfies \<open>Q\<close>.\<close>

definition meets :: "(fault \<Rightarrow> bool) \<Rightarrow> ('a \<Rightarrow> bool) \<Rightarrow> 'a res \<Rightarrow> bool" where
  "meets bad Q r \<longleftrightarrow> (case r of Inl e \<Rightarrow> \<not> bad e | Inr x \<Rightarrow> Q x)"

lemma meets_simps [simp]: "meets bad Q (Inl e) \<longleftrightarrow> \<not> bad e" "meets bad Q (Inr x) \<longleftrightarrow> Q x"
  by (simp_all add: meets_def)

lemma meets_and_then:
  assumes "meets bad Q m" "\<And>x. m = Inr x \<Longrightarrow> Q x \<Longrightarrow> meets bad R (f x)"
  shows "meets bad R (and_then m f)"
  using assms by (cases m) simp_all

lemma meets_mono: "meets bad Q r \<Longrightarrow> (\<And>x. r = Inr x \<Longrightarrow> Q x \<Longrightarrow> R x) \<Longrightarrow> meets bad R r"
  by (cases r) simp_all

lemma meets_cases: "(\<And>e. r = Inl e \<Longrightarrow> \<not> bad e) \<Longrightarrow> (\<And>x. r = Inr x \<Longrightarrow> Q x) \<Longrightarrow> meets bad Q r"
  by (cases r) simp_all

text \<open>The assertions of the pool.\<close>

definition pool_fault :: "fault \<Rightarrow> bool" where
  "pool_fault e \<longleftrightarrow> e = Panic Write_slot_state \<or> e = Panic Read_index"

abbreviation pool_safe :: "'a res \<Rightarrow> bool" where
  "pool_safe \<equiv> meets pool_fault (\<lambda>_. True)"

lemma pool_fault_simps [simp]:
  "pool_fault (Panic p) \<longleftrightarrow> p = Write_slot_state \<or> p = Read_index" "\<not> pool_fault (Ub u)"
  by (simp_all add: pool_fault_def)

lemma pool_safe_basic [simp]:
  "pool_safe (assert_or e b) \<longleftrightarrow> b \<or> (e \<noteq> Write_slot_state \<and> e \<noteq> Read_index)"
  "e \<noteq> Write_slot_state \<Longrightarrow> e \<noteq> Read_index \<Longrightarrow> pool_safe (expect e v)"
  "pool_safe (add_ovf a b')" "pool_safe (sub_ovf a b')" "pool_safe (task_deref p h)" "pool_safe (slot_at i s)"
  by (simp_all add: assert_or_def expect_def add_ovf_def sub_ovf_def task_deref_def slot_at_def
      split: option.split)

lemma pool_safe_and_then: "pool_safe m \<Longrightarrow> (\<And>x. pool_safe (f x)) \<Longrightarrow> pool_safe (and_then m f)"
  by (rule meets_and_then)

lemma pool_safe_headers [simp]:
  "pool_safe (inc_rc t)" "pool_safe (add_rc n t)" "pool_safe (augmente_syscall_nb t)"
  by (auto simp: inc_rc_eq add_rc_eq augmente_syscall_nb_eq)

lemma pool_safe_with_task:
  assumes "\<And>t. pool_safe (f t)"
  shows "pool_safe (with_task i f rt)"
  using assms by (auto simp: with_task_def slab_index_def task_update_def intro!: pool_safe_and_then)

subsection \<open>Operations that leave bodies, pool and ring alone\<close>

definition untouched :: "rt \<Rightarrow> rt \<Rightarrow> bool" where
  "untouched rt rt' \<longleftrightarrow> futs rt' = futs rt \<and> rt_buffer rt' = rt_buffer rt \<and> rt_buf_ring rt' = rt_buf_ring rt
     \<and> rt_freed_reads rt' = rt_freed_reads rt"

definition still :: "rt \<Rightarrow> ('a \<Rightarrow> rt) \<Rightarrow> 'a res \<Rightarrow> bool" where
  "still rt sel r \<longleftrightarrow> meets pool_fault (untouched rt \<circ> sel) r"

named_theorems still_intros \<open>operations that leave bodies, pool and ring alone\<close>

lemma still_simps [simp]:
  "still rt sel (Inr x) \<longleftrightarrow> untouched rt (sel x)" "still rt sel (Inl e) \<longleftrightarrow> \<not> pool_fault e"
  by (simp_all add: still_def)

lemma untouched_refl [simp]: "untouched rt rt"
  by (simp add: untouched_def)

lemma untouched_trans: "untouched rt rt1 \<Longrightarrow> untouched rt1 rt2 \<Longrightarrow> untouched rt rt2"
  by (simp add: untouched_def)

lemma untouched_fields [simp]:
  "untouched rt (rt1\<lparr>rt_pending := x\<rparr>) \<longleftrightarrow> untouched rt rt1" "untouched rt (rt1\<lparr>rt_current := y\<rparr>) \<longleftrightarrow> untouched rt rt1"
  "untouched rt (rt1\<lparr>rt_tasks := s\<rparr>) \<longleftrightarrow> untouched rt rt1" "untouched rt (rt1\<lparr>rt_free_list := l\<rparr>) \<longleftrightarrow> untouched rt rt1"
  "untouched rt (sqe_queue_push e rt1) \<longleftrightarrow> untouched rt rt1"
  "untouched rt (set_current_task_multiple b rt1) \<longleftrightarrow> untouched rt rt1"
  by (simp_all add: untouched_def sqe_queue_push_def set_current_task_multiple_def Let_def)

lemma still_and_then:
  "still rt sel m \<Longrightarrow> (\<And>x. m = Inr x \<Longrightarrow> still (sel x) sel' (f x)) \<Longrightarrow> still rt sel' (and_then m f)"
  unfolding still_def using untouched_trans by (cases m) (fastforce elim!: meets_mono)+

lemma with_task_alone: "with_task i f rt = Inr rt' \<Longrightarrow>
    rt_buffer rt' = rt_buffer rt \<and> rt_buf_ring rt' = rt_buf_ring rt \<and> rt_freed_reads rt' = rt_freed_reads rt"
  by (auto simp: with_task_def res_simps)

lemma still_with_task:
  assumes "calm rt id (with_task i f rt)" "\<And>t. pool_safe (f t)"
  shows "still rt id (with_task i f rt)"
  using assms pool_safe_with_task [of f i rt]
  by (cases "with_task i f rt") (auto simp: still_def untouched_def calm_def dest: with_task_alone)

lemma still_headers [still_intros]:
  "still rt id (with_task i inc_rc rt)" "still rt id (with_task i (add_rc n) rt)"
  "still rt id (with_task i augmente_syscall_nb rt)" "still rt id (with_task i (\<lambda>t. Inr (set_multishot t)) rt)"
  by (auto intro!: still_with_task calm_headers)

lemma still_submit:
  assumes "untouched rt rt1"
  shows "still rt id (and_then (with_task i inc_rc rt1) (\<lambda>rt. Inr (sqe_queue_push (e rt) rt)))"
proof -
  have "still rt1 id (and_then (with_task i inc_rc rt1) (\<lambda>rt. Inr (sqe_queue_push (e rt) rt)))"
    by (rule still_and_then [OF still_headers(1)]) simp
  then show ?thesis using assms unfolding still_def by (auto elim!: meets_mono intro: untouched_trans)
qed

lemma still_sends [still_intros]:
  "still rt id (send_read fd rt)" "still rt id (send_accept lfd rt)" "still rt id (send_write fd b len rt)"
  "still rt id (send_connect fd a n rt)" "still rt id (send_socket rt)"
  "still rt id (send_commit_write p fd len b rt)"
  unfolding send_read_def send_accept_def send_write_def send_connect_def send_socket_def
    send_commit_write_def Let_def
  by (rule still_submit; simp)+

lemma still_multishot [still_intros]:
  "still rt id (send_recv_multishot fd rt)" "still rt id (send_accept_multishot lfd rt)"
proof -
  let ?rt = "set_current_task_multiple True rt"
  have "still ?rt id (and_then (with_task i (\<lambda>t. Inr (set_multishot t)) ?rt) (\<lambda>rt.
      and_then (with_task (cur_idx rt) inc_rc rt) (\<lambda>rt. Inr (sqe_queue_push e rt))))" for i e
    by (rule still_and_then [OF still_headers(4)]) (rule still_submit; simp)
  moreover have "untouched ?rt = untouched rt" by (simp add: untouched_def fun_eq_iff set_current_task_multiple_def Let_def)
  ultimately show "still rt id (send_recv_multishot fd rt)" "still rt id (send_accept_multishot lfd rt)"
    by (simp_all add: send_recv_multishot_def send_accept_multishot_def Let_def still_def)
qed

lemma still_leaf: "still rt id m \<Longrightarrow> still rt (snd \<circ> snd) (and_then m (\<lambda>rt. Inr (a rt, b rt, rt)))"
  by (rule still_and_then [where sel = id]) auto

lemma still_polls [still_intros]:
  "still rt (snd \<circ> snd) (accept_poll fa rt)" "still rt (snd \<circ> snd) (write_poll fw rt)"
  "still rt (snd \<circ> snd) (socket_poll a fs rt)" "still rt (snd \<circ> snd) (accept_poll_next E sa rt)"
  unfolding accept_poll_def write_poll_def socket_poll_def accept_poll_next_def Let_def
  by (auto intro!: still_leaf still_intros split: AcceptFuture.split WriteFuture.split
      SocketFuture.split stream_state.split)

lemma still_read_start: "still rt (snd \<circ> snd) (read_poll E (read fd) rt)"
  by (auto simp: read_poll_def read_def intro!: still_leaf still_intros)

lemma still_commit_start: "still rt (snd \<circ> snd) (commit_poll (CF_Init p i fd len) rt)"
  by (auto simp: commit_poll_def intro!: still_leaf still_intros)

lemma still_clone_task: "still rt snd (clone_task_at i rt)"
proof -
  have "pool_safe (clone_task_at i rt)"
    by (auto simp: clone_task_at_def slab_index_def task_clone_def task_update_def intro!: pool_safe_and_then)
  moreover have "untouched rt rt'" if "clone_task_at i rt = Inr (p, rt')" for p rt'
    using that settles_clone [OF that] by (auto simp: untouched_def clone_task_at_def res_simps)
  ultimately show ?thesis by (cases "clone_task_at i rt") (auto simp: still_def)
qed

lemma pool_safe_spawn_insert: "pool_safe (spawn_insert E fut rt)"
  unfolding spawn_insert_def task_alloc_def task_new_def task_clone_def task_update_def insert_task_def
    slab_insert_def growth_def slot_next_free_def Let_def
  by (auto intro!: pool_safe_and_then split: prod.split)

lemma spawn_insert_alone:
  "spawn_insert E fut rt = Inr (p, old, rt') \<Longrightarrow> rt_buffer rt' = rt_buffer rt \<and> rt_buf_ring rt' = rt_buf_ring rt"
  by (auto simp: spawn_insert_def task_alloc_def res_simps Let_def split: prod.splits)

subsection \<open>What the kernel takes along a run\<close>

text \<open>The batches of a run of the loop, each legal in the state it is handed over in.\<close>

primrec batches_legal :: "('g \<Rightarrow> cqe list \<Rightarrow> rt \<Rightarrow> bool) \<Rightarrow> ('g \<Rightarrow> cqe list \<Rightarrow> 'g) \<Rightarrow> frame env
    \<Rightarrow> (nat \<Rightarrow> u64 list \<Rightarrow> kernel_turn) \<Rightarrow> nat \<Rightarrow> 'g \<Rightarrow> u64 list \<Rightarrow> rt \<Rightarrow> bool" where
  "batches_legal legal adv E kern 0 c K rt \<longleftrightarrow> True"
| "batches_legal legal adv E kern (Suc n) c K rt \<longleftrightarrow>
     (case submit_pending E rt of
        Inl _ \<Rightarrow> True
      | Inr (es, rt) \<Rightarrow>
          (let K = K @ map sqe_user_data es
           in case kern n K of
                Io_err _ \<Rightarrow> True
              | Completions cs \<Rightarrow> legal c cs rt \<and>
                  (case loop_body E (frame_poll E) frame_drop cs rt of
                     Some (Inr (over, rt)) \<Rightarrow>
                       over \<or> batches_legal legal adv E kern n (adv c cs) (fold (complete_one E) cs K) rt
                   | _ \<Rightarrow> True)))"

definition run_legal :: "('g \<Rightarrow> cqe list \<Rightarrow> rt \<Rightarrow> bool) \<Rightarrow> ('g \<Rightarrow> cqe list \<Rightarrow> 'g) \<Rightarrow> frame env
    \<Rightarrow> (nat \<Rightarrow> u64 list \<Rightarrow> kernel_turn) \<Rightarrow> nat \<Rightarrow> 'g \<Rightarrow> frame \<Rightarrow> rt \<Rightarrow> bool" where
  "run_legal legal adv E kern n c fut rt \<longleftrightarrow>
     (case and_then (spawn E (frame_poll E) frame_drop fut rt) free_unsed_slab_slot of
        Inl _ \<Rightarrow> True
      | Inr rt \<Rightarrow> batches_legal legal adv E kern n c [] rt)"

text \<open>The batches that the kernel hands over in a run, in order.\<close>

primrec run_batches :: "frame env \<Rightarrow> (nat \<Rightarrow> u64 list \<Rightarrow> kernel_turn) \<Rightarrow> nat \<Rightarrow> u64 list \<Rightarrow> rt \<Rightarrow> cqe list list" where
  "run_batches E kern 0 K rt = []"
| "run_batches E kern (Suc n) K rt =
     (case submit_pending E rt of
        Inl _ \<Rightarrow> []
      | Inr (es, rt) \<Rightarrow>
          (let K = K @ map sqe_user_data es
           in case kern n K of
                Io_err _ \<Rightarrow> []
              | Completions cs \<Rightarrow> cs #
                  (case loop_body E (frame_poll E) frame_drop cs rt of
                     Some (Inr (False, rt)) \<Rightarrow> run_batches E kern n (fold (complete_one E) cs K) rt
                   | _ \<Rightarrow> [])))"

definition batches_along :: "frame env \<Rightarrow> (nat \<Rightarrow> u64 list \<Rightarrow> kernel_turn) \<Rightarrow> nat \<Rightarrow> frame \<Rightarrow> rt \<Rightarrow> cqe list list" where
  "batches_along E kern n fut rt =
     (case and_then (spawn E (frame_poll E) frame_drop fut rt) free_unsed_slab_slot of
        Inl _ \<Rightarrow> []
      | Inr rt \<Rightarrow> if is_runtime_free rt then [] else run_batches E kern n [] rt)"

lemma batches_legal_always: "(\<And>c cs rt. legal c cs rt) \<Longrightarrow> batches_legal legal adv E kern n c K rt"
  by (induction n arbitrary: c K rt) (auto simp: Let_def split: sum.split prod.split kernel_turn.split option.split)

lemma run_legal_always: "(\<And>c cs rt. legal c cs rt) \<Longrightarrow> run_legal legal adv E kern n c fut rt"
  by (auto simp: run_legal_def batches_legal_always split: sum.split)

subsection \<open>The contract\<close>

text \<open>\<open>inv c H rt\<close>: pool and ring agree with the multiset \<open>H\<close> of everything owned; \<open>c\<close> is what the kernel
  has done so far. \<open>lh\<close>, \<open>ah\<close> and \<open>bh\<close> are what a local, an awaited future and a buffer inside a commit
  hold, \<open>tok\<close> is what arrives with a completion. \<open>streams\<close> says whether bodies may use read streams,
  \<open>legal\<close> and \<open>adv\<close> what a batch of completions takes from the ring.\<close>

locale resource =
  fixes E :: "frame env" and bad :: "fault \<Rightarrow> bool" and inv :: "'g \<Rightarrow> 'x multiset \<Rightarrow> rt \<Rightarrow> bool"
    and lh :: "local_value \<Rightarrow> 'x multiset" and ah :: "awaiting \<Rightarrow> 'x multiset" and bh :: "rw_buffer \<Rightarrow> 'x multiset"
    and tok :: "u32 \<Rightarrow> 'x multiset" and streams :: bool
    and legal :: "'g \<Rightarrow> cqe list \<Rightarrow> rt \<Rightarrow> bool" and adv :: "'g \<Rightarrow> cqe list \<Rightarrow> 'g"
  assumes bad_pool: "bad e \<Longrightarrow> pool_fault e"
    and inv_cong: "\<lbrakk>rt_buffer rt' = rt_buffer rt; rt_buf_ring rt' = rt_buf_ring rt\<rbrakk> \<Longrightarrow> inv c H rt' \<longleftrightarrow> inv c H rt"
    and no_local: "lh (L_accept sa) = {#}" "lh (L_read sr) = {#}"
    and no_leaf: "ah Aw_forever = {#}" "ah (Aw_accept fa ka) = {#}" "ah (Aw_read fr j kr) = {#}"
      "ah (Aw_accept_next i ko) = {#}" "ah (Aw_read_next i j ko) = {#}" "ah (Aw_write fw kc) = {#}"
      "ah (Aw_connect adr fs ks) = {#}"
    and lose: "inv c (tok fl + G) rt \<Longrightarrow> inv c G rt"
    and drop_rw: "inv c (lh (L_rw b) + G) rt \<Longrightarrow> meets bad (inv c G) (rwbuffer_drop b rt)"
    and drop_w: "inv c (lh (L_w w) + G) rt \<Longrightarrow> meets bad (inv c G) (drop_wbuffer w rt)"
    and alloc: "inv c G rt \<Longrightarrow> meets bad (\<lambda>(w, rt). inv c (lh (L_w w) + G) rt) (alloc_write_buffer rt)"
    and clone: "inv c (lh (L_w w) + G) rt \<Longrightarrow> meets bad (inv c (lh (L_w w) + (lh (L_w w) + G))) (clone_wbuffer w rt)"
    and fan_start: "ah (Aw_write_multiple (write_multiple fds w len) km) = lh (L_w w)"
    and fan_poll: "inv c (ah (Aw_write_multiple fm km) + G) rt \<Longrightarrow>
      meets bad (\<lambda>(f, _, rt). inv c (ah (Aw_write_multiple f km) + G) rt) (write_multiple_poll fm rt)"
    and commit_start: "rwbuffer_commit b len = (b', fc) \<Longrightarrow> ah (Aw_commit b' fc kc) = lh (L_rw b)"
    and commit_step: "inv c (ah (Aw_commit b fc kc) + G) rt \<Longrightarrow>
      meets bad (\<lambda>(f, p, rt). inv c ((case p of Poll_Pending \<Rightarrow> ah (Aw_commit b f kc) | Poll_Ready _ \<Rightarrow> bh b) + G) rt)
        (commit_poll fc rt)"
    and commit_drop: "inv c (bh b + G) rt \<Longrightarrow> meets bad (inv c G) (rwbuffer_drop b rt)"
    and drop_leaf: "inv c (ah a + G) rt \<Longrightarrow> meets bad (inv c G) (drop_awaiting a rt)"
    and read_ready: "inv c (tok (current_cqe_flags rt) + G) rt \<Longrightarrow>
      meets bad (\<lambda>(f, p, rt). inv c ((case p of Poll_Ready (Inr b) \<Rightarrow> lh (L_rw b) | _ \<Rightarrow> {#}) + G) rt) (read_poll E fr rt)"
    and read_item: "streams \<Longrightarrow> inv c G rt \<Longrightarrow>
      meets bad (\<lambda>(s, p, rt). inv c ((case p of Poll_Ready (Some b) \<Rightarrow> lh (L_rw b) | _ \<Rightarrow> {#}) + G) rt)
        (read_poll_next E s rt)"
    and take_batch: "legal c cs rt \<Longrightarrow> inv c H rt \<Longrightarrow> inv (adv c cs) ((\<Sum>e \<leftarrow> cs. tok (cqe_flags e)) + H) rt"
begin

text \<open>Named, so that proofs do not rewrite the parameter.\<close>

definition lenient :: bool where
  "lenient \<longleftrightarrow> streams"

abbreviation lhs :: "locals \<Rightarrow> 'x multiset" where
  "lhs \<equiv> locals_handles lh"

abbreviation hs :: "frame \<Rightarrow> 'x multiset" where
  "hs \<equiv> handles lh ah"

definition fine :: "frame \<Rightarrow> bool" where
  "fine fr \<longleftrightarrow> tidy (fr_locals fr) \<and> (lenient \<or> state_streamless (fr_state fr))"

text \<open>\<open>G\<close> is what the bodies being polled hold.\<close>

definition owned :: "'g \<Rightarrow> u64 set \<Rightarrow> 'x multiset \<Rightarrow> rt \<Rightarrow> bool" where
  "owned c P G rt \<longleftrightarrow> P \<subseteq> dom (futs rt) \<and> (\<forall>q f. futs rt q = Some f \<longrightarrow> fine f) \<and> inv c (held lh ah P rt + G) rt"

abbreviation own_post :: "'g \<Rightarrow> u64 set \<Rightarrow> ('a \<Rightarrow> 'x multiset) \<Rightarrow> ('a \<Rightarrow> rt) \<Rightarrow> 'a res \<Rightarrow> bool" where
  "own_post c P g sel \<equiv> meets bad (\<lambda>x. owned c P (g x) (sel x))"

lemma fine_simps [simp]:
  "fine \<lparr>fr_state = s, fr_locals = ls\<rparr> \<longleftrightarrow> tidy ls \<and> (lenient \<or> state_streamless s)"
  by (simp add: fine_def)

lemma owned_cong: "untouched rt rt' \<Longrightarrow> owned c P G rt' \<longleftrightarrow> owned c P G rt"
  using inv_cong [of rt' rt] by (simp add: owned_def untouched_def held_def)

lemma owned_freed [simp]: "owned c P G (rt\<lparr>rt_freed_reads := n\<rparr>) \<longleftrightarrow> owned c P G rt"
proof -
  have "futs (rt\<lparr>rt_freed_reads := n\<rparr>) = futs rt" by (simp add: futs_def fun_eq_iff)
  then show ?thesis using inv_cong [of "rt\<lparr>rt_freed_reads := n\<rparr>" rt] by (simp add: owned_def held_def)
qed

lemma owned_simps [simp]:
  "owned c P G (rt\<lparr>rt_pending := x\<rparr>) \<longleftrightarrow> owned c P G rt" "owned c P G (rt\<lparr>rt_current := y\<rparr>) \<longleftrightarrow> owned c P G rt"
  "owned c P G (rt\<lparr>rt_tasks := s\<rparr>) \<longleftrightarrow> owned c P G rt" "owned c P G (rt\<lparr>rt_free_list := l\<rparr>) \<longleftrightarrow> owned c P G rt"
  "owned c P G (sqe_queue_push e rt) \<longleftrightarrow> owned c P G rt"
  by (rule owned_cong; simp)+

lemma owned_lose: "owned c P (tok fl + G) rt \<Longrightarrow> owned c P G rt"
  using lose [of c fl "held lh ah P rt + G" rt] by (auto simp: owned_def add_ac)

lemma owned_lose_all: "owned c P (tok fl + G) rt \<Longrightarrow> owned c P G (rt\<lparr>rt_current := i\<rparr>)"
  using owned_lose by simp

text \<open>Operations on pool or ring under the books: one that yields something to own, one that gives up.\<close>

lemma own_op:
  assumes "owned c P (H + G) rt" "calm rt sel r"
    and "\<And>G. inv c (H + G) rt \<Longrightarrow> meets bad (\<lambda>x. inv c (g x + G) (sel x)) r"
  shows "own_post c P (\<lambda>x. g x + G) sel r"
proof (cases r)
  case (Inl e)
  then show ?thesis using assms(1) assms(3) [of "held lh ah P rt + G"] by (simp add: owned_def add_ac)
next
  case (Inr x)
  then have "futs (sel x) = futs rt" using assms(2) by simp
  then show ?thesis using assms(1) assms(3) [of "held lh ah P rt + G"] held_cong [of "sel x" rt lh ah P] Inr
    by (simp add: owned_def add_ac)
qed

lemma own_give:
  assumes "owned c P (H + G) rt" "calm rt id r" "\<And>G. inv c (H + G) rt \<Longrightarrow> meets bad (inv c G) r"
  shows "meets bad (owned c P G) r"
  using own_op [OF assms(1,2), of "\<lambda>_. {#}"] assms(3) by (simp add: meets_def split: sum.splits)

lemma still_own:
  assumes "owned c P G rt" "still rt sel m"
  shows "own_post c P (\<lambda>_. G) sel m"
  using assms bad_pool owned_cong by (cases m) auto

lemma own_drops:
  "owned c P (lh (L_rw b) + G) rt \<Longrightarrow> meets bad (owned c P G) (rwbuffer_drop b rt)"
  "owned c P (bh b + G) rt \<Longrightarrow> meets bad (owned c P G) (rwbuffer_drop b rt)"
  "owned c P (lh (L_w w) + G) rt \<Longrightarrow> meets bad (owned c P G) (drop_wbuffer w rt)"
  "owned c P (ah a + G) rt \<Longrightarrow> meets bad (owned c P G) (drop_awaiting a rt)"
  by (erule own_give [OF _ calm_buffers]; rule buffers_only_drops buffers_only_drop_awaiting
      drop_rw commit_drop drop_w drop_leaf; assumption)+

lemma own_alloc: "owned c P G rt \<Longrightarrow> own_post c P (\<lambda>x. lh (L_w (fst x)) + G) snd (alloc_write_buffer rt)"
  using own_op [of c P "{#}" G rt snd "alloc_write_buffer rt" "\<lambda>x. lh (L_w (fst x))"] alloc
  by (simp add: split_def calm_intros)

lemma own_clone:
  "owned c P (lh (L_w w) + G) rt \<Longrightarrow> meets bad (owned c P (lh (L_w w) + (lh (L_w w) + G))) (clone_wbuffer w rt)"
  using own_op [of c P "lh (L_w w)" G rt id "clone_wbuffer w rt" "\<lambda>_. lh (L_w w) + lh (L_w w)"] clone
  by (simp add: calm_intros add.assoc)

lemma own_fan_out: "owned c P (ah (Aw_write_multiple f k) + G) rt \<Longrightarrow>
    own_post c P (\<lambda>x. ah (Aw_write_multiple (fst x) k) + G) (snd \<circ> snd) (write_multiple_poll f rt)"
  by (rule own_op [OF _ calm_write_multiple]) (use fan_poll in \<open>auto simp: split_def\<close>)

lemma own_commit: "owned c P (ah (Aw_commit b f k) + G) rt \<Longrightarrow>
    own_post c P (\<lambda>x. (case fst (snd x) of Poll_Pending \<Rightarrow> ah (Aw_commit b (fst x) k) | Poll_Ready _ \<Rightarrow> bh b) + G)
      (snd \<circ> snd) (commit_poll f rt)"
  by (rule own_op [OF _ calm_polls(3)]) (use commit_step in \<open>auto simp: split_def\<close>)

lemma own_read: "owned c P (tok (current_cqe_flags rt) + G) rt \<Longrightarrow>
    own_post c P (\<lambda>x. (case fst (snd x) of Poll_Ready (Inr b) \<Rightarrow> lh (L_rw b) | _ \<Rightarrow> {#}) + G) (snd \<circ> snd) (read_poll E f rt)"
  by (rule own_op [OF _ calm_read_polls(1)]) (use read_ready in \<open>auto simp: split_def\<close>)

lemma own_read_item:
  assumes lenient "owned c P G rt"
  shows "own_post c P (\<lambda>x. (case fst (snd x) of Poll_Ready (Some b) \<Rightarrow> lh (L_rw b) | _ \<Rightarrow> {#}) + G) (snd \<circ> snd)
    (read_poll_next E s rt)"
  using own_op [of c P "{#}" G rt "snd \<circ> snd" "read_poll_next E s rt"
      "\<lambda>x. case fst (snd x) of Poll_Ready (Some b) \<Rightarrow> lh (L_rw b) | _ \<Rightarrow> {#}"] read_item assms
  by (simp add: calm_intros split_def lenient_def)

text \<open>Locals and frames.\<close>

lemma own_drop_local: "owned c P (lh l + G) rt \<Longrightarrow> meets bad (owned c P G) (drop_local l rt)"
  by (cases l) (auto simp: drop_local_def no_local intro: own_drops [THEN meets_mono])

lemma own_drop_locals:
  "owned c P (lhs ls + G) rt \<Longrightarrow> meets bad (owned c P G) (drop_locals ls rt)"
proof (induction ls arbitrary: rt)
  case (Cons x ls)
  obtain i l where x: "x = (i, l)" by (cases x)
  have "meets bad (owned c P (lhs ls + G)) (drop_local l rt)"
    using Cons.prems x by (intro own_drop_local) (simp add: add.assoc)
  then show ?case unfolding drop_locals_def x fold_res.simps case_prod_conv
    by (rule meets_and_then) (use Cons.IH in \<open>simp add: drop_locals_def\<close>)
qed (simp add: drop_locals_def)

lemma own_frame_drop:
  assumes "owned c P (hs fr + G) rt"
  shows "meets bad (owned c P G) (frame_drop fr rt)"
  unfolding frame_drop_def
proof (rule meets_and_then [where Q = "owned c P (lhs (fr_locals fr) + G)"])
  show "meets bad (owned c P (lhs (fr_locals fr) + G)) (case fr_state fr of Await a \<Rightarrow> drop_awaiting a rt | _ \<Rightarrow> Inr rt)"
    using assms own_drops(4) by (cases "fr_state fr") (auto simp: handles_def add.assoc)
qed (use own_drop_locals in simp)

lemma own_assign:
  assumes "owned c P (lh l + lhs ls + G) rt" "tidy ls"
  shows "own_post c P (\<lambda>x. lhs (fst x) + G) snd (assign i l ls rt)"
  unfolding assign_def
proof (rule meets_and_then [where Q = "owned c P (lh l + lhs (remove_local i ls) + G)"])
  show "meets bad (owned c P (lh l + lhs (remove_local i ls) + G))
      (case map_of ls i of None \<Rightarrow> Inr rt | Some old \<Rightarrow> drop_local old rt)"
  proof (cases "map_of ls i")
    case None
    then show ?thesis using assms(1) remove_local_handles(2) [OF None] by simp
  next
    case (Some old)
    have "owned c P (lh old + (lh l + lhs (remove_local i ls) + G)) rt"
      using assms(1) remove_local_handles(1) [OF assms(2) Some, of lh] by (simp add: add_ac)
    then show ?thesis using Some own_drop_local by fastforce
  qed
qed simp

text \<open>Tasks.\<close>

lemma owned_checkout:
  assumes "owned c P G rt" "futs rt p = Some f" "p \<notin> P"
  shows "owned c (insert p P) (hs f + G) rt"
  using assms held_insert [OF assms(2,3), of lh ah] by (auto simp: owned_def add_ac)

lemma owned_store:
  assumes o: "owned c (insert p P) (hs f + G) rt" and p: "p \<notin> P" and t: "fine f"
    and rt': "futs rt' = (futs rt)(p \<mapsto> f)" "rt_buffer rt' = rt_buffer rt" "rt_buf_ring rt' = rt_buf_ring rt"
  shows "owned c P G rt'"
proof -
  have "held lh ah P rt' = hs f + held lh ah (insert p P) rt"
    using held_insert [of rt' p f P lh ah] held_other [OF rt'(1)] rt'(1) p by simp
  moreover have "inv c H rt' \<longleftrightarrow> inv c H rt" for H by (rule inv_cong [OF rt'(2,3)])
  ultimately show ?thesis using o t rt'(1) by (auto simp: owned_def add_ac split: if_splits)
qed

lemma owned_remove:
  assumes o: "owned c (insert p P) G rt" and p: "p \<notin> P"
    and rt': "futs rt' = (futs rt)(p := None)" "rt_buffer rt' = rt_buffer rt" "rt_buf_ring rt' = rt_buf_ring rt"
  shows "owned c P G rt'"
proof -
  have "held lh ah P rt' = held lh ah (insert p P) rt'" unfolding held_def using rt'(1) by (intro sum.cong) auto
  with held_other [OF rt'(1)] have "held lh ah P rt' = held lh ah (insert p P) rt" by simp
  moreover have "inv c H rt' \<longleftrightarrow> inv c H rt" for H by (rule inv_cong [OF rt'(2,3)])
  ultimately show ?thesis using o p rt'(1) by (auto simp: owned_def split: if_splits)
qed

lemma owned_heap:
  assumes "owned c P G rt" "futs (rt\<lparr>rt_heap := h\<rparr>) = futs rt"
  shows "owned c P G (rt\<lparr>rt_heap := h\<rparr>)"
  using assms owned_cong [of rt "rt\<lparr>rt_heap := h\<rparr>"] by (simp add: untouched_def)

lemma not_bad [simp]: "\<not> bad (Panic Arith_overflow)" "\<not> bad (Ub u)" "\<not> bad (Panic Resumed_after_completion)"
  "\<not> bad (Panic Client_panic)" "\<not> bad (Panic Newer_cqe)" "\<not> bad (Panic Missing_buf_id)"
  using bad_pool by fastforce+

lemma own_task_drop:
  assumes o: "owned c P G rt" and p: "p \<notin> P"
  shows "meets bad (owned c P G) (task_drop frame_drop p rt)"
proof (cases "rt_heap rt p")
  case None
  then show ?thesis by (simp add: task_drop_def task_release_def task_deref_def)
next
  case (Some t)
  show ?thesis
  proof (cases "sub_ovf (ref_counter t) 1")
    case (Inl e)
    then show ?thesis using Some
      by (auto simp: task_drop_def task_release_def task_deref_def sub_ovf_def split: if_splits)
  next
    case (Inr n)
    let ?rt = "rt\<lparr>rt_heap := (rt_heap rt)(p \<mapsto> t\<lparr>ref_counter := n\<rparr>)\<rparr>"
    have "futs ?rt = futs rt" using Some by (auto simp: futs_def fun_eq_iff)
    then have o1: "owned c P G ?rt" and f: "futs ?rt p = Some (task_fut t)"
      using owned_heap [OF o] Some by (simp_all add: futs_def)
    show ?thesis
    proof (cases "n = 0")
      case False
      then show ?thesis using Some Inr o1 by (simp add: task_drop_def task_release_def task_deref_def Let_def)
    next
      case True
      have d: "meets bad (owned c (insert p P) G) (frame_drop (task_fut t) ?rt)"
        by (rule own_frame_drop [OF owned_checkout [OF o1 f p]])
      show ?thesis
      proof (cases "frame_drop (task_fut t) ?rt")
        case (Inl e)
        then show ?thesis using d Some Inr True
          by (simp add: task_drop_def task_release_def task_deref_def Let_def)
      next
        case r: (Inr r)
        have own: "owned c (insert p P) G r" using d r by simp
        then obtain raw where raw: "rt_heap r p = Some raw" by (auto simp: owned_def futs_def dom_def)
        have "owned c P G (r\<lparr>rt_heap := (rt_heap r)(p := None)\<rparr>)"
          by (rule owned_remove [OF own p]) (auto simp: futs_def fun_eq_iff)
        then show ?thesis using r raw Some Inr True
          by (auto simp: task_drop_def task_release_def task_deref_def Let_def split: option.split)
      qed
    qed
  qed
qed

text \<open>Running a body.\<close>

definition runs :: "'g \<Rightarrow> u64 set \<Rightarrow> 'x multiset \<Rightarrow> step_result \<Rightarrow> bool" where
  "runs c P G r \<longleftrightarrow> meets bad (\<lambda>(fr, _, rt). owned c P (hs fr + G) rt \<and> fine fr) r"

lemma runs_simps [simp]:
  "runs c P G (Inl e) \<longleftrightarrow> \<not> bad e"
  "runs c P G (Inr (fr, b, rt)) \<longleftrightarrow> owned c P (hs fr + G) rt \<and> fine fr"
  by (simp_all add: runs_def)

lemma runs_and_then:
  assumes "meets bad Q m" "\<And>x. m = Inr x \<Longrightarrow> Q x \<Longrightarrow> runs c P G (f x)"
  shows "runs c P G (and_then m f)"
  using assms unfolding runs_def by (rule meets_and_then)

lemmas runs_still = runs_and_then [OF still_own]

lemma runs_assign:
  assumes "owned c P (lh l + lhs ls + G) rt" "tidy ls"
    and go: "\<And>ls' rt'. tidy ls' \<Longrightarrow> owned c P (lhs ls' + G) rt' \<Longrightarrow> runs c P G (go ls' rt')"
  shows "runs c P G (and_then (assign i l ls rt) (\<lambda>(ls, rt). go ls rt))"
proof (rule runs_and_then [OF own_assign [OF assms(1,2)]])
  fix x assume x: "assign i l ls rt = Inr x" "owned c P (lhs (fst x) + G) (snd x)"
  then have "tidy (fst x)" using assms(2) by (auto simp: assign_def res_simps)
  with x go show "runs c P G (case x of (ls, rt) \<Rightarrow> go ls rt)" by (cases x) simp
qed

lemma runs_bind_buffer:
  assumes "owned c P (lh (L_rw b) + (lhs ls + G)) rt" "tidy ls"
    and "\<And>n ls' rt'. tidy ls' \<Longrightarrow> owned c P (lhs ls' + G) rt' \<Longrightarrow> runs c P G (go n ls' rt')"
  shows "runs c P G (bind_buffer j b ls rt go)"
  unfolding bind_buffer_def by (rule runs_assign) (use assms in \<open>simp_all add: add.assoc\<close>)

lemma runs_read_done:
  assumes "owned c P ((case v of Inr b \<Rightarrow> lh (L_rw b) | _ \<Rightarrow> {#}) + (lhs ls + G)) rt" "tidy ls"
    and "\<And>v ls' rt'. tidy ls' \<Longrightarrow> owned c P (lhs ls' + G) rt' \<Longrightarrow> runs c P G (go v ls' rt')"
  shows "runs c P G (read_done j v ls rt go)"
  using assms by (cases v) (simp_all add: read_done_def runs_bind_buffer)

text \<open>Polling a leaf that holds nothing, a read, a commit, a fan-out, a stream.\<close>

lemma runs_await_leaf:
  assumes "owned c P (lhs ls + G) rt" "tidy ls" "still rt (snd \<circ> snd) m"
    and "\<And>leaf. ah (wrap leaf) = {#}" "\<And>leaf. lenient \<or> awaiting_streamless (wrap leaf)"
    and "\<And>leaf v rt'. owned c P (lhs ls + G) rt' \<Longrightarrow> runs c P G (go leaf v rt')"
  shows "runs c P G (await_leaf m wrap ls go)"
  unfolding await_leaf_def
  by (rule runs_still [OF assms(1,3)]) (use assms(2,4-) in \<open>auto split: poll_result.split\<close>)

lemma runs_await_read:
  assumes m: "own_post c P (\<lambda>x. (case fst (snd x) of Poll_Ready (Inr b) \<Rightarrow> lh (L_rw b) | _ \<Rightarrow> {#}) + (lhs ls + G))
      (snd \<circ> snd) m" and t: "tidy ls" and sl: "lenient \<or> (\<forall>v. streamless (k v))"
    and go: "\<And>v ls' rt'. tidy ls' \<Longrightarrow> owned c P (lhs ls' + G) rt' \<Longrightarrow> runs c P G (run E (k v) ls' rt')"
  shows "runs c P G (await_leaf m (\<lambda>f. Aw_read f j k) ls (\<lambda>_ v rt. read_done j v ls rt (\<lambda>v. run E (k v))))"
  unfolding await_leaf_def
proof (rule runs_and_then [OF m])
  fix x :: "ReadFuture \<times> rw_buffer io_result poll_result \<times> rt"
  assume x: "owned c P ((case fst (snd x) of Poll_Ready (Inr b) \<Rightarrow> lh (L_rw b) | _ \<Rightarrow> {#}) + (lhs ls + G)) ((snd \<circ> snd) x)"
  obtain f q rt' where xs: "x = (f, q, rt')" by (cases x)
  have "runs c P G (read_done j v ls rt' (\<lambda>v. run E (k v)))" if "q = Poll_Ready v" for v
    by (rule runs_read_done [OF _ t go]) (use x xs that in simp_all)
  then show "runs c P G (case x of (leaf, p, rt) \<Rightarrow> (case p of
      Poll_Pending \<Rightarrow> Inr (\<lparr>fr_state = Await (Aw_read leaf j k), fr_locals = ls\<rparr>, False, rt)
    | Poll_Ready v \<Rightarrow> read_done j v ls rt (\<lambda>v. run E (k v))))"
    using x xs t sl by (cases q) (auto simp: no_leaf)
qed

lemma own_read_start:
  assumes "owned c P G rt"
  shows "own_post c P (\<lambda>x. (case fst (snd x) of Poll_Ready (Inr b) \<Rightarrow> lh (L_rw b) | _ \<Rightarrow> {#}) + G) (snd \<circ> snd)
    (read_poll E (read fd) rt)"
  using still_own [OF assms still_read_start, of E fd]
  by (rule meets_mono) (auto simp: read_poll_def read_def res_simps)

lemma runs_await_commit:
  assumes o: "owned c P (ah (Aw_commit b f k) + (lhs ls + G)) rt" and t: "tidy ls"
    and sl: "lenient \<or> (\<forall>v. streamless (k v))"
    and go: "\<And>v rt'. owned c P (lhs ls + G) rt' \<Longrightarrow> runs c P G (go v rt')"
  shows "runs c P G (await_leaf (commit_poll f rt) (\<lambda>f. Aw_commit b f k) ls
    (\<lambda>_ v rt. and_then (rwbuffer_drop b rt) (go v)))"
  unfolding await_leaf_def
proof (rule runs_and_then [OF own_commit [OF o]])
  fix x :: "CommitFuture \<times> i32 poll_result \<times> rt"
  assume x: "owned c P ((case fst (snd x) of Poll_Pending \<Rightarrow> ah (Aw_commit b (fst x) k) | Poll_Ready _ \<Rightarrow> bh b) + (lhs ls + G))
    ((snd \<circ> snd) x)"
  obtain f' q rt' where xs: "x = (f', q, rt')" by (cases x)
  have "runs c P G (and_then (rwbuffer_drop b rt') (go v))" if "q = Poll_Ready v" for v
    by (rule runs_and_then [OF own_drops(2)]) (use x xs that go in auto)
  then show "runs c P G (case x of (leaf, p, rt) \<Rightarrow> (case p of
      Poll_Pending \<Rightarrow> Inr (\<lparr>fr_state = Await (Aw_commit b leaf k), fr_locals = ls\<rparr>, False, rt)
    | Poll_Ready v \<Rightarrow> and_then (rwbuffer_drop b rt) (go v)))"
    using x xs t sl by (cases q) (auto simp: add.assoc)
qed

lemma runs_await_fan_out:
  assumes o: "owned c P (ah (Aw_write_multiple f k) + (lhs ls + G)) rt" and t: "tidy ls"
    and sl: "lenient \<or> (\<forall>v. streamless (k v))"
    and go: "\<And>v rt'. owned c P (lhs ls + G) rt' \<Longrightarrow> runs c P G (go v rt')"
  shows "runs c P G (await_leaf (write_multiple_poll f rt) (\<lambda>f. Aw_write_multiple f k) ls
    (\<lambda>f v rt. and_then (write_multiple_drop f rt) (go v)))"
  unfolding await_leaf_def
proof (rule runs_and_then [OF own_fan_out [OF o]])
  fix x :: "WriteMultipleFuture \<times> WriteResult list poll_result \<times> rt"
  assume x: "owned c P (ah (Aw_write_multiple (fst x) k) + (lhs ls + G)) ((snd \<circ> snd) x)"
  obtain f' q rt' where xs: "x = (f', q, rt')" by (cases x)
  have "meets bad (owned c P (lhs ls + G)) (write_multiple_drop f' rt')"
    using x xs own_drops(4) [of c P "Aw_write_multiple f' k"] by (simp add: drop_awaiting_def)
  from runs_and_then [OF this] go x xs t sl
  show "runs c P G (case x of (leaf, p, rt) \<Rightarrow> (case p of
      Poll_Pending \<Rightarrow> Inr (\<lparr>fr_state = Await (Aw_write_multiple leaf k), fr_locals = ls\<rparr>, False, rt)
    | Poll_Ready v \<Rightarrow> and_then (write_multiple_drop leaf rt) (go v)))"
    by (auto simp: add.assoc split: poll_result.split)
qed

lemma runs_accept_next:
  assumes o: "owned c P (lhs ls + G) rt" and t: "tidy ls" and sl: "lenient \<or> (\<forall>v. streamless (k v))"
    and go: "\<And>v ls' rt'. tidy ls' \<Longrightarrow> owned c P (lhs ls' + G) rt' \<Longrightarrow> runs c P G (go v ls' rt')"
  shows "runs c P G (poll_accept_next E i k go ls rt)"
proof -
  have "runs c P G (and_then (accept_poll_next E s rt) (\<lambda>(s', p, rt).
      let ls = (i, L_accept s') # remove_local i ls
      in case p of
           Poll_Pending \<Rightarrow> Inr (\<lparr>fr_state = Await (Aw_accept_next i k), fr_locals = ls\<rparr>, False, rt)
         | Poll_Ready v \<Rightarrow> go v ls rt))" if s: "map_of ls i = Some (L_accept s)" for s
    by (rule runs_still [OF o still_polls(4)])
      (use t sl go local_stream_handles [OF t s, of lh] no_local in \<open>auto simp: Let_def no_leaf
        simp del: locals_handles_simps(2) split: poll_result.split\<close>)
  then show ?thesis by (auto simp: poll_accept_next_def split: option.split local_value.split)
qed

lemma runs_read_next:
  assumes st: lenient and o: "owned c P (lhs ls + G) rt" and t: "tidy ls"
    and go: "\<And>v ls' rt'. tidy ls' \<Longrightarrow> owned c P (lhs ls' + G) rt' \<Longrightarrow> runs c P G (go v ls' rt')"
  shows "runs c P G (poll_read_next E i j k go ls rt)"
proof -
  have "runs c P G (and_then (read_poll_next E s rt) (\<lambda>(s', p, rt).
      let ls = (i, L_read s') # remove_local i ls
      in case p of
           Poll_Pending \<Rightarrow> Inr (\<lparr>fr_state = Await (Aw_read_next i j k), fr_locals = ls\<rparr>, False, rt)
         | Poll_Ready None \<Rightarrow> go None ls rt
         | Poll_Ready (Some b) \<Rightarrow> bind_buffer j b ls rt (\<lambda>n. go (Some n))))"
    if s: "map_of ls i = Some (L_read s)" for s
    by (rule runs_and_then [OF own_read_item [OF st o]])
      (use t st go local_stream_handles [OF t s, of lh] no_local in \<open>auto simp: Let_def no_leaf
        simp del: locals_handles_simps(2) intro!: runs_bind_buffer split: poll_result.splits option.splits\<close>)
  then show ?thesis by (auto simp: poll_read_next_def split: option.split local_value.split)
qed

text \<open>Spawning.\<close>

lemma own_spawn_run:
  assumes env: "env_ok E" and o: "owned c P (lhs theirs + G) rt" and t: "tidy theirs" "lenient \<or> streamless child"
    and body: "\<And>P G rt. owned c P (lhs theirs + G) rt \<Longrightarrow> runs c P G (body rt)"
  shows "meets bad (owned c P G) (spawn_run E body frame_drop \<lparr>fr_state = Start child, fr_locals = theirs\<rparr> rt)"
proof (cases "spawn_insert E \<lparr>fr_state = Start child, fr_locals = theirs\<rparr> rt")
  case (Inl e)
  then show ?thesis using pool_safe_spawn_insert [of E _ rt] bad_pool by (simp add: spawn_run_def) (metis meets_simps(1))
next
  case (Inr x)
  obtain p old rt1 where "x = (p, old, rt1)" by (cases x)
  note ins = Inr [unfolded this]
  note fresh = spawn_insert_futs [OF env ins] and alone = spawn_insert_alone [OF ins]
  have p: "p \<notin> P" using o fresh(1) by (auto simp: owned_def)
  have "held lh ah (insert p P) rt1 = held lh ah P rt"
    unfolding held_def using fresh by (intro sum.cong) auto
  moreover have "inv c H rt1 \<longleftrightarrow> inv c H rt" for H using alone by (intro inv_cong) simp_all
  ultimately have o1: "owned c (insert p P) (lhs theirs + G) rt1"
    using o t fresh(2) by (auto simp: owned_def)
  have step: "spawn_run E body frame_drop \<lparr>fr_state = Start child, fr_locals = theirs\<rparr> rt =
      and_then (body rt1) (\<lambda>(fut', ready, rt).
      and_then (task_deref p (rt_heap rt)) (\<lambda>t.
      and_then (task_drop frame_drop p (rt\<lparr>rt_heap := (rt_heap rt)(p \<mapsto> t\<lparr>task_fut := fut'\<rparr>)\<rparr>)) (\<lambda>rt.
      task_drop frame_drop p (rt\<lparr>rt_current := old\<rparr>))))"
    by (auto simp: spawn_run_def ins task_poll_with_def and_then_assoc spawn_finish_eq split_def)
  have r: "runs c (insert p P) G (body rt1)" by (rule body [OF o1])
  show ?thesis
  proof (cases "body rt1")
    case (Inl e)
    then show ?thesis using r by (simp add: step)
  next
    case (Inr y)
    obtain fr b rt2 where y: "y = (fr, b, rt2)" by (cases y)
    then have o2: "owned c (insert p P) (hs fr + G) rt2" "fine fr" using r Inr by simp_all
    then obtain t2 where t2: "rt_heap rt2 p = Some t2" by (auto simp: owned_def futs_def dom_def)
    have "owned c P G (rt2\<lparr>rt_heap := (rt_heap rt2)(p \<mapsto> t2\<lparr>task_fut := fr\<rparr>)\<rparr>)"
      by (rule owned_store [OF o2(1) p o2(2)]) (use t2 in simp_all)
    then show ?thesis unfolding step Inr y
      by (auto simp: task_deref_def t2 p intro!: meets_and_then [OF own_task_drop] own_task_drop)
  qed
qed

lemma runs_run:
  assumes env: "env_ok E" and "tidy ls" "lenient \<or> streamless p" "owned c P (lhs ls + G) rt"
  shows "runs c P G (run E p ls rt)"
  using assms(2-)
proof (induction p arbitrary: P G ls rt)
  case Done
  have "meets bad (owned c P G) (drop_locals ls rt)" by (rule own_drop_locals [OF Done(3)])
  from runs_and_then [OF this] show ?case by (simp add: tidy_def)
next
  case Forever
  then show ?case by (simp add: no_leaf)
next
  case (Accept fd k)
  then show ?case by (auto simp: no_leaf intro!: runs_await_leaf still_intros)
next
  case (Read fd j k)
  then show ?case by (auto intro!: runs_await_read own_read_start)
next
  case (Accept_stream i fd k)
  then show ?case by (auto simp: no_local intro!: runs_assign)
next
  case (Accept_next i k)
  then show ?case by (auto intro!: runs_accept_next)
next
  case (Read_stream i fd k)
  then show ?case by (auto simp: no_local intro!: runs_assign)
next
  case (Read_next i j k)
  then show ?case by (auto intro!: runs_read_next)
next
  case (Commit i len k)
  show ?case
  proof (cases "\<exists>b. map_of ls i = Some (L_rw b)")
    case True
    then obtain b where b: "map_of ls i = Some (L_rw b)" by blast
    obtain b' f where f: "rwbuffer_commit b len = (b', f)" by fastforce
    let ?ls = "remove_local i ls"
    have "owned c P (ah (Aw_commit b' f k) + (lhs ?ls + G)) rt" and t: "tidy ?ls"
      using Commit.prems remove_local_handles(1) [OF Commit.prems(1) b, of lh] commit_start [OF f]
      by (simp_all add: add.assoc)
    from runs_await_commit [OF this, of "\<lambda>v. run E (k v) ?ls"] Commit t show ?thesis by (auto simp: b f)
  qed (auto split: option.split local_value.split)
next
  case (Write fd b len k)
  then show ?case by (auto simp: no_leaf intro!: runs_await_leaf still_intros)
next
  case (Connect ip port a k)
  then show ?case by (auto simp: no_leaf intro!: runs_await_leaf still_intros)
next
  case (Alloc_write i k)
  show ?case unfolding run.simps
  proof (rule runs_and_then [OF own_alloc [OF Alloc_write.prems(3)]])
    fix x :: "w_buffer \<times> rt" assume x: "owned c P (lh (L_w (fst x)) + (lhs ls + G)) (snd x)"
    obtain w rt' where "x = (w, rt')" by (cases x)
    then show "runs c P G (case x of (w, rt) \<Rightarrow> and_then (assign i (L_w w) ls rt) (\<lambda>(ls, rt). run E k ls rt))"
      using x Alloc_write by (auto simp: add.assoc intro!: runs_assign)
  qed
next
  case (Clone_write i j k)
  show ?case
  proof (cases "\<exists>w. map_of ls i = Some (L_w w)")
    case True
    then obtain w where w: "map_of ls i = Some (L_w w)" by blast
    note split = remove_local_handles(1) [OF Clone_write.prems(1) w, of lh]
    then have "owned c P (lh (L_w w) + (lhs (remove_local i ls) + G)) rt"
      using Clone_write.prems by (simp add: add.assoc)
    note clone = own_clone [OF this]
    show ?thesis unfolding run.simps w option.case local_value.case
      by (rule runs_and_then [OF clone], rule runs_assign) (use Clone_write split in \<open>simp_all add: add.assoc\<close>)
  qed (auto split: option.split local_value.split)
next
  case (Write_multiple i fds len k)
  show ?case
  proof (cases "\<exists>w. map_of ls i = Some (L_w w)")
    case True
    then obtain w where w: "map_of ls i = Some (L_w w)" by blast
    let ?ls = "remove_local i ls"
    have "owned c P (ah (Aw_write_multiple (write_multiple fds w len) k) + (lhs ?ls + G)) rt"
      using Write_multiple.prems remove_local_handles(1) [OF Write_multiple.prems(1) w, of lh]
      by (simp add: fan_start add.assoc)
    from runs_await_fan_out [OF this, of "\<lambda>v. run E (k v) ?ls"] Write_multiple show ?thesis by (auto simp: w)
  qed (auto split: option.split local_value.split)
next
  case (Drop_local i k)
  show ?case
  proof (cases "map_of ls i")
    case (Some l)
    then have "owned c P (lh l + (lhs (remove_local i ls) + G)) rt"
      using Drop_local.prems remove_local_handles(1) [OF Drop_local.prems(1) Some, of lh] by (simp add: add.assoc)
    from runs_and_then [OF own_drop_local [OF this]] Drop_local Some show ?thesis by simp
  qed simp
next
  case (Spawn moved child k)
  let ?theirs = "filter (\<lambda>(i, _). i \<in> set moved) ls" and ?ours = "filter (\<lambda>(i, _). i \<notin> set moved) ls"
  have "lhs ls = lhs ?theirs + lhs ?ours"
    using handles_split [of lh ls "\<lambda>(i, _). i \<in> set moved"] by (simp add: case_prod_beta')
  then have o: "owned c P (lhs ?theirs + (lhs ?ours + G)) rt"
    using Spawn.prems(3) by (simp add: add.assoc)
  have "meets bad (owned c P (lhs ?ours + G))
      (spawn_run E (run E child ?theirs) frame_drop \<lparr>fr_state = Start child, fr_locals = ?theirs\<rparr> rt)"
    by (rule own_spawn_run [OF env o]) (use Spawn in auto)
  then show ?case unfolding run.simps Let_def by (rule runs_and_then) (use Spawn in auto)
qed simp

text \<open>Polling a body for a completion, with what arrived with it.\<close>

lemma runs_resume:
  assumes env: "env_ok E" and t: "tidy ls" "lenient \<or> awaiting_streamless a"
    and o: "owned c P (tok (current_cqe_flags rt) + (hs \<lparr>fr_state = Await a, fr_locals = ls\<rparr> + G)) rt"
  shows "runs c P G (resume E a ls rt)"
proof (cases a)
  case (Aw_read f j k)
  then have "owned c P (tok (current_cqe_flags rt) + (lhs ls + G)) rt" using o by (simp add: no_leaf)
  from own_read [OF this, of f] t show ?thesis
    unfolding resume_def Aw_read awaiting.case by (intro runs_await_read runs_run [OF env]) (use Aw_read in auto)
next
  case (Aw_write_multiple f k)
  then have "owned c P (ah (Aw_write_multiple f k) + (lhs ls + G)) rt" using owned_lose [OF o] by (simp add: add.assoc)
  from runs_await_fan_out [OF this t(1), of "\<lambda>v. run E (k v) ls"] runs_run [OF env t(1)] t(2) Aw_write_multiple
  show ?thesis by (auto simp: resume_def)
next
  case (Aw_commit b f k)
  then have "owned c P (ah (Aw_commit b f k) + (lhs ls + G)) rt" using owned_lose [OF o] by (simp add: add.assoc)
  from runs_await_commit [OF this t(1), of "\<lambda>v. run E (k v) ls"] runs_run [OF env t(1)] t(2) Aw_commit
  show ?thesis by (auto simp: resume_def)
qed (use owned_lose [OF o] t in \<open>auto simp: resume_def no_leaf intro!: runs_await_leaf still_intros runs_run [OF env]
    runs_accept_next runs_read_next\<close>)

lemma runs_poll:
  assumes env: "env_ok E" and t: "fine fr" and o: "owned c P (tok (current_cqe_flags rt) + (hs fr + G)) rt"
  shows "runs c P G (frame_poll E fr rt)"
proof (cases "fr_state fr")
  case (Start p)
  then show ?thesis using runs_run [OF env, of "fr_locals fr" p] owned_lose [OF o] t by (simp add: frame_poll_def handles_def fine_def)
next
  case (Await a)
  then show ?thesis using runs_resume [OF env, of "fr_locals fr" a c P rt G] o t
    by (simp add: frame_poll_def handles_def fine_def add.assoc)
qed (simp add: frame_poll_def)

lemma own_task_poll:
  assumes env: "env_ok E" and o: "owned c {} (tok (current_cqe_flags rt) + G) rt"
  shows "own_post c {} (\<lambda>_. G) snd (task_poll (frame_poll E) p rt)"
proof (cases "rt_heap rt p")
  case None
  then show ?thesis by (simp add: task_poll_def task_deref_def)
next
  case (Some t)
  have f: "futs rt p = Some (task_fut t)" using Some by (simp add: futs_def)
  then have ti: "fine (task_fut t)" using o by (auto simp: owned_def)
  have "owned c {p} (tok (current_cqe_flags rt) + (hs (task_fut t) + G)) rt"
    using owned_checkout [OF o f] by (simp add: add_ac)
  from runs_poll [OF env ti this] have r: "runs c {p} G (frame_poll E (task_fut t) rt)" .
  show ?thesis
  proof (cases "frame_poll E (task_fut t) rt")
    case (Inl e)
    then show ?thesis using r Some by (simp add: task_poll_def task_poll_with_def task_deref_def)
  next
    case (Inr x)
    obtain fr b rt1 where x: "x = (fr, b, rt1)" by (cases x)
    then have o1: "owned c {p} (hs fr + G) rt1" "fine fr" using r Inr by simp_all
    then obtain t1 where t1: "rt_heap rt1 p = Some t1" by (auto simp: owned_def futs_def dom_def)
    have "owned c {} G (rt1\<lparr>rt_heap := (rt_heap rt1)(p \<mapsto> t1\<lparr>task_fut := fr\<rparr>)\<rparr>)"
      by (rule owned_store [OF o1(1) _ o1(2)]) (use t1 in simp_all)
    then show ?thesis using Some t1 Inr x by (simp add: task_poll_def task_poll_with_def task_deref_def)
  qed
qed

lemma own_dispatch:
  assumes env: "env_ok E" and o: "owned c {} (tok (ti_flags info) + G) rt"
  shows "meets bad (owned c {} G) (dispatch_cqe (frame_poll E) p info rt)"
proof -
  have poll: "meets bad (owned c {} G) (and_then (task_poll (frame_poll E) p rt1) (\<lambda>(_, rt). Inr rt))"
    if "owned c {} (tok (current_cqe_flags rt1) + G) rt1" for rt1
    by (rule meets_and_then [OF own_task_poll [OF env that]]) auto
  have normal: "meets bad (owned c {} G) (and_then (task_update p augmente_syscall_nb (rt_heap rt)) (\<lambda>h.
      and_then (task_poll (frame_poll E) p (rt\<lparr>rt_heap := h, rt_current := info'\<rparr>)) (\<lambda>(_, rt). Inr rt)))"
    if fl: "ti_flags info' = ti_flags info" for info'
  proof (cases "task_update p augmente_syscall_nb (rt_heap rt)")
    case (Inl e)
    then show ?thesis by (auto simp: task_update_def task_deref_def augmente_syscall_nb_eq split: option.splits if_splits)
  next
    case (Inr h)
    then have "futs (rt\<lparr>rt_heap := h\<rparr>) = futs rt"
      using task_update_futs [OF Inr futs_headers(3)] by (simp add: futs_def fun_eq_iff)
    from owned_heap [OF o this] fl
    have "owned c {} (tok (current_cqe_flags (rt\<lparr>rt_heap := h, rt_current := info'\<rparr>)) + G) (rt\<lparr>rt_heap := h, rt_current := info'\<rparr>)"
      by (simp add: current_cqe_flags_def)
    then show ?thesis using Inr poll by simp
  qed
  show ?thesis
  proof (cases "rt_heap rt p")
    case (Some t)
    show ?thesis
    proof (cases "evaluate_syscall_nb (tag_syscall_nb (ti_tag info)) t")
      case Normal
      then show ?thesis using Some normal
        by (cases "add_ovf (tag_syscall_nb (ti_tag info)) 1")
          (auto simp: dispatch_cqe_def task_deref_def add_ovf_def expect_def split: option.splits)
    next
      case Multiple
      then show ?thesis using Some poll [of "rt\<lparr>rt_current := info\<rparr>"] o
        by (simp add: dispatch_cqe_def task_deref_def current_cqe_flags_def)
    qed (use Some owned_lose [OF o] in \<open>simp_all add: dispatch_cqe_def task_deref_def\<close>)
  qed (simp add: dispatch_cqe_def task_deref_def)
qed

lemma own_cqe:
  assumes env: "env_ok E" and o: "owned c {} (tok (cqe_flags e) + G) rt"
  shows "meets bad (owned c {} G) (handle_cqe_entry E (frame_poll E) frame_drop e rt)"
proof -
  have fl: "ti_flags (TaskInfo_from_entry e) = cqe_flags e"
    by (simp add: TaskInfo_from_entry_def Let_def)
  show ?thesis unfolding handle_cqe_entry_def Let_def
    by (rule meets_and_then [OF still_own [OF o still_clone_task]])
      (auto simp: fl split: prod.split intro!: meets_and_then [OF own_dispatch [OF env]] own_task_drop
        meets_and_then [OF own_task_drop])
qed

lemma own_batch:
  assumes env: "env_ok E" and "owned c {} ((\<Sum>e \<leftarrow> cs. tok (cqe_flags e)) + G) rt"
  shows "meets bad (owned c {} G) (fold_res (handle_cqe_entry E (frame_poll E) frame_drop) cs rt)"
  using assms(2)
proof (induction cs arbitrary: rt)
  case (Cons e cs)
  have "owned c {} (tok (cqe_flags e) + ((\<Sum>e \<leftarrow> cs. tok (cqe_flags e)) + G)) rt" using Cons.prems by (simp add: add.assoc)
  from own_cqe [OF env this] show ?case unfolding fold_res.simps
    by (rule meets_and_then) (use Cons.IH in simp)
qed simp

text \<open>Turns and runs.\<close>

lemma owned_take:
  assumes "owned c {} {#} rt" "legal c cs rt"
  shows "owned (adv c cs) {} ((\<Sum>e \<leftarrow> cs. tok (cqe_flags e)) + {#}) rt"
  using assms take_batch [OF assms(2), of "held lh ah {} rt"] by (simp add: owned_def add_ac)

lemma own_free_slots:
  assumes "owned c P G rt" "rt_inv ok K H rt"
  shows "meets bad (owned c P G) (free_unsed_slab_slot rt)"
  using assms(1) free_unsed_slab_slot_spec [OF assms(2)] by auto

lemma own_turn:
  assumes env: "env_ok E" and w: "waiting frame_ok K rt" and lb: "legal_batch E cs K" and o: "owned c {} {#} rt" and lg: "legal c cs rt"
    and res: "loop_body E (frame_poll E) frame_drop cs rt = Some r"
  shows "meets bad (\<lambda>x. owned (adv c cs) {} {#} (snd x)) r"
proof -
  have inv: "rt_inv frame_ok K {#} rt" and wake: "rt_wake_list rt = []" and busy: "\<not> is_runtime_free rt"
    using w by (simp_all add: waiting_def)
  let ?batch = "fold_res (handle_cqe_entry E (frame_poll E) frame_drop) cs rt"
  note batch = own_batch [OF env owned_take [OF o lg]]
  show ?thesis
  proof (cases "cs = []")
    case True
    moreover have "\<not> bad (Panic No_entries)" using bad_pool by fastforce
    ultimately show ?thesis using res free_waiting [OF w] busy by (auto simp: loop_body_def)
  next
    case False
    show ?thesis
    proof (cases ?batch)
      case (Inl e)
      then show ?thesis using res False batch free_waiting [OF w] busy by (auto simp: loop_body_def)
    next
      case (Inr rt1)
      then have wake1: "rt_wake_list rt1 = []" and inv1: "rt_inv frame_ok (fold (complete_one E) cs K) {#} rt1"
        using client.batch_spec [OF env inv lb] wake by simp_all
      have o1: "owned (adv c cs) {} {#} rt1" using batch Inr by simp
      have r: "r = and_then (free_unsed_slab_slot rt1) (\<lambda>rt. Inr (is_runtime_free rt, rt))"
        using res False Inr client.drain_idle [OF wake1] free_waiting [OF w] busy by (simp add: loop_body_def)
      show ?thesis unfolding r by (rule meets_and_then [OF own_free_slots [OF o1 inv1]]) simp
    qed
  qed
qed

text \<open>What the books say of an outcome, when the kernel has handed over the batches \<open>css\<close>.\<close>

definition accounted :: "'g \<Rightarrow> cqe list list \<Rightarrow> frame outcome \<Rightarrow> bool" where
  "accounted c css r \<longleftrightarrow>
     (case r of
        Finished rt \<Rightarrow> owned (foldl adv c css) {} {#} rt
      | Io_error e rt \<Rightarrow> owned (foldl adv c css) {} {#} rt
      | Running K rt \<Rightarrow> owned (foldl adv c css) {} {#} rt
      | Faulted e \<Rightarrow> \<not> bad e
      | Diverged \<Rightarrow> True)"

lemma accounted_simps [simp]:
  "accounted c css (Finished rt) \<longleftrightarrow> owned (foldl adv c css) {} {#} rt" "accounted c css (Io_error e rt) \<longleftrightarrow> owned (foldl adv c css) {} {#} rt"
  "accounted c css (Running K rt) \<longleftrightarrow> owned (foldl adv c css) {} {#} rt" "accounted c css (Faulted f) \<longleftrightarrow> \<not> bad f" "accounted c css Diverged"
  by (simp_all add: accounted_def)

lemma accounted_later: "accounted c (cs # css) r \<longleftrightarrow> accounted (adv c cs) css r"
  by (cases r) simp_all

lemma own_block_loop:
  assumes env: "env_ok E" and lk: "legal_kernel E kern" and "waiting frame_ok K rt" "owned c {} {#} rt"
    "batches_legal legal adv E kern n c K rt"
  shows "accounted c (run_batches E kern n K rt) (block_loop E (frame_poll E) frame_drop kern n K rt)"
  using assms(3-)
proof (induction n arbitrary: K rt c)
  case (Suc n)
  show ?case
  proof (cases "submit_pending E rt")
    case (Inl e)
    moreover have "\<not> bad (Panic Sq_full)" using bad_pool by fastforce
    ultimately show ?thesis by (auto simp: submit_pending_def assert_or_def split: if_splits)
  next
    case (Inr x)
    obtain es rt1 where x: "x = (es, rt1)" by (cases x)
    let ?K = "K @ map sqe_user_data es"
    have w: "waiting frame_ok ?K rt1" using submit_pending_spec(2) [OF Suc.prems(1)] Inr x by blast
    have o: "owned c {} {#} rt1" using Inr x Suc.prems(2) by (auto simp: submit_pending_def res_simps)
    show ?thesis
    proof (cases "kern n ?K")
      case (Io_err e)
      then show ?thesis using Inr x o by simp
    next
      case (Completions cs)
      then have lb: "legal_batch E cs ?K" using lk by (auto simp: legal_kernel_def)
      have lg: "legal c cs rt1" using Suc.prems(3) Inr x Completions by (simp add: Let_def)
      from client.loop_body_spec [OF env w lb] obtain r where r: "loop_body E (frame_poll E) frame_drop cs rt1 = Some r"
        and "\<forall>b rt'. r = Inr (b, rt') \<longrightarrow> (if b then fold (complete_one E) cs ?K = [] \<and> idle frame_ok rt'
          else waiting frame_ok (fold (complete_one E) cs ?K) rt')" by blast
      then have w2: "waiting frame_ok (fold (complete_one E) cs ?K) rt'" if "r = Inr (False, rt')" for rt'
        using that by force
      note turn = own_turn [OF env w lb o lg r]
      show ?thesis
      proof (cases r)
        case (Inl e)
        then show ?thesis using Inr x Completions r turn by simp
      next
        case y: (Inr y)
        obtain d rt2 where d: "y = (d, rt2)" by (cases y)
        then have o2: "owned (adv c cs) {} {#} rt2" using turn y by simp
        show ?thesis
        proof (cases d)
          case True
          then show ?thesis using Inr x Completions r y d o2 by simp
        next
          case False
          then have "batches_legal legal adv E kern n (adv c cs) (fold (complete_one E) cs ?K) rt2"
            using Suc.prems(3) Inr x Completions r y d by (simp add: Let_def)
          from Suc.IH [OF w2 o2 this] False y d show ?thesis using Inr x Completions r by (simp add: accounted_later)
        qed
      qed
    qed
  qed
qed simp

lemma owned_idle: "idle ok rt \<Longrightarrow> owned c {} {#} rt \<longleftrightarrow> inv c {#} rt"
  by (simp add: owned_def held_def idle_def futs_def dom_def)

lemma own_block_on:
  assumes env: "env_ok E" and lk: "legal_kernel E kern" and st: "idle frame_ok rt" "frame_ok (async_block p)" "lenient \<or> streamless p"
    and pool: "inv c {#} rt" and lg: "run_legal legal adv E kern n c (async_block p) rt"
  shows "accounted c (batches_along E kern n (async_block p) rt) (block_on E (frame_poll E) frame_drop kern n (async_block p) rt)"
proof -
  have o: "owned c {} (lhs [] + {#}) rt" using owned_idle [OF st(1)] pool by simp
  have inv: "rt_inv frame_ok [] {#} rt" using st(1) by (simp add: idle_def)
  then have "slab_inv (rt_tasks rt)" using acctD(1) by (auto simp: rt_inv_def)
  then have "spawn E (frame_poll E) frame_drop (async_block p) rt =
      spawn_run E (run E p []) frame_drop \<lparr>fr_state = Start p, fr_locals = []\<rparr> rt"
    by (simp add: spawn_eq_run [OF env] frame_poll_def [abs_def] async_block_def)
  with own_spawn_run [OF env o _ st(3)] runs_run [OF env, of "[]", OF _ st(3)]
  have sp: "meets bad (owned c {} {#}) (spawn E (frame_poll E) frame_drop (async_block p) rt)" by (simp add: tidy_def)
  note k = keeps_spawn [where ok = frame_ok and poll = "frame_poll E", OF env frame_drop_ok st(2) frame_poll_ok [OF env st(2)] inv]
  show ?thesis
  proof (cases "spawn E (frame_poll E) frame_drop (async_block p) rt")
    case (Inl e)
    then show ?thesis using sp by (simp add: block_on_def)
  next
    case (Inr rt0)
    then have "rt_inv frame_ok [] {#} rt0" using keepsD(2) [OF k] by simp
    then have fr: "meets bad (owned c {} {#}) (free_unsed_slab_slot rt0)" using own_free_slots sp Inr by simp
    from client.spawned [OF env st(1,2)] Inr lg show ?thesis using fr own_block_loop [OF env lk]
      by (cases "free_unsed_slab_slot rt0") (auto simp: block_on_def run_legal_def batches_along_def)
  qed
qed

end

end
