(* ===== verification/In_Step.thy ===== *)
theory In_Step
  imports Resources Scenarios
begin

text \<open>
  The numbers that pair a completion with the await that asked for it. A task and its submissions
  carry a number; a completion is delivered only when the two agree. For bodies built from the
  single-shot calls (\<open>accept\<close>, \<open>read\<close>, \<open>write\<close>, \<open>connect\<close>, and everything that submits nothing)
  they always agree: between two completions every live task is suspended on a call it has
  submitted, has exactly one entry staged or in flight, and that entry carries the task's number.
\<close>

subsection \<open>Single-shot bodies\<close>

primrec single :: "prog \<Rightarrow> bool" where
  "single Done \<longleftrightarrow> True"
| "single Crash \<longleftrightarrow> True"
| "single Forever \<longleftrightarrow> True"
| "single (Accept fd k) \<longleftrightarrow> (\<forall>v. single (k v))"
| "single (Read fd j k) \<longleftrightarrow> (\<forall>v. single (k v))"
| "single (Accept_stream i fd k) \<longleftrightarrow> False"
| "single (Accept_next i k) \<longleftrightarrow> False"
| "single (Read_stream i fd k) \<longleftrightarrow> False"
| "single (Read_next i j k) \<longleftrightarrow> False"
| "single (Commit i len k) \<longleftrightarrow> False"
| "single (Write fd b len k) \<longleftrightarrow> (\<forall>v. single (k v))"
| "single (Connect ip port a k) \<longleftrightarrow> (\<forall>v. single (k v))"
| "single (Alloc_write i k) \<longleftrightarrow> single k"
| "single (Clone_write i j k) \<longleftrightarrow> single k"
| "single (Write_multiple i fds len k) \<longleftrightarrow> False"
| "single (Drop_local i k) \<longleftrightarrow> single k"
| "single (Spawn moved child k) \<longleftrightarrow> single child \<and> single k"

text \<open>Suspended on a call that has been submitted.\<close>

definition posted :: "awaiting \<Rightarrow> bool" where
  "posted a =
     (case a of
        Aw_accept AF_Submited k \<Rightarrow> \<forall>v. single (k v)
      | Aw_read (RF_Pending fd) j k \<Rightarrow> \<forall>v. single (k v)
      | Aw_write WF_Pending k \<Rightarrow> \<forall>v. single (k v)
      | Aw_connect adr (SF_Connecting fd addr) k \<Rightarrow> \<forall>v. single (k v)
      | _ \<Rightarrow> False)"

definition parked :: "frame \<Rightarrow> bool" where
  "parked fr \<longleftrightarrow> (case fr_state fr of Await a \<Rightarrow> posted a | _ \<Rightarrow> False)"

lemma posted_simps [simp]:
  "posted (Aw_accept AF_Submited ka) \<longleftrightarrow> (\<forall>v. single (ka v))"
  "posted (Aw_read (RF_Pending fd) j kr) \<longleftrightarrow> (\<forall>v. single (kr v))"
  "posted (Aw_write WF_Pending kw) \<longleftrightarrow> (\<forall>v. single (kw v))"
  "posted (Aw_connect adr (SF_Connecting fd addr) ks) \<longleftrightarrow> (\<forall>v. single (ks v))"
  "\<not> posted Aw_forever"
  by (simp_all add: posted_def)

lemma parked_simps [simp]:
  "parked \<lparr>fr_state = Await a, fr_locals = ls\<rparr> \<longleftrightarrow> posted a"
  "\<not> parked \<lparr>fr_state = Stopped, fr_locals = ls\<rparr>" "\<not> parked \<lparr>fr_state = Start p, fr_locals = ls\<rparr>"
  by (simp_all add: parked_def)

lemma parkedE:
  assumes "parked fr"
  obtains a where "fr_state fr = Await a" "posted a"
  using assms by (auto simp: parked_def split: suspended.splits)

lemma postedE:
  assumes "posted a"
  obtains (accept) k where "a = Aw_accept AF_Submited k" "\<forall>v. single (k v)"
    | (read) fd j k where "a = Aw_read (RF_Pending fd) j k" "\<forall>v. single (k v)"
    | (write_wait) k where "a = Aw_write WF_Pending k" "\<forall>v. single (k v)"
    | (connect) adr fd addr k where "a = Aw_connect adr (SF_Connecting fd addr) k" "\<forall>v. single (k v)"
  using assms by (auto simp: posted_def split: awaiting.splits AcceptFuture.splits ReadFuture.splits
      WriteFuture.splits SocketFuture.splits)

subsection \<open>Tasks and their entries\<close>

abbreviation entry_nb :: "u64 \<Rightarrow> u16" where
  "entry_nb d \<equiv> up_syscall_nb (from_user_data d)"

abbreviation cur_nb :: "'f runtime \<Rightarrow> u16" where
  "cur_nb rt \<equiv> tag_syscall_nb (ti_tag (rt_current rt))"

text \<open>The entries of task \<open>i\<close>, in flight (\<open>L\<close>) or staged.\<close>

definition ents :: "u64 list \<Rightarrow> SlabIdx \<Rightarrow> 'f runtime \<Rightarrow> u64 list" where
  "ents L i rt = filter (\<lambda>d. udata_idx d = i) (L @ map sqe_user_data (rt_pending rt))"

text \<open>The tasks of \<open>N\<close> are being polled: \<open>N\<close> gives their number and their entries. All others are in step.\<close>

definition phase :: "u64 list \<Rightarrow> (SlabIdx \<rightharpoonup> u16 \<times> u64 list) \<Rightarrow> rt \<Rightarrow> bool" where
  "phase L N rt \<longleftrightarrow>
     (\<forall>i n ds. N i = Some (n, ds) \<longrightarrow> ents L i rt = ds) \<and>
     (\<forall>q t i. rt_heap rt q = Some t \<and> slab_idx t = Some i \<longrightarrow>
        (case N i of
           Some (n, ds) \<Rightarrow> syscall_nb t = n
         | None \<Rightarrow> parked (task_fut t) \<and> (\<exists>d. ents L i rt = [d] \<and> entry_nb d = syscall_nb t)))"

text \<open>A task in \<open>N\<close> that has gone, or been suspended, need not be watched any more.\<close>

lemma phaseD:
  assumes "phase L N rt"
  shows "N i = Some (n, ds) \<Longrightarrow> ents L i rt = ds"
    and "rt_heap rt q = Some t \<Longrightarrow> slab_idx t = Some i \<Longrightarrow> N i = Some (n, ds) \<Longrightarrow> syscall_nb t = n"
    and "rt_heap rt q = Some t \<Longrightarrow> slab_idx t = Some i \<Longrightarrow> N i = None \<Longrightarrow>
      parked (task_fut t) \<and> (\<exists>d. ents L i rt = [d] \<and> entry_nb d = syscall_nb t)"
  using assms unfolding phase_def by fastforce+

lemma phaseI:
  assumes "\<And>i n ds. N i = Some (n, ds) \<Longrightarrow> ents L i rt = ds"
    and "\<And>q t i n ds. rt_heap rt q = Some t \<Longrightarrow> slab_idx t = Some i \<Longrightarrow> N i = Some (n, ds) \<Longrightarrow> syscall_nb t = n"
    and "\<And>q t i. rt_heap rt q = Some t \<Longrightarrow> slab_idx t = Some i \<Longrightarrow> N i = None \<Longrightarrow>
      parked (task_fut t) \<and> (\<exists>d. ents L i rt = [d] \<and> entry_nb d = syscall_nb t)"
  shows "phase L N rt"
  using assms unfolding phase_def by (auto split: option.split)

lemma phase_gone:
  assumes "phase L N rt" "\<And>q t. rt_heap rt q = Some t \<Longrightarrow> slab_idx t \<noteq> Some j"
  shows "phase L (N(j := None)) rt"
  by (rule phaseI) (use assms phaseD [OF assms(1)] in \<open>auto split: if_splits\<close>)

lemma phase_stored:
  assumes ph: "phase L (N(j \<mapsto> (n, [d]))) rt" and p: "rt_heap rt p = Some t" "slab_idx t = Some j"
    and only: "\<And>q u. rt_heap rt q = Some u \<Longrightarrow> slab_idx u = Some j \<Longrightarrow> q = p"
    and fr: "parked fr" "entry_nb d = n"
  shows "phase L (N(j := None)) (rt\<lparr>rt_heap := (rt_heap rt)(p \<mapsto> t\<lparr>task_fut := fr\<rparr>)\<rparr>)"
proof (rule phaseI)
  let ?rt = "rt\<lparr>rt_heap := (rt_heap rt)(p \<mapsto> t\<lparr>task_fut := fr\<rparr>)\<rparr>"
  have e: "ents L i ?rt = ents L i rt" for i by (simp add: ents_def)
  show "ents L i ?rt = ds" if "(N(j := None)) i = Some (m, ds)" for i m ds
    using that phaseD(1) [OF ph, of i] by (auto simp: e split: if_splits)
  fix q u i assume q: "rt_heap ?rt q = Some u" "slab_idx u = Some i"
  show "syscall_nb u = m" if "(N(j := None)) i = Some (m, ds)" for m ds
    using that q p phaseD(2) [OF ph, of q u i] by (auto split: if_splits)
  show "parked (task_fut u) \<and> (\<exists>d. ents L i ?rt = [d] \<and> entry_nb d = syscall_nb u)" if "(N(j := None)) i = None"
  proof (cases "q = p")
    case True
    then have "i = j" "u = t\<lparr>task_fut := fr\<rparr>" using q p(2) by auto
    moreover have "syscall_nb t = n" "ents L j rt = [d]" using phaseD(1,2) [OF ph] p by auto
    ultimately show ?thesis using fr by (simp add: e)
  next
    case False
    then show ?thesis using that q only [of q u] phaseD(3) [OF ph, of q u i] by (auto simp: e split: if_splits)
  qed
qed

subsection \<open>Operations that submit nothing\<close>

text \<open>Nothing new is staged and no task is new; those that stay are the same up to their counter.\<close>

definition thins :: "'f runtime \<Rightarrow> 'f runtime \<Rightarrow> bool" where
  "thins rt rt' \<longleftrightarrow> rt_pending rt' = rt_pending rt \<and>
     (\<forall>q t'. rt_heap rt' q = Some t' \<longrightarrow> (\<exists>t. rt_heap rt q = Some t \<and> slab_idx t' = slab_idx t
        \<and> syscall_nb t' = syscall_nb t \<and> task_fut t' = task_fut t))"

lemma thins_refl [simp]: "thins rt rt"
  by (simp add: thins_def)

lemma thins_trans: "thins a b \<Longrightarrow> thins b c \<Longrightarrow> thins a c"
  unfolding thins_def by (metis (no_types, lifting))

lemma thins_fields [simp]:
  "thins rt (rt1\<lparr>rt_buffer := b\<rparr>) \<longleftrightarrow> thins rt rt1" "thins rt (rt1\<lparr>rt_buf_ring := m\<rparr>) \<longleftrightarrow> thins rt rt1"
  "thins rt (rt1\<lparr>rt_current := c\<rparr>) \<longleftrightarrow> thins rt rt1" "thins rt (rt1\<lparr>rt_tasks := s\<rparr>) \<longleftrightarrow> thins rt rt1"
  "thins rt (rt1\<lparr>rt_free_list := l\<rparr>) \<longleftrightarrow> thins rt rt1" "thins rt (rt1\<lparr>rt_freed_reads := n\<rparr>) \<longleftrightarrow> thins rt rt1"
  by (simp_all add: thins_def)

lemma thins_freed: "thins rt rt1 \<Longrightarrow> thins rt (rt1\<lparr>rt_heap := (rt_heap rt1)(p := None)\<rparr>)"
  by (simp add: thins_def)

lemma thins_counted: "rt_heap rt p = Some t \<Longrightarrow> thins rt (rt\<lparr>rt_heap := (rt_heap rt)(p \<mapsto> t\<lparr>ref_counter := c\<rparr>)\<rparr>)"
  by (simp add: thins_def)

lemma phase_thins:
  assumes "phase L N rt" "thins rt rt'"
  shows "phase L N rt'"
proof -
  have e: "ents L i rt' = ents L i rt" for i using assms(2) by (simp add: ents_def thins_def)
  show ?thesis
  proof (rule phaseI)
    show "ents L i rt' = ds" if "N i = Some (n, ds)" for i n ds using phaseD(1) [OF assms(1) that] e by simp
    fix q t' i assume "rt_heap rt' q = Some t'" and i: "slab_idx t' = Some i"
    then obtain t where "rt_heap rt q = Some t" "slab_idx t = Some i" "syscall_nb t' = syscall_nb t" "task_fut t' = task_fut t"
      using assms(2) unfolding thins_def by metis
    with phaseD(2,3) [OF assms(1)] e
    show "syscall_nb t' = n" if "N i = Some (n, ds)" for n ds using that by simp
    from \<open>rt_heap rt q = Some t\<close> \<open>slab_idx t = Some i\<close> \<open>syscall_nb t' = syscall_nb t\<close> \<open>task_fut t' = task_fut t\<close>
    show "parked (task_fut t') \<and> (\<exists>d. ents L i rt' = [d] \<and> entry_nb d = syscall_nb t')" if "N i = None"
      using that phaseD(3) [OF assms(1), of q t i] e by simp
  qed
qed

text \<open>The two panics of a runtime that has lost step: a completion that is newer than its task, and a
  body polled after its end.\<close>

definition derailed :: "fault \<Rightarrow> bool" where
  "derailed e \<longleftrightarrow> e = Panic Newer_cqe \<or> e = Panic Resumed_after_completion"

lemma derailed_simps [simp]:
  "derailed (Panic p) \<longleftrightarrow> p = Newer_cqe \<or> p = Resumed_after_completion" "\<not> derailed (Ub u)"
  by (simp_all add: derailed_def)

definition aside :: "'f runtime \<Rightarrow> ('a \<Rightarrow> 'f runtime) \<Rightarrow> 'a res \<Rightarrow> bool" where
  "aside rt sel r \<longleftrightarrow> meets derailed (\<lambda>x. rt_current (sel x) = rt_current rt \<and> thins rt (sel x)) r"

named_theorems aside_intros \<open>operations that submit nothing\<close>

lemma aside_simps [simp]:
  "aside rt sel (Inr x) \<longleftrightarrow> rt_current (sel x) = rt_current rt \<and> thins rt (sel x)" "aside rt sel (Inl e) \<longleftrightarrow> \<not> derailed e"
  by (simp_all add: aside_def)

lemma aside_and_then:
  assumes "aside rt sel m" "\<And>x. m = Inr x \<Longrightarrow> aside (sel x) sel' (f x)"
  shows "aside rt sel' (and_then m f)"
  using assms by (cases m) (auto simp: aside_def elim!: meets_mono intro: thins_trans)

text \<open>Faults of the parts: none of them is one of the two.\<close>

lemma sound_basic [simp]:
  "meets derailed (\<lambda>_. True) (assert_or e b) \<longleftrightarrow> b \<or> (e \<noteq> Newer_cqe \<and> e \<noteq> Resumed_after_completion)"
  "e \<noteq> Newer_cqe \<Longrightarrow> e \<noteq> Resumed_after_completion \<Longrightarrow> meets derailed (\<lambda>_. True) (expect e v)"
  "meets derailed (\<lambda>_. True) (add_ovf a b')" "meets derailed (\<lambda>_. True) (sub_ovf a b')"
  "meets derailed (\<lambda>_. True) (task_deref p h)" "meets derailed (\<lambda>_. True) (slot_at i s)"
  by (simp_all add: assert_or_def expect_def add_ovf_def sub_ovf_def task_deref_def slot_at_def split: option.split)

lemma sound_and_then:
  "meets derailed (\<lambda>_. True) m \<Longrightarrow> (\<And>x. meets derailed (\<lambda>_. True) (f x)) \<Longrightarrow> meets derailed (\<lambda>_. True) (and_then m f)"
  by (rule meets_and_then)

lemma sound_pool [simp]:
  "meets derailed (\<lambda>_. True) (alloc_write n pool)" "meets derailed (\<lambda>_. True) (wbuffer_clone w pool)"
  "meets derailed (\<lambda>_. True) (wbuffer_drop w pool)" "meets derailed (\<lambda>_. True) (checkout_read n i fd len pool)"
  "meets derailed (\<lambda>_. True) (release_buf_to_ring i pool m)"
  by (auto simp: alloc_write_def wbuffer_clone_def wbuffer_drop_def checkout_read_def release_buf_to_ring_def
      read_buf_addr_def write_rc_at_def Let_def intro!: sound_and_then split: list.split)

lemma aside_sound:
  "meets derailed (\<lambda>_. True) m \<Longrightarrow> (\<And>x. m = Inr x \<Longrightarrow> aside rt sel (f x)) \<Longrightarrow> aside rt sel (and_then m f)"
  by (cases m) simp_all

lemma aside_buffers [aside_intros]:
  "aside rt id (release_read_buf i rt)" "aside rt id (rwbuffer_drop b rt)" "aside rt id (drop_wbuffer w rt)"
  "aside rt id (clone_wbuffer w rt)" "aside rt snd (alloc_write_buffer rt)" "aside rt id (write_multiple_drop f rt)"
  by (auto simp: release_read_buf_def rwbuffer_drop_def drop_wbuffer_def clone_wbuffer_def on_pool_def
      alloc_write_buffer_def write_multiple_drop_def intro!: aside_sound sound_and_then split: WriteMultipleFuture.split)

lemma aside_drop_local [aside_intros]: "aside rt id (drop_local l rt)"
  by (cases l) (simp_all add: drop_local_def aside_intros)

lemma aside_drop_locals [aside_intros]: "aside rt id (drop_locals ls rt)"
  unfolding drop_locals_def
  by (induction ls arbitrary: rt) (auto intro!: aside_and_then [where sel = id] aside_intros)

lemma aside_assign [aside_intros]: "aside rt snd (assign i l ls rt)"
  unfolding assign_def by (rule aside_and_then [where sel = id]) (auto intro: aside_intros split: option.split)

lemma aside_frame_drop [aside_intros]: "aside rt id (frame_drop fr rt)"
  unfolding frame_drop_def drop_awaiting_def
  by (rule aside_and_then [where sel = id]) (auto intro: aside_intros split: suspended.split awaiting.split)

lemma aside_task_drop [aside_intros]: "aside rt id (task_drop frame_drop p rt)"
proof (cases "rt_heap rt p")
  case (Some t)
  show ?thesis
  proof (cases "sub_ovf (ref_counter t) 1")
    case (Inl e)
    then show ?thesis using Some sound_basic(4) [of "ref_counter t" 1] by (simp add: task_drop_def task_release_def task_deref_def)
  next
    case (Inr c)
    let ?rt = "rt\<lparr>rt_heap := (rt_heap rt)(p \<mapsto> t\<lparr>ref_counter := c\<rparr>)\<rparr>"
    let ?free = "\<lambda>r. and_then (task_deref p (rt_heap r)) (\<lambda>raw. let rt = r\<lparr>rt_heap := (rt_heap r)(p := None)\<rparr>;
      rt = (case slab_idx raw of Some task_idx \<Rightarrow> rt\<lparr>rt_free_list := rt_free_list rt @ [task_idx]\<rparr> | None \<Rightarrow> rt)
      in Inr (rt\<lparr>rt_freed_reads := Suc (rt_freed_reads rt)\<rparr>))"
    have "aside r id (?free r)" for r :: rt
      by (auto simp: Let_def intro!: aside_sound thins_freed split: option.split)
    then have "aside ?rt id (and_then (frame_drop (task_fut t) ?rt) ?free)"
      by (intro aside_and_then [where sel = id] aside_intros) simp
    moreover have "task_drop frame_drop p rt = (if c = 0 then and_then (frame_drop (task_fut t) ?rt) ?free else Inr ?rt)"
      using Some Inr by (simp add: task_drop_def task_release_def task_deref_def Let_def and_then_def split: sum.split option.split)
    ultimately show ?thesis using thins_counted [OF Some, of c]
      by (auto simp: aside_def elim!: meets_mono intro: thins_trans)
  qed
qed (simp add: task_drop_def task_release_def task_deref_def)

subsection \<open>Submissions\<close>

lemma entry_nb_current [simp]: "entry_nb (current_udata rt) = cur_nb rt"
  by (simp add: current_udata_def TaskInfo_into_payload_def from_into_user_data)

lemma current_udata_cong: "rt_current rt' = rt_current rt \<Longrightarrow> current_udata rt' = current_udata rt"
  by (simp add: current_udata_def)

lemma thins_with_task:
  assumes "\<And>t t'. f t = Inr t' \<Longrightarrow> slab_idx t' = slab_idx t \<and> syscall_nb t' = syscall_nb t \<and> task_fut t' = task_fut t"
    and "with_task i f rt = Inr rt'"
  shows "rt_current rt' = rt_current rt \<and> thins rt rt'"
  using assms by (auto simp: with_task_def task_update_def task_deref_def res_simps thins_def split: option.splits if_splits)

lemma sound_inc_rc: "meets derailed (\<lambda>_. True) (with_task i inc_rc rt)"
  by (auto simp: with_task_def slab_index_def task_update_def inc_rc_eq intro!: sound_and_then)

lemma aside_inc_rc [aside_intros]: "aside rt id (with_task i inc_rc rt)"
  using sound_inc_rc [of i rt] thins_with_task [of inc_rc i rt]
  by (cases "with_task i inc_rc rt") (auto simp: aside_def inc_rc_Inr)

text \<open>Staging an entry of the current task.\<close>

lemma phase_push:
  assumes ph: "phase L N rt" and c: "N c = Some (n, ds)" and e: "udata_idx (sqe_user_data e) = c"
  shows "phase L (N(c \<mapsto> (n, ds @ [sqe_user_data e]))) (sqe_queue_push e rt)"
proof (rule phaseI)
  let ?rt = "sqe_queue_push e rt"
  have h: "rt_heap ?rt = rt_heap rt" by (simp add: sqe_queue_push_def)
  have same: "ents L i ?rt = ents L i rt @ (if i = c then [sqe_user_data e] else [])" for i
    using e by (simp add: ents_def sqe_queue_push_def)
  show "ents L i ?rt = es" if "(N(c \<mapsto> (n, ds @ [sqe_user_data e]))) i = Some (m, es)" for i m es
    using that phaseD(1) [OF ph] c by (auto simp: same split: if_splits)
  fix q t i assume q: "rt_heap ?rt q = Some t" "slab_idx t = Some i"
  show "syscall_nb t = m" if "(N(c \<mapsto> (n, ds @ [sqe_user_data e]))) i = Some (m, es)" for m es
    using that q phaseD(2) [OF ph, of q t i] c by (auto simp: h split: if_splits)
  show "parked (task_fut t) \<and> (\<exists>d. ents L i ?rt = [d] \<and> entry_nb d = syscall_nb t)"
    if "(N(c \<mapsto> (n, ds @ [sqe_user_data e]))) i = None"
    using that q phaseD(3) [OF ph, of q t i] by (auto simp: h same split: if_splits)
qed

text \<open>While tasks are polled: they are among the handles on the stack.\<close>

definition afloat :: "u64 list \<Rightarrow> SlabIdx multiset \<Rightarrow> u64 list \<Rightarrow> (SlabIdx \<rightharpoonup> u16 \<times> u64 list) \<Rightarrow> rt \<Rightarrow> bool" where
  "afloat K H L N rt \<longleftrightarrow> rt_inv frame_ok K H rt \<and> phase L N rt \<and> set L \<subseteq> set K \<and> dom N \<subseteq> set_mset H"

text \<open>Before a submission the current task has none; after it, one with the current number.\<close>

definition adrift :: "u64 list \<Rightarrow> SlabIdx multiset \<Rightarrow> u64 list \<Rightarrow> (SlabIdx \<rightharpoonup> u16 \<times> u64 list) \<Rightarrow> rt \<Rightarrow> bool" where
  "adrift K H L N rt \<longleftrightarrow> afloat K H L N rt \<and> N (cur_idx rt) = Some (cur_nb rt, [])"

lemma adriftD:
  assumes "adrift K H L N rt"
  shows "ready K H rt" "rt_inv frame_ok K H rt" "phase L N rt" "N (cur_idx rt) = Some (cur_nb rt, [])" "afloat K H L N rt"
  using assms by (auto simp: adrift_def afloat_def ready_def)

definition moored :: "u64 list \<Rightarrow> (SlabIdx \<rightharpoonup> u16 \<times> u64 list) \<Rightarrow> rt \<Rightarrow> rt \<Rightarrow> bool" where
  "moored L N rt rt' \<longleftrightarrow> rt_current rt' = rt_current rt \<and>
     phase L (N(cur_idx rt \<mapsto> (cur_nb rt, [current_udata rt]))) rt'"

lemma moored_submit:
  assumes ad: "adrift K H L N rt" and d: "\<And>rt'. sqe_user_data (e rt') = current_udata rt"
  shows "meets derailed (moored L N rt) (and_then (with_task (cur_idx rt) inc_rc rt) (\<lambda>rt. Inr (sqe_queue_push (e rt) rt)))"
proof (rule meets_and_then [OF aside_inc_rc [unfolded aside_def]])
  fix rt1 assume a: "rt_current (id rt1) = rt_current rt \<and> thins rt (id rt1)"
  then have "phase L N rt1" using adriftD(3) [OF ad] phase_thins by auto
  from phase_push [OF this, of "cur_idx rt" "cur_nb rt" "[]" "e rt1"] ad d a
  show "meets derailed (moored L N rt) (Inr (sqe_queue_push (e rt1) rt1))"
    by (simp add: moored_def adrift_def) (simp add: sqe_queue_push_def)
qed

lemma moored_sends:
  assumes "adrift K H L N rt"
  shows "meets derailed (moored L N rt) (send_accept lfd rt)" "meets derailed (moored L N rt) (send_read fd rt)"
    "meets derailed (moored L N rt) (send_write fd b len rt)" "meets derailed (moored L N rt) (send_connect fd a n rt)"
    "meets derailed (moored L N rt) (send_socket rt)"
  unfolding send_accept_def send_read_def send_write_def send_connect_def send_socket_def Let_def
  by (rule moored_submit [OF assms], simp)+

subsection \<open>Polls\<close>

text \<open>A leaf that is pending has been submitted; one that is ready has submitted nothing.\<close>

definition leaf_ok :: "u64 list \<Rightarrow> (SlabIdx \<rightharpoonup> u16 \<times> u64 list) \<Rightarrow> rt \<Rightarrow> ('leaf \<Rightarrow> awaiting)
    \<Rightarrow> ('leaf \<times> 'v poll_result \<times> rt) res \<Rightarrow> bool" where
  "leaf_ok L N rt wrap r \<longleftrightarrow> meets derailed (\<lambda>(leaf, p, rt').
     case p of Poll_Pending \<Rightarrow> posted (wrap leaf) \<and> moored L N rt rt'
     | Poll_Ready v \<Rightarrow> rt_current rt' = rt_current rt \<and> phase L N rt') r"

lemma leaf_pending:
  "meets derailed (moored L N rt) m \<Longrightarrow> posted (wrap leaf) \<Longrightarrow> leaf_ok L N rt wrap (and_then m (\<lambda>rt. Inr (leaf, Poll_Pending, rt)))"
  unfolding leaf_ok_def by (erule meets_and_then) simp

lemma leaf_ready:
  assumes "adrift K H L N rt" "aside rt (snd \<circ> snd) r" "\<And>leaf p rt'. r = Inr (leaf, p, rt') \<Longrightarrow> p \<noteq> Poll_Pending"
  shows "leaf_ok L N rt wrap r"
  using assms adriftD(3) [OF assms(1)] phase_thins by (cases r) (fastforce simp: leaf_ok_def split: poll_result.split)+

lemma leaf_accept:
  assumes "adrift K H L N rt" "\<forall>v. single (k v)"
  shows "leaf_ok L N rt (\<lambda>f. Aw_accept f k) (accept_poll f rt)"
  using assms moored_sends(1) [OF assms(1)]
  by (cases f) (auto simp: accept_poll_def Let_def intro: leaf_pending leaf_ready)

lemma leaf_write:
  assumes "adrift K H L N rt" "\<forall>v. single (k v)"
  shows "leaf_ok L N rt (\<lambda>f. Aw_write f k) (write_poll f rt)"
  using assms moored_sends(3) [OF assms(1)]
  by (cases f) (auto simp: write_poll_def intro: leaf_pending leaf_ready)

lemma leaf_connect:
  assumes "adrift K H L N rt" "\<forall>v. single (k v)"
  shows "leaf_ok L N rt (\<lambda>f. Aw_connect a f k) (socket_poll a f rt)"
  using assms moored_sends(4,5) [OF assms(1)]
  by (cases f) (auto simp: socket_poll_def Let_def leaf_ok_def [of _ _ _ _ "Inl _"] intro: leaf_pending leaf_ready)

lemma leaf_read:
  assumes ad: "adrift K H L N rt" and k: "\<forall>v. single (k v)"
  shows "leaf_ok L N rt (\<lambda>f. Aw_read f j k) (read_poll E f rt)"
proof (cases f)
  case (RF_Init fd)
  then show ?thesis using assms moored_sends(2) [OF ad] by (auto simp: read_poll_def intro: leaf_pending)
next
  case (RF_Pending fd)
  have "aside rt (snd \<circ> snd) (read_poll E f rt)"
    unfolding RF_Pending read_poll_def ReadFuture.case Let_def
    by (auto intro!: aside_sound aside_and_then [where sel = id] aside_intros split: option.split)
  then show ?thesis by (rule leaf_ready [OF ad]) (auto simp: RF_Pending read_poll_def res_simps Let_def split: if_splits)
qed

text \<open>How a poll leaves the current task: suspended with its entry staged, or with none.\<close>

definition lands :: "u64 list \<Rightarrow> (SlabIdx \<rightharpoonup> u16 \<times> u64 list) \<Rightarrow> rt \<Rightarrow> step_result \<Rightarrow> bool" where
  "lands L N rt r \<longleftrightarrow> meets derailed (\<lambda>(fr, b, rt').
     if parked fr then moored L N rt rt' else rt_current rt' = rt_current rt \<and> phase L N rt') r"

lemma lands_Inl [simp]: "lands L N rt (Inl e) \<longleftrightarrow> \<not> derailed e"
  by (simp add: lands_def)

lemma lands_cong: "rt_current rt' = rt_current rt \<Longrightarrow> lands L N rt' r \<longleftrightarrow> lands L N rt r"
  by (simp add: lands_def moored_def current_udata_def)

lemma lands_and_then:
  assumes ad: "adrift K H L N rt" and k: "keeps frame_ok K H rt sel m"
    and m: "meets derailed (\<lambda>x. rt_current (sel x) = rt_current rt \<and> phase L N (sel x)) m"
    and f: "\<And>x. m = Inr x \<Longrightarrow> adrift K H L N (sel x) \<Longrightarrow> lands L N (sel x) (f x)"
  shows "lands L N rt (and_then m f)"
proof (cases m)
  case (Inr x)
  then have "rt_current (sel x) = rt_current rt" "adrift K H L N (sel x)"
    using ad m keepsD(2) [OF k Inr] by (simp_all add: adrift_def afloat_def)
  with f [OF Inr] Inr lands_cong [of "sel x" rt] show ?thesis by simp
qed (use m in simp)

lemma lands_aside:
  assumes "adrift K H L N rt" "keeps frame_ok K H rt sel m" "aside rt sel m"
    and "\<And>x. m = Inr x \<Longrightarrow> adrift K H L N (sel x) \<Longrightarrow> lands L N (sel x) (f x)"
  shows "lands L N rt (and_then m f)"
  by (rule lands_and_then [OF assms(1,2) _ assms(4)])
    (use assms(3) adriftD(3) [OF assms(1)] phase_thins in \<open>auto simp: aside_def elim!: meets_mono\<close>)

lemma lands_await:
  assumes ad: "adrift K H L N rt" and k: "keeps frame_ok K H rt (snd \<circ> snd) m" and m: "leaf_ok L N rt wrap m"
    and go: "\<And>leaf v rt'. adrift K H L N rt' \<Longrightarrow> lands L N rt' (go leaf v rt')"
  shows "lands L N rt (await_leaf m wrap ls go)"
proof (cases m)
  case (Inr x)
  obtain leaf p rt' where x: "x = (leaf, p, rt')" by (cases x)
  show ?thesis
  proof (cases p)
    case Poll_Pending
    then show ?thesis using m Inr x by (simp add: await_leaf_def leaf_ok_def lands_def)
  next
    case (Poll_Ready v)
    then have "rt_current rt' = rt_current rt" "adrift K H L N rt'"
      using ad m keepsD(2) [OF k Inr] Inr x by (simp_all add: adrift_def afloat_def leaf_ok_def)
    with go [of rt' leaf v] lands_cong [of rt' rt] Inr x Poll_Ready show ?thesis by (simp add: await_leaf_def)
  qed
qed (use m in \<open>simp add: await_leaf_def leaf_ok_def\<close>)

lemma lands_assign:
  assumes "adrift K H L N rt" "\<And>ls rt'. adrift K H L N rt' \<Longrightarrow> lands L N rt' (go ls rt')"
  shows "lands L N rt (and_then (assign i l ls rt) (\<lambda>(ls, rt). go ls rt))"
  by (rule lands_aside [OF assms(1) keeps_assign [OF adriftD(2) [OF assms(1)]] aside_assign]) (use assms(2) in auto)

lemma lands_read_done:
  assumes "adrift K H L N rt" "\<And>v ls rt'. adrift K H L N rt' \<Longrightarrow> lands L N rt' (go v ls rt')"
  shows "lands L N rt (read_done j v ls rt go)"
  using assms lands_assign [OF assms(1)] by (cases v) (simp_all add: read_done_def bind_buffer_def)

subsection \<open>Spawning\<close>

lemma phase_watched:
  assumes ph: "phase L N rt" and p: "rt_heap rt p = Some t" "slab_idx t = Some j" and j: "N j \<noteq> None"
  shows "phase L N (rt\<lparr>rt_heap := (rt_heap rt)(p \<mapsto> t\<lparr>task_fut := fr\<rparr>)\<rparr>)"
proof -
  have "ents L i (rt\<lparr>rt_heap := h\<rparr>) = ents L i rt" for i h by (simp add: ents_def)
  then show ?thesis
    by (intro phaseI) (use p j phaseD [OF ph] in \<open>auto split: if_splits\<close>)
qed

lemma indexed_live:
  assumes "rt_inv ok K H rt" "rt_heap rt q = Some t" "slab_idx t = Some i"
  shows "live rt i q \<and> i \<in># tokens K H rt"
proof -
  have acct: "acct ok (tokens K H rt) rt" using assms(1) by (simp add: rt_inv_def)
  from acctD(5) [OF acct assms(2)] obtain j where j: "live rt j q" by blast
  from acctD(4) [OF acct j] assms(2,3) j show ?thesis by (auto simp: header_ok_def)
qed

lemma no_entries: "ents L i rt = [] \<Longrightarrow> i \<notin> udata_idx ` set K \<Longrightarrow> i \<notin># H \<Longrightarrow> i \<notin># tokens K H rt"
  by (auto simp: tokens_def ents_def filter_empty_conv)

lemma spawn_insert_number:
  assumes "spawn_insert E fut rt = Inr (p, old, rt')" "rt_heap rt' p = Some t"
  shows "syscall_nb t = 0"
  using assms by (auto simp: spawn_insert_def task_alloc_def task_clone_def insert_task_def res_simps Let_def
      task_update_def task_deref_def inc_rc_Inr set_task_idx_def dest!: task_newD split: prod.splits option.splits)

lemma sound_spawn_insert: "meets derailed (\<lambda>_. True) (spawn_insert E fut rt)"
  unfolding spawn_insert_def task_alloc_def task_new_def task_clone_def task_update_def insert_task_def
    slab_insert_def slot_next_free_def slot_from_task_def growth_def Let_def
  by (auto simp: inc_rc_eq intro!: sound_and_then split: prod.split)

text \<open>A new task starts with number 0 and without entries.\<close>

lemma adrift_spawned:
  assumes E: "env_ok E" and ad: "afloat K H L N rt" and fut: "frame_ok fut"
    and ins: "spawn_insert E fut rt = Inr (p, old, rt1)"
  shows "\<exists>i. adrift K (add_mset i (add_mset i H)) L (N(i \<mapsto> (0, []))) rt1 \<and> live rt1 i p \<and> cur_idx rt1 = i
    \<and> cur_nb rt1 = 0 \<and> old = rt_current rt \<and> N i = None \<and> i \<notin> udata_idx ` set K \<and> i \<notin># H"
proof -
  let ?i = "slab_head (rt_tasks rt)"
  have inv: "rt_inv frame_ok K H rt" and acct: "acct frame_ok (tokens K H rt) rt"
    using ad by (simp_all add: afloat_def rt_inv_def)
  from spawn_insert_cases [OF E acctD(1) [OF acct], of fut] ins obtain t s where
    rt1: "rt1 = rt\<lparr>rt_heap := (rt_heap rt)(p \<mapsto> t), rt_tasks := s, rt_current := initial_poll ?i\<rparr>" "old = rt_current rt"
    and t: "slab_idx t = Some ?i" and none: "slab_lookup (rt_tasks rt) ?i = None" by auto
  have nb: "syscall_nb t = 0" by (rule spawn_insert_number [OF ins]) (simp add: rt1)
  have fresh: "?i \<notin># tokens K H rt" using acctD(6) [OF acct, of ?i] none by (auto simp: live_def)
  then have i: "?i \<notin> udata_idx ` set K" "?i \<notin># H" "N ?i = None"
    using ad by (auto simp: tokens_def afloat_def)
  have e: "ents L j rt1 = ents L j rt" for j by (simp add: ents_def rt1)
  have "set L \<subseteq> set K" using ad by (simp add: afloat_def)
  moreover have "\<forall>d \<in> set K \<union> sqe_user_data ` set (rt_pending rt). udata_idx d \<noteq> ?i"
    using fresh by (auto simp: tokens_def image_iff)
  ultimately have empty: "ents L ?i rt = []" by (auto simp: ents_def filter_empty_conv)
  have ph: "phase L N rt" using ad by (simp add: afloat_def)
  have "phase L (N(?i \<mapsto> (0, []))) rt1"
  proof (rule phaseI)
    show "ents L j rt1 = ds" if "(N(?i \<mapsto> (0, []))) j = Some (n, ds)" for j n ds
      using that phaseD(1) [OF ph, of j] empty by (auto simp: e split: if_splits)
    fix q u j assume q: "rt_heap rt1 q = Some u" "slab_idx u = Some j"
    have old: "rt_heap rt q = Some u" if "j \<noteq> ?i" using that q t by (auto simp: rt1 split: if_splits)
    have new: "u = t" if "j = ?i"
      using that q fresh indexed_live [OF inv, of q u j] by (auto simp: rt1 split: if_splits)
    show "syscall_nb u = n" if "(N(?i \<mapsto> (0, []))) j = Some (n, ds)" for n ds
      using that new nb old q phaseD(2) [OF ph, of q u j] by (auto split: if_splits)
    show "parked (task_fut u) \<and> (\<exists>d. ents L j rt1 = [d] \<and> entry_nb d = syscall_nb u)" if "(N(?i \<mapsto> (0, []))) j = None"
      using that old q phaseD(3) [OF ph, of q u j] by (auto simp: e split: if_splits)
  qed
  moreover have cur: "cur_idx rt1 = ?i" "cur_nb rt1 = 0" by (simp_all add: rt1 initial_poll_def Tag_new_def)
  moreover from spawn_insert_spec(2) [OF E fut inv ins] obtain j where
    j: "rt_inv frame_ok K (add_mset j (add_mset j H)) rt1" "live rt1 j p" "rt_current rt1 = initial_poll j" by blast
  moreover have "j = ?i" using cur(1) j(3) by (simp add: initial_poll_def Tag_new_def)
  ultimately show ?thesis using i rt1(2) ad by (intro exI [of _ ?i]) (auto simp: adrift_def afloat_def)
qed

text \<open>A poll of a task and the store of its frame.\<close>

lemma poll_with_lands:
  assumes ad: "adrift K H L N rt" and l: "live rt (cur_idx rt) p"
    and run: "run_ok frame_ok body" and b: "lands L N rt (body rt)"
  shows "meets derailed (\<lambda>(_, rt'). rt_current rt' = rt_current rt \<and>
    (phase L (N(cur_idx rt := None)) rt' \<or> phase L N rt')) (task_poll_with body p rt)"
proof (cases "body rt")
  case (Inr x)
  obtain fr r rt1 where x: "x = (fr, r, rt1)" by (cases x)
  let ?i = "cur_idx rt"
  have rdy: "rt_inv frame_ok K H rt" "?i \<in># H" using adriftD(1) [OF ad] by (simp_all add: ready_def)
  have inv1: "rt_inv frame_ok K H rt1" and l1: "live rt1 ?i p"
    using keepsD(2,3) [OF run_okD(1) [OF run rdy] Inr] x l rdy(2) by (simp_all add: stable_def)
  have acct1: "acct frame_ok (tokens K H rt1) rt1" using inv1 by (simp add: rt_inv_def)
  from acctD(4) [OF acct1 l1] obtain t where t: "rt_heap rt1 p = Some t" "slab_idx t = Some ?i" by (auto simp: header_ok_def)
  have only: "q = p" if "rt_heap rt1 q = Some u" "slab_idx u = Some ?i" for q u
    using indexed_live [OF inv1 that] l1 live_fun by metis
  let ?rt = "rt1\<lparr>rt_heap := (rt_heap rt1)(p \<mapsto> t\<lparr>task_fut := fr\<rparr>)\<rparr>"
  have eq: "task_poll_with body p rt = Inr (r, ?rt)" using Inr x t by (simp add: task_poll_with_def task_deref_def)
  show ?thesis
  proof (cases "parked fr")
    case True
    then have m: "moored L N rt rt1" using b Inr x by (simp add: lands_def)
    have "phase L (N(?i := None)) ?rt"
      by (rule phase_stored [where n = "cur_nb rt" and d = "current_udata rt", OF _ t only True])
        (use m in \<open>simp_all add: moored_def\<close>)
    then show ?thesis using m by (simp add: eq moored_def)
  next
    case False
    then have "phase L N rt1" "rt_current rt1 = rt_current rt" using b Inr x by (simp_all add: lands_def)
    then show ?thesis using phase_watched [OF _ t] ad by (simp add: eq adrift_def)
  qed
qed (use b in \<open>simp add: task_poll_with_def\<close>)

lemma spawn_in_step:
  assumes E: "env_ok E" and ad: "afloat K H L N rt" and fut: "frame_ok fut" and run: "run_ok frame_ok body"
    and b: "\<And>K H N rt. adrift K H L N rt \<Longrightarrow> lands L N rt (body rt)"
  shows "meets derailed (\<lambda>rt'. rt_current rt' = rt_current rt \<and> phase L N rt') (spawn_run E body frame_drop fut rt)"
proof (rule meets_cases)
  have sound: "meets derailed (\<lambda>_. True) (spawn_run E body frame_drop fut rt)"
    unfolding spawn_run_def
  proof (rule meets_and_then [OF sound_spawn_insert])
    fix x assume x: "spawn_insert E fut rt = Inr x"
    obtain p old rt1 where xe: "x = (p, old, rt1)" by (cases x)
    from adrift_spawned [OF E ad fut x [unfolded xe]] obtain i where
      "adrift K (add_mset i (add_mset i H)) L (N(i \<mapsto> (0, []))) rt1" "live rt1 (cur_idx rt1) p" by blast
    from poll_with_lands [OF this run b [OF this(1)]]
    show "meets derailed (\<lambda>_. True) (case x of (p, old, rt) \<Rightarrow> and_then (task_poll_with body p rt) (\<lambda>(_, rt). spawn_finish frame_drop p old rt))"
      unfolding xe prod.case spawn_finish_eq
      by (rule meets_and_then)
        (auto intro!: meets_and_then [OF aside_task_drop [unfolded aside_def]] meets_mono [OF aside_task_drop [unfolded aside_def]])
  qed
  show "\<not> derailed e" if "spawn_run E body frame_drop fut rt = Inl e" for e using sound that by simp
  fix rt' assume res: "spawn_run E body frame_drop fut rt = Inr rt'"
  then obtain p old rt1 r rt2 rt3 where ins: "spawn_insert E fut rt = Inr (p, old, rt1)"
    and poll: "task_poll_with body p rt1 = Inr (r, rt2)" and d: "task_drop frame_drop p rt2 = Inr rt3"
      "task_drop frame_drop p (rt3\<lparr>rt_current := old\<rparr>) = Inr rt'"
    by (auto simp: spawn_run_def spawn_finish_eq res_simps)
  from adrift_spawned [OF E ad fut ins] obtain i where
    i: "adrift K (add_mset i (add_mset i H)) L (N(i \<mapsto> (0, []))) rt1" "live rt1 i p" "cur_idx rt1 = i"
    and fresh: "old = rt_current rt" "N i = None" "i \<notin> udata_idx ` set K" "i \<notin># H" by blast
  have "(N(i \<mapsto> (0, [])))(i := None) = N(i := None)" by simp
  with poll_with_lands [OF i(1) _ run b [OF i(1)], of p] i(2,3) poll
  have ph: "phase L (N(i := None)) rt2 \<or> phase L (N(i \<mapsto> (0, []))) rt2" by (simp del: fun_upd_apply)
  have "thins rt2 rt3" "thins (rt3\<lparr>rt_current := old\<rparr>) rt'" and cur: "rt_current rt' = rt_current rt"
    using aside_task_drop [of rt2 p] aside_task_drop [of "rt3\<lparr>rt_current := old\<rparr>" p] d fresh(1) by simp_all
  moreover have "thins (rt3\<lparr>rt_current := old\<rparr>) rt' \<longleftrightarrow> thins rt3 rt'" by (simp add: thins_def)
  ultimately have ph': "phase L (N(i := None)) rt' \<or> phase L (N(i \<mapsto> (0, []))) rt'"
    using ph phase_thins thins_trans by blast
  have "rt_inv frame_ok K H rt" using ad by (simp add: afloat_def)
  then have inv': "rt_inv frame_ok K H rt'"
    using keepsD(2) [OF keeps_spawn_run [OF E frame_drop_ok fut run _] res] by simp
  have "phase L (N(i := None)) rt'" if w: "phase L (N(i \<mapsto> (0, []))) rt'"
  proof -
    have "ents L i rt' = []" using phaseD(1) [OF w, of i] by simp
    from no_entries [OF this fresh(3,4)] have "i \<notin># tokens K H rt'" .
    then show ?thesis using phase_gone [OF w, of i] indexed_live [OF inv'] by (auto simp: fun_upd_idem)
  qed
  with ph' have "phase L (N(i := None)) rt'" by blast
  moreover have "N(i := None) = N" using fresh(2) by auto
  ultimately show "rt_current rt' = rt_current rt \<and> phase L N rt'" using cur by simp
qed

subsection \<open>Running and resuming\<close>

lemma single_prog_ok: "single p \<Longrightarrow> prog_ok p"
  by (induction p) auto

lemma lands_value: "adrift K H L N rt \<Longrightarrow> \<not> parked fr \<Longrightarrow> lands L N rt (Inr (fr, b, rt))"
  by (simp add: lands_def adriftD(3))

lemma lands_run:
  assumes E: "env_ok E" and "single p" "adrift K H L N rt"
  shows "lands L N rt (run E p ls rt)"
  using assms(2,3)
proof (induction p arbitrary: K H N ls rt)
  case Done
  show ?case unfolding run.simps
    by (rule lands_aside [OF Done(2) keeps_buffers_only [OF adriftD(2) [OF Done(2)] buffers_only_drop_locals] aside_drop_locals])
      (auto intro: lands_value)
next
  case Forever
  then show ?case by (auto intro: lands_value)
next
  case (Accept fd k)
  then show ?case unfolding run.simps
    by (intro lands_await [OF Accept.prems(2) keeps_ready(1) [OF adriftD(1)] leaf_accept]) auto
next
  case (Read fd j k)
  then show ?case unfolding run.simps
    by (intro lands_await [OF Read.prems(2) keeps_ready(2) [OF adriftD(1)] leaf_read] lands_read_done) auto
next
  case (Write fd b len k)
  then show ?case unfolding run.simps
    by (intro lands_await [OF Write.prems(2) keeps_ready(4) [OF adriftD(1)] leaf_write]) auto
next
  case (Connect ip port a k)
  then show ?case unfolding run.simps
    by (intro lands_await [OF Connect.prems(2) keeps_ready(5) [OF adriftD(1)] leaf_connect]) auto
next
  case (Alloc_write i k)
  show ?case unfolding run.simps
    by (rule lands_aside [OF Alloc_write.prems(2) keeps_alloc_write_buffer [OF adriftD(2) [OF Alloc_write.prems(2)]] aside_buffers(5)])
      (use Alloc_write in \<open>auto intro!: lands_assign\<close>)
next
  case (Clone_write i j k)
  have "lands L N rt (and_then (clone_wbuffer w rt) (\<lambda>rt. and_then (assign j (L_w w) ls rt) (\<lambda>(ls, rt). run E k ls rt)))" for w
    by (rule lands_aside [OF Clone_write.prems(2) keeps_clone_wbuffer [OF adriftD(2) [OF Clone_write.prems(2)]] aside_buffers(4)])
      (use Clone_write in \<open>auto intro!: lands_assign\<close>)
  then show ?case by (auto split: option.split local_value.split)
next
  case (Drop_local i k)
  have "lands L N rt (and_then (drop_local l rt) (run E k (remove_local i ls)))" for l
    by (rule lands_aside [OF Drop_local.prems(2) keeps_buffers_only [OF adriftD(2) [OF Drop_local.prems(2)] buffers_only_drop_local] aside_drop_local])
      (use Drop_local in auto)
  then show ?case by (auto split: option.split)
next
  case (Spawn moved child k)
  let ?theirs = "filter (\<lambda>(i, _). i \<in> set moved) ls"
  let ?fr = "\<lparr>fr_state = Start child, fr_locals = ?theirs\<rparr>"
  have ok: "prog_ok child" using Spawn.prems(1) by (simp add: single_prog_ok)
  then have run: "run_ok frame_ok (run E child ?theirs)" by (auto simp: run_ok_frame intro: good_run [OF E])
  have fr: "frame_ok ?fr" using ok by (simp add: frame_ok_def)
  note k = keeps_spawn_run [OF E frame_drop_ok fr run adriftD(2) [OF Spawn.prems(2)]]
  show ?case unfolding run.simps Let_def
    by (rule lands_and_then [OF Spawn.prems(2) k]) (use Spawn spawn_in_step [OF E adriftD(5) [OF Spawn.prems(2)] fr run] in auto)
qed simp_all

lemma lands_resume:
  assumes E: "env_ok E" and a: "posted a" and ad: "adrift K H L N rt"
  shows "lands L N rt (resume E a ls rt)"
  using a
proof (cases rule: postedE)
  case (accept k)
  then show ?thesis unfolding resume_def accept(1) awaiting.case
    by (intro lands_await [OF ad keeps_ready(1) [OF adriftD(1) [OF ad]] leaf_accept [OF ad]] lands_run [OF E]) auto
next
  case (read fd j k)
  then show ?thesis unfolding resume_def read(1) awaiting.case
    by (intro lands_await [OF ad keeps_ready(2) [OF adriftD(1) [OF ad]] leaf_read [OF ad]] lands_read_done lands_run [OF E]) auto
next
  case (write_wait k)
  then show ?thesis unfolding resume_def write_wait(1) awaiting.case
    by (intro lands_await [OF ad keeps_ready(4) [OF adriftD(1) [OF ad]] leaf_write [OF ad]] lands_run [OF E]) auto
next
  case (connect adr fd addr k)
  then show ?thesis unfolding resume_def connect(1) awaiting.case
    by (intro lands_await [OF ad keeps_ready(5) [OF adriftD(1) [OF ad]] leaf_connect [OF ad]] lands_run [OF E]) auto
qed

lemma lands_poll:
  assumes "env_ok E" "parked fr" "adrift K H L N rt"
  shows "lands L N rt (frame_poll E fr rt)"
  using assms lands_resume by (auto simp: frame_poll_def elim!: parkedE)

subsection \<open>Completions\<close>

text \<open>Between completions.\<close>

definition in_step :: "u64 list \<Rightarrow> rt \<Rightarrow> bool" where
  "in_step K rt \<longleftrightarrow> phase K Map.empty rt"

lemma number_taken:
  assumes "\<not> is_multiple n"
  shows "add_ovf n 1 = Inr (n + 1)" "(n AND NOT MULTIPLE_MASK) + 1 = n + 1"
proof -
  have n: "unat n < 32768" using assms by (simp add: is_multiple_iff)
  then show "add_ovf n 1 = Inr (n + 1)" by (simp add: add_ovf_def checked_add_def)
  have "n AND NOT MULTIPLE_MASK = n" using n by (simp add: word_unat_eq_iff u16_and_rank rank_def)
  then show "(n AND NOT MULTIPLE_MASK) + 1 = n + 1" by simp
qed

text \<open>The completion of an entry takes it off the entries of its task and leaves those of the others.\<close>

lemma ents_remove: "ents (remove1 d K) i rt = (if udata_idx d = i \<and> d \<in> set K then remove1 d (ents K i rt) else ents K i rt)"
  by (auto simp: ents_def filter_remove1 remove1_append remove1_idem)

text \<open>The entry of a completion and the number its task expects.\<close>

lemma entry_of_task:
  assumes st: "phase K Map.empty rt" and d: "d \<in> set K" and t: "rt_heap rt p = Some t" "slab_idx t = Some (udata_idx d)"
  shows "ents K (udata_idx d) rt = [d]" "entry_nb d = syscall_nb t" "parked (task_fut t)"
proof -
  from phaseD(3) [OF st t] obtain e where e: "ents K (udata_idx d) rt = [e]" "entry_nb e = syscall_nb t" "parked (task_fut t)" by auto
  have "d \<in> set (ents K (udata_idx d) rt)" using d by (simp add: ents_def)
  with e show "ents K (udata_idx d) rt = [d]" "entry_nb d = syscall_nb t" "parked (task_fut t)" by simp_all
qed

text \<open>Starting to poll the task of a completion.\<close>

lemma phase_taken:
  assumes st: "phase K Map.empty rt" and d: "d \<in> set K" and inv: "rt_inv ok K' H rt"
    and t: "rt_heap rt p = Some t" "slab_idx t = Some (udata_idx d)"
  shows "phase (remove1 d K) [udata_idx d \<mapsto> (n, [])] (rt\<lparr>rt_heap := (rt_heap rt)(p \<mapsto> t\<lparr>syscall_nb := n\<rparr>)\<rparr>)"
proof (rule phaseI)
  let ?i = "udata_idx d" and ?rt = "rt\<lparr>rt_heap := (rt_heap rt)(p \<mapsto> t\<lparr>syscall_nb := n\<rparr>)\<rparr>"
  have e: "ents L i ?rt = ents L i rt" for L i by (simp add: ents_def)
  show "ents (remove1 d K) i ?rt = ds" if "[?i \<mapsto> (n, [])] i = Some (m, ds)" for i m ds
    using that entry_of_task(1) [OF st d t] d by (auto simp: e ents_remove split: if_splits)
  fix q u i assume q: "rt_heap ?rt q = Some u" "slab_idx u = Some i"
  have l: "live rt ?i p" using indexed_live [OF inv t] by simp
  have old: "rt_heap rt q = Some u" if "q \<noteq> p" using that q(1) by simp
  have "q = p" if "i = ?i"
  proof (rule ccontr)
    assume "q \<noteq> p"
    with old have "live rt i q" using indexed_live [OF inv _ q(2)] by blast
    with l that \<open>q \<noteq> p\<close> show False using live_fun by metis
  qed
  then show "syscall_nb u = m" if "[?i \<mapsto> (n, [])] i = Some (m, ds)" for m ds
    using that q by (auto split: if_splits)
  show "parked (task_fut u) \<and> (\<exists>d'. ents (remove1 d K) i ?rt = [d'] \<and> entry_nb d' = syscall_nb u)"
    if "[?i \<mapsto> (n, [])] i = None"
    using that q t(2) old phaseD(3) [OF st, of q u i] by (auto simp: e ents_remove split: if_splits)
qed

lemma aside_clone [aside_intros]: "aside rt snd (clone_task_at i rt)"
proof -
  have "meets derailed (\<lambda>_. True) (clone_task_at i rt)"
    by (auto simp: clone_task_at_def task_clone_def task_update_def slab_index_def inc_rc_eq intro!: sound_and_then)
  moreover have "rt_current rt' = rt_current rt \<and> thins rt rt'" if "clone_task_at i rt = Inr (p, rt')" for p rt'
    using that by (auto simp: clone_task_at_def task_clone_def task_update_def task_deref_def inc_rc_Inr res_simps thins_def
        split: option.splits if_splits)
  ultimately show ?thesis by (cases "clone_task_at i rt") auto
qed

text \<open>The number of the task is that of the entry, so the completion is delivered; the context and the header
  go to the same next number.\<close>

definition dispatched :: "u64 \<Rightarrow> task_info \<Rightarrow> frame raw_task \<Rightarrow> rt \<Rightarrow> rt" where
  "dispatched p info t rt =
     (let n = (if is_multiple (syscall_nb t) then syscall_nb t else syscall_nb t + 1)
      in rt\<lparr>rt_heap := (rt_heap rt)(p \<mapsto> t\<lparr>syscall_nb := n\<rparr>),
            rt_current := info\<lparr>ti_tag := (ti_tag info)\<lparr>tag_syscall_nb := n\<rparr>\<rparr>\<rparr>)"

lemma dispatch_delivers:
  assumes t: "rt_heap rt p = Some t" "tag_syscall_nb (ti_tag info) = syscall_nb t"
  shows "dispatch_cqe poll p info rt = and_then (task_poll_with (poll (task_fut t)) p (dispatched p info t rt)) (\<lambda>(_, rt). Inr rt)"
proof (cases "is_multiple (syscall_nb t)")
  case True
  then have ev: "evaluate_syscall_nb (syscall_nb t) t = Multiple" by (simp add: evaluate_syscall_nb_eq)
  have "(rt_heap rt)(p \<mapsto> t) = rt_heap rt" using t(1) by auto
  moreover have "info\<lparr>ti_tag := (ti_tag info)\<lparr>tag_syscall_nb := syscall_nb t\<rparr>\<rparr> = info" using t(2) by simp
  ultimately have "dispatched p info t rt = rt\<lparr>rt_current := info\<rparr>" using True by (simp add: dispatched_def)
  then show ?thesis using t ev by (simp add: dispatch_cqe_def task_deref_def task_poll_def)
next
  case False
  then have ev: "evaluate_syscall_nb (syscall_nb t) t = Normal" by (simp add: evaluate_syscall_nb_eq)
  show ?thesis using t ev False number_taken [OF False]
    by (simp add: dispatch_cqe_def task_deref_def task_poll_def task_update_def augmente_syscall_nb_eq dispatched_def Let_def)
qed

lemma taken_adrift:
  assumes inv: "rt_inv frame_ok K H rt" and st: "phase K Map.empty rt" and d: "d \<in> set K"
    and l: "live rt (udata_idx d) p" "udata_idx d \<in># H"
    and t: "rt_heap rt p = Some t" "slab_idx t = Some (udata_idx d)" and info: "tag_task_idx (ti_tag info) = udata_idx d"
  shows "adrift K H (remove1 d K) [udata_idx d \<mapsto> (cur_nb (dispatched p info t rt), [])] (dispatched p info t rt)"
proof -
  let ?n = "if is_multiple (syscall_nb t) then syscall_nb t else syscall_nb t + 1"
  let ?h = "(rt_heap rt)(p \<mapsto> t\<lparr>syscall_nb := ?n\<rparr>)"
  have acct: "acct frame_ok (tokens K H rt) rt" using inv by (simp add: rt_inv_def)
  from acctD(4) [OF acct l(1)] t have "header_ok frame_ok (tokens K H rt) (udata_idx d) (t\<lparr>syscall_nb := ?n\<rparr>)"
    by (auto simp: header_ok_def)
  from acct_update [OF acct l(1) this] have "rt_inv frame_ok K H (rt\<lparr>rt_heap := ?h\<rparr>)" by (simp add: rt_inv_def)
  moreover have "phase (remove1 d K) [udata_idx d \<mapsto> (?n, [])] (rt\<lparr>rt_heap := ?h\<rparr>)"
    by (rule phase_taken [OF st d inv t])
  then have "phase (remove1 d K) [udata_idx d \<mapsto> (?n, [])] (dispatched p info t rt)"
    by (rule phase_thins) (simp add: dispatched_def Let_def thins_def)
  ultimately show ?thesis using l info set_remove1_subset [of d K]
    by (simp add: adrift_def afloat_def) (simp add: dispatched_def Let_def)
qed

lemma cqe_in_step:
  assumes E: "env_ok E" and inv: "rt_inv frame_ok K {#} rt" and st: "in_step K rt"
    and c: "cqe_user_data c \<in> set K" "\<not> env_more E (cqe_flags c)"
  shows "meets derailed (in_step (complete_one E c K)) (handle_cqe_entry E (frame_poll E) frame_drop c rt)"
proof (rule meets_cases)
  let ?d = "cqe_user_data c" and ?info = "TaskInfo_from_entry c"
  let ?i = "udata_idx ?d" and ?L = "remove1 (cqe_user_data c) K"
  have i: "?i \<in># tokens K {#} rt" using c(1) by (simp add: tokens_def)
  have nb: "tag_syscall_nb (ti_tag ?info) = entry_nb ?d"
    by (simp add: TaskInfo_from_entry_def Let_def payload_from_entry_def)
  have disp: "meets derailed (\<lambda>rt'. \<exists>n. phase ?L Map.empty rt' \<or> phase ?L [?i \<mapsto> (n, [])] rt') (dispatch_cqe (frame_poll E) p ?info rt1)"
    if clone: "clone_task_at ?i rt = Inr (p, rt1)" for p rt1
  proof -
    have inv1: "rt_inv frame_ok K {#?i#} rt1" and l: "live rt1 ?i p" using clone_task_at_spec(2) [OF inv i clone] by simp_all
    then obtain t where t: "rt_heap rt1 p = Some t" "slab_idx t = Some ?i"
      using acctD(4) [of frame_ok "tokens K {#?i#} rt1" rt1 ?i p] by (auto simp: rt_inv_def header_ok_def)
    have st1: "phase K Map.empty rt1" using aside_clone [of rt ?i] clone st phase_thins by (auto simp: in_step_def)
    note e = entry_of_task [OF st1 c(1) t]
    let ?rt = "dispatched p ?info t rt1"
    have ad: "adrift K {#?i#} ?L [?i \<mapsto> (cur_nb ?rt, [])] ?rt" by (rule taken_adrift [OF inv1 st1 c(1) l _ t]) simp_all
    have cur: "cur_idx ?rt = ?i" "live ?rt ?i p" using l by (simp_all add: dispatched_def Let_def live_def)
    have ok: "frame_ok (task_fut t)" using acctD(4) [of frame_ok "tokens K {#?i#} rt1" rt1 ?i p] inv1 l t
      by (auto simp: rt_inv_def header_ok_def)
    have "([?i \<mapsto> (cur_nb ?rt, [])])(?i := None) = Map.empty" by simp
    with poll_with_lands [OF ad _ frame_poll_ok [OF E ok] lands_poll [OF E e(3) ad], of p] cur
    have "meets derailed (\<lambda>(_, rt'). phase ?L Map.empty rt' \<or> phase ?L [?i \<mapsto> (cur_nb ?rt, [])] rt')
        (task_poll_with (frame_poll E (task_fut t)) p ?rt)" by (auto elim!: meets_mono simp del: fun_upd_apply)
    then show ?thesis unfolding dispatch_delivers [OF t(1) nb [unfolded e(2)]] by (rule meets_and_then) auto
  qed
  have fin: "meets derailed (thins rt2) (and_then (task_drop frame_drop p rt2) (task_drop frame_drop p))" for p rt2
    by (rule meets_and_then [OF aside_task_drop [unfolded aside_def]])
      (auto intro!: meets_mono [OF aside_task_drop [unfolded aside_def]] intro: thins_trans)
  have eq: "handle_cqe_entry E (frame_poll E) frame_drop c rt = and_then (clone_task_at ?i rt) (\<lambda>(p, rt).
      and_then (dispatch_cqe (frame_poll E) p ?info rt) (\<lambda>rt. and_then (task_drop frame_drop p rt) (task_drop frame_drop p)))"
    using c(2) by (simp add: handle_cqe_entry_def Let_def)
  have "meets derailed (\<lambda>rt'. \<exists>n. phase ?L Map.empty rt' \<or> phase ?L [?i \<mapsto> (n, [])] rt') (handle_cqe_entry E (frame_poll E) frame_drop c rt)"
    unfolding eq
  proof (rule meets_and_then [OF aside_clone [unfolded aside_def]], clarify)
    fix p rt1 assume "clone_task_at ?i rt = Inr (p, rt1)"
    from disp [OF this] show "meets derailed (\<lambda>rt'. \<exists>n. phase ?L Map.empty rt' \<or> phase ?L [?i \<mapsto> (n, [])] rt')
        (and_then (dispatch_cqe (frame_poll E) p ?info rt1) (\<lambda>rt. and_then (task_drop frame_drop p rt) (task_drop frame_drop p)))"
      by (rule meets_and_then) (use phase_thins in \<open>blast intro: meets_mono [OF fin]\<close>)
  qed
  note main = this
  show "\<not> derailed e" if "handle_cqe_entry E (frame_poll E) frame_drop c rt = Inl e" for e using main that by simp
  fix rt' assume res: "handle_cqe_entry E (frame_poll E) frame_drop c rt = Inr rt'"
  have inv': "rt_inv frame_ok ?L {#} rt'"
    using client.handle_cqe_spec [OF E inv c(1)] res c(2) by (simp add: complete_one_def)
  have "phase ?L Map.empty rt'" if w: "phase ?L [?i \<mapsto> (n, [])] rt'" for n
  proof -
    have "ents ?L ?i rt' = []" using phaseD(1) [OF w, of ?i] by simp
    then have "?i \<notin># tokens ?L {#} rt'" by (intro no_entries) (auto simp: ents_def filter_empty_conv)
    then show ?thesis using phase_gone [OF w, of ?i] indexed_live [OF inv'] by auto
  qed
  with main res show "in_step (complete_one E c K) rt'" using c(2) by (auto simp: in_step_def complete_one_def)
qed

subsection \<open>The loop\<close>

lemma batch_in_step:
  assumes E: "env_ok E" and "rt_inv frame_ok K {#} rt" "in_step K rt" "legal_batch E cs K" "last_ones E cs"
  shows "meets derailed (in_step (fold (complete_one E) cs K)) (fold_res (handle_cqe_entry E (frame_poll E) frame_drop) cs rt)"
  using assms(2-)
proof (induction cs arbitrary: K rt)
  case (Cons c cs)
  have c: "cqe_user_data c \<in> set K" "\<not> env_more E (cqe_flags c)" using Cons.prems by (simp_all add: last_ones_def)
  from cqe_in_step [OF E Cons.prems(1,2) c] show ?case unfolding fold_res.simps fold_simps(2)
  proof (rule meets_and_then)
    fix rt1 assume "handle_cqe_entry E (frame_poll E) frame_drop c rt = Inr rt1" and st: "in_step (complete_one E c K) rt1"
    then have "rt_inv frame_ok (complete_one E c K) {#} rt1" using client.handle_cqe_spec [OF E Cons.prems(1) c(1)] by simp
    from Cons.IH [OF this st] Cons.prems(3,4)
    show "meets derailed (in_step (fold (complete_one E) cs (complete_one E c K))) (fold_res (handle_cqe_entry E (frame_poll E) frame_drop) cs rt1)"
      by (simp add: last_ones_def)
  qed
qed simp

lemma free_slots_in_step:
  assumes "rt_inv ok K H rt" "in_step K rt"
  shows "meets derailed (in_step K) (free_unsed_slab_slot rt)"
  using free_unsed_slab_slot_spec [OF assms(1)] assms(2) phase_thins [of K Map.empty rt] by (auto simp: in_step_def)

lemma turn_in_step:
  assumes E: "env_ok E" and w: "waiting frame_ok K rt" and st: "in_step K rt" and lb: "legal_batch E cs K" "last_ones E cs"
    and res: "loop_body E (frame_poll E) frame_drop cs rt = Some r"
  shows "meets derailed (\<lambda>x. in_step (fold (complete_one E) cs K) (snd x)) r"
proof -
  have inv: "rt_inv frame_ok K {#} rt" and wake: "rt_wake_list rt = []" and busy: "\<not> is_runtime_free rt"
    using w by (simp_all add: waiting_def)
  note batch = batch_in_step [OF E inv st lb]
  show ?thesis
  proof (cases "cs = []")
    case False
    show ?thesis
    proof (cases "fold_res (handle_cqe_entry E (frame_poll E) frame_drop) cs rt")
      case (Inl e)
      then show ?thesis using res False batch free_waiting [OF w] busy by (auto simp: loop_body_def)
    next
      case (Inr rt1)
      then have rt1: "rt_wake_list rt1 = []" "rt_inv frame_ok (fold (complete_one E) cs K) {#} rt1" "in_step (fold (complete_one E) cs K) rt1"
        using client.batch_spec [OF E inv lb(1)] wake batch by simp_all
      have r: "r = and_then (free_unsed_slab_slot rt1) (\<lambda>rt. Inr (is_runtime_free rt, rt))"
        using res False Inr client.drain_idle [OF rt1(1)] free_waiting [OF w] busy by (simp add: loop_body_def)
      show ?thesis unfolding r by (rule meets_and_then [OF free_slots_in_step [OF rt1(2,3)]]) simp
    qed
  qed (use res free_waiting [OF w] busy in \<open>auto simp: loop_body_def\<close>)
qed

text \<open>Staged entries that go to the kernel stay entries of their tasks.\<close>

lemma submit_in_step:
  assumes "in_step K rt" "submit_pending E rt = Inr (es, rt')"
  shows "in_step (K @ map sqe_user_data es) rt'"
proof -
  have "es = rt_pending rt" "rt' = rt\<lparr>rt_pending := []\<rparr>" using assms(2) by (auto simp: submit_pending_def res_simps)
  then have "ents (K @ map sqe_user_data es) i rt' = ents K i rt" and "rt_heap rt' = rt_heap rt" for i
    by (simp_all add: ents_def)
  with assms(1) show ?thesis by (simp add: in_step_def phase_def)
qed

text \<open>What is said of an outcome.\<close>

definition outcome_in_step :: "frame outcome \<Rightarrow> bool" where
  "outcome_in_step r =
     (case r of
        Running K rt \<Rightarrow> in_step K rt
      | Faulted e \<Rightarrow> \<not> derailed e
      | _ \<Rightarrow> True)"

lemma outcome_in_step_simps [simp]:
  "outcome_in_step (Finished rt)" "outcome_in_step (Io_error e rt)" "outcome_in_step (Running K rt) \<longleftrightarrow> in_step K rt"
  "outcome_in_step (Faulted f) \<longleftrightarrow> \<not> derailed f" "outcome_in_step Diverged"
  by (simp_all add: outcome_in_step_def)

definition single_kernel :: "'f env \<Rightarrow> (nat \<Rightarrow> u64 list \<Rightarrow> kernel_turn) \<Rightarrow> bool" where
  "single_kernel E kern \<longleftrightarrow> (\<forall>n K cs. kern n K = Completions cs \<longrightarrow> last_ones E cs)"

lemma loop_in_step:
  assumes E: "env_ok E" and lk: "legal_kernel E kern" "single_kernel E kern" and "waiting frame_ok K rt" "in_step K rt"
  shows "outcome_in_step (block_loop E (frame_poll E) frame_drop kern n K rt)"
  using assms(4-)
proof (induction n arbitrary: K rt)
  case (Suc n)
  show ?case
  proof (cases "submit_pending E rt")
    case (Inl e)
    then show ?thesis by (auto simp: submit_pending_def assert_or_def split: if_splits)
  next
    case (Inr x)
    obtain es rt1 where x: "x = (es, rt1)" by (cases x)
    let ?K = "K @ map sqe_user_data es"
    have w: "waiting frame_ok ?K rt1" and st: "in_step ?K rt1"
      using submit_pending_spec(2) [OF Suc.prems(1)] submit_in_step [OF Suc.prems(2)] Inr x by blast+
    show ?thesis
    proof (cases "kern n ?K")
      case (Completions cs)
      then have lb: "legal_batch E cs ?K" "last_ones E cs" using lk by (auto simp: legal_kernel_def single_kernel_def)
      from client.loop_body_spec [OF E w lb(1)] obtain r where r: "loop_body E (frame_poll E) frame_drop cs rt1 = Some r"
        and spec: "\<forall>b rt'. r = Inr (b, rt') \<longrightarrow> (if b then fold (complete_one E) cs ?K = [] \<and> idle frame_ok rt'
          else waiting frame_ok (fold (complete_one E) cs ?K) rt')" by blast
      note turn = turn_in_step [OF E w st lb r]
      show ?thesis
      proof (cases r)
        case y: (Inr y)
        obtain b rt2 where b: "y = (b, rt2)" by (cases y)
        show ?thesis
        proof (cases b)
          case False
          then have "waiting frame_ok (fold (complete_one E) cs ?K) rt2" "in_step (fold (complete_one E) cs ?K) rt2"
            using spec turn y b by (force, simp)
          from Suc.IH [OF this] False y b Inr x Completions r show ?thesis by simp
        qed (use y b Inr x Completions r in simp)
      qed (use turn Inr x Completions r in simp)
    qed (use Inr x in simp)
  qed
qed simp

lemma block_on_in_step:
  assumes E: "env_ok E" and lk: "legal_kernel E kern" "single_kernel E kern" and st: "idle frame_ok rt" and p: "single p"
  shows "outcome_in_step (block_on E (frame_poll E) frame_drop kern n (async_block p) rt)"
proof -
  have ok: "frame_ok (async_block p)" using single_prog_ok [OF p] by (simp add: frame_ok_def async_block_def)
  have inv: "rt_inv frame_ok [] {#} rt" and empty: "rt_heap rt = Map.empty" "rt_pending rt = []"
    using st by (simp_all add: idle_def)
  have "afloat [] {#} [] Map.empty rt" using empty inv by (simp add: afloat_def phase_def)
  note sp = spawn_in_step [OF E this ok frame_poll_ok [OF E ok]]
  have "slab_inv (rt_tasks rt)" using inv acctD(1) by (auto simp: rt_inv_def)
  moreover have "lands [] N rt1 (frame_poll E (async_block p) rt1)" if "adrift K H [] N rt1" for K H N rt1
    using lands_run [OF E p that] by (simp add: frame_poll_def async_block_def)
  ultimately have sp': "meets derailed (in_step []) (spawn E (frame_poll E) frame_drop (async_block p) rt)"
    using sp by (auto simp: spawn_eq_run [OF E] in_step_def elim!: meets_mono)
  have sp2: "meets derailed (in_step []) (and_then (spawn E (frame_poll E) frame_drop (async_block p) rt) free_unsed_slab_slot)"
  proof (rule meets_and_then [OF sp'])
    fix rt0 assume "spawn E (frame_poll E) frame_drop (async_block p) rt = Inr rt0" "in_step [] rt0"
    with keepsD(2) [OF keeps_spawn [where ok = frame_ok and poll = "frame_poll E", OF E frame_drop_ok ok frame_poll_ok [OF E ok] inv]]
    show "meets derailed (in_step []) (free_unsed_slab_slot rt0)" using free_slots_in_step by fastforce
  qed
  from client.spawned [OF E st ok] sp2 loop_in_step [OF E lk, of "[]"] show ?thesis by (auto simp: block_on_def)
qed

subsection \<open>Delivery\<close>

lemma count_entries: "count (image_mset f (mset xs)) i = length (filter (\<lambda>x. f x = i) xs)"
  by (induction xs) auto

lemma count_tokens: "count (tokens K {#} rt) i = length (ents K i rt)"
  using count_entries [of udata_idx "K @ map sqe_user_data (rt_pending rt)" i]
  by (simp add: tokens_def ents_def flip: image_mset_union) (simp add: multiset.map_comp o_def)

text \<open>The state in which the await of task \<open>t\<close> at \<open>q\<close> is resumed for the completion \<open>c\<close>: the completion's
  result and flags are the context, and task and context have moved to the next number.\<close>

definition resumed :: "u64 \<Rightarrow> frame raw_task \<Rightarrow> cqe \<Rightarrow> rt \<Rightarrow> rt" where
  "resumed q t c rt =
     (let n = (if is_multiple (syscall_nb t) then syscall_nb t else syscall_nb t + 1)
      in rt\<lparr>rt_heap := (rt_heap rt)(q \<mapsto> t\<lparr>ref_counter := 2, syscall_nb := n\<rparr>),
            rt_current := \<lparr>ti_tag = \<lparr>tag_task_idx = udata_idx (cqe_user_data c), tag_syscall_nb = n\<rparr>,
              ti_result = cqe_result c, ti_flags = cqe_flags c,
              ti_response_gen = up_response_gen (from_user_data (cqe_user_data c))\<rparr>\<rparr>)"

lemma completion_resumes:
  assumes inv: "rt_inv frame_ok K {#} rt" and st: "in_step K rt"
    and c: "cqe_user_data c \<in> set K" "\<not> env_more E (cqe_flags c)"
  shows "\<exists>q t a. rt_heap rt q = Some t \<and> slab_idx t = Some (udata_idx (cqe_user_data c))
    \<and> fr_state (task_fut t) = Await a \<and> posted a
    \<and> handle_cqe_entry E (frame_poll E) frame_drop c rt =
      and_then (task_poll_with (resume E a (fr_locals (task_fut t))) q (resumed q t c rt)) (\<lambda>(_, rt).
      and_then (task_drop frame_drop q rt) (task_drop frame_drop q))"
proof -
  let ?d = "cqe_user_data c" and ?info = "TaskInfo_from_entry c"
  let ?i = "udata_idx ?d"
  have acct: "acct frame_ok (tokens K {#} rt) rt" using inv by (simp add: rt_inv_def)
  have "?i \<in># tokens K {#} rt" using c(1) by (simp add: tokens_def)
  with acct obtain q t where q: "live rt ?i q" "rt_heap rt q = Some t" "header_ok frame_ok (tokens K {#} rt) ?i t"
    by (rule acct_liveE)
  have idx: "slab_idx t = Some ?i" using q(3) by (simp add: header_ok_def)
  note e = entry_of_task [OF st [unfolded in_step_def] c(1) q(2) idx]
  have rc: "unat (ref_counter t) = 1" using q(3) e(1) by (simp add: header_ok_def count_tokens)
  then have rc1: "ref_counter t = 1" by (simp add: word_unat_eq_iff)
  let ?t = "t\<lparr>ref_counter := 2\<rparr>"
  let ?rt = "rt\<lparr>rt_heap := (rt_heap rt)(q \<mapsto> ?t)\<rparr>"
  have clone: "clone_task_at ?i rt = Inr (q, ?rt)"
    using live_index [OF acct q(1)] q(2) rc1 by (simp add: clone_task_at_def task_clone_def task_update_def task_deref_def inc_rc_eq)
  obtain a where a: "fr_state (task_fut t) = Await a" "posted a" using e(3) by (rule parkedE)
  have nb: "tag_syscall_nb (ti_tag ?info) = syscall_nb ?t"
    using e(2) by (simp add: TaskInfo_from_entry_def Let_def payload_from_entry_def)
  have "dispatched q ?info ?t ?rt = resumed q t c rt"
    by (simp add: dispatched_def resumed_def Let_def TaskInfo_from_entry_def payload_from_entry_def udata_idx_def)
  then have "dispatch_cqe (frame_poll E) q ?info ?rt =
      and_then (task_poll_with (frame_poll E (task_fut t)) q (resumed q t c rt)) (\<lambda>(_, rt). Inr rt)"
    using dispatch_delivers [of ?rt q ?t ?info "frame_poll E"] nb by simp
  moreover have "frame_poll E (task_fut t) = resume E a (fr_locals (task_fut t))" using a(1) by (simp add: frame_poll_def fun_eq_iff)
  ultimately have "handle_cqe_entry E (frame_poll E) frame_drop c rt =
      and_then (task_poll_with (resume E a (fr_locals (task_fut t))) q (resumed q t c rt)) (\<lambda>(_, rt).
      and_then (task_drop frame_drop q rt) (task_drop frame_drop q))"
    using clone c(2) by (simp add: handle_cqe_entry_def Let_def and_then_assoc split_def)
  with q(2) idx a show ?thesis by blast
qed

subsection \<open>What a run shows\<close>

lemma in_step_task:
  assumes "rt_inv frame_ok K {#} rt" "in_step K rt" "rt_heap rt q = Some t"
  shows "\<exists>i d a. slab_idx t = Some i \<and> fr_state (task_fut t) = Await a \<and> posted a \<and> ents K i rt = [d]
    \<and> entry_nb d = syscall_nb t"
proof -
  have acct: "acct frame_ok (tokens K {#} rt) rt" using assms(1) by (simp add: rt_inv_def)
  from acctD(5) [OF acct assms(3)] acctD(4) [OF acct] assms(3) obtain i where i: "slab_idx t = Some i"
    by (fastforce simp: header_ok_def)
  from phaseD(3) [OF assms(2) [unfolded in_step_def] assms(3) i] i show ?thesis by (auto elim!: parkedE)
qed

lemma resumed_values:
  "resume E (Aw_accept AF_Submited ka) ls (resumed q t c rt) =
     run E (ka (if 0 \<le> sint (cqe_result c) then Inr (cqe_result c) else Inl (cqe_result c))) ls (resumed q t c rt)"
  "resume E (Aw_write WF_Pending kw) ls (resumed q t c rt) = run E (kw (cqe_result c)) ls (resumed q t c rt)"
  by (simp_all add: resume_def await_leaf_def accept_poll_def write_poll_def current_result_def resumed_def Let_def)

lemma oldest_first_single: "single_kernel demo_env (oldest_first res 0)"
  by (auto simp: single_kernel_def oldest_first_def last_ones_def demo_env_def split: list.splits)

lemma spawn_two_half:
  "\<exists>K rt. block_on demo_env (frame_poll demo_env) frame_drop (oldest_first 9 0) (Suc 0) (async_block spawn_two) demo_rt =
     Running K rt \<and> length K = 1"
  by (simp add: eval_demo spawn_two_def spawn_run_def)

end
