(* ===== verification/Connect_Loop.thy ===== *)
theory Connect_Loop
  imports In_Step
begin

text \<open>
  What \<open>connect\<close> (\<open>src/src/calls/socket.rs\<close>) does when the kernel puts the new socket into slot 0 of
  the fixed-file table. The future takes descriptor 0 for \<open>no socket yet\<close>, so it takes the completion
  of the connect for that of the socket and connects again, on the descriptor that this completion's
  result happens to be. As long as the results are 0 it goes on so forever.
\<close>

subsection \<open>Awaiting a connect that has no socket yet\<close>

definition connecting :: "u64 \<Rightarrow> sockaddr_in \<Rightarrow> (u32 \<Rightarrow> prog) \<Rightarrow> frame" where
  "connecting adr addr k = \<lparr>fr_state = Await (Aw_connect adr (SF_Connecting 0 addr) k), fr_locals = []\<rparr>"

text \<open>No live task but such ones.\<close>

definition only_connects :: "frame \<Rightarrow> rt \<Rightarrow> bool" where
  "only_connects fr rt \<longleftrightarrow> (\<forall>q f. futs rt q = Some f \<longrightarrow> f = fr)"

text \<open>A kernel that answers 0 to everything: slot 0 for the socket, success for every connect.\<close>

definition zero_kernel :: "(nat \<Rightarrow> u64 list \<Rightarrow> kernel_turn) \<Rightarrow> bool" where
  "zero_kernel kern \<longleftrightarrow> (\<forall>n K cs. kern n K = Completions cs \<longrightarrow> (\<forall>c \<in> set cs. cqe_result c = 0))"

lemma connects_thinned: "only_connects fr rt \<Longrightarrow> thins rt rt' \<Longrightarrow> only_connects fr rt'"
  by (fastforce simp: only_connects_def thins_def futs_def)

lemma drop_thins: "task_drop frame_drop p rt = Inr rt' \<Longrightarrow> thins rt rt'"
  using aside_task_drop [of rt p] by (simp add: aside_def)

lemma drops_thin: "and_then (task_drop frame_drop p rt) (task_drop frame_drop p) = Inr rt' \<Longrightarrow> thins rt rt'"
  by (auto simp: res_simps dest!: drop_thins intro: thins_trans)

lemma submits_stage:
  "send_socket rt = Inr rt' \<Longrightarrow> rt_pending rt' \<noteq> []" "send_connect fd a n rt = Inr rt' \<Longrightarrow> rt_pending rt' \<noteq> []"
  by (auto simp: send_socket_def send_connect_def Let_def sqe_queue_push_def res_simps)

text \<open>A poll that submits and suspends on the connect again.\<close>

lemma poll_connects:
  assumes "task_poll_with body q rt = Inr (b, rt')" "body rt = and_then m (\<lambda>rt. Inr (fr, b', rt))" "calm rt id m"
    "\<And>rt1. m = Inr rt1 \<Longrightarrow> rt_pending rt1 \<noteq> []" "\<And>p f. p \<noteq> q \<Longrightarrow> futs rt p = Some f \<Longrightarrow> f = fr"
  shows "only_connects fr rt' \<and> rt_pending rt' \<noteq> []"
proof -
  obtain rt1 t where rt1: "m = Inr rt1" "rt_heap rt1 q = Some t" "rt' = rt1\<lparr>rt_heap := (rt_heap rt1)(q \<mapsto> t\<lparr>task_fut := fr\<rparr>)\<rparr>"
    using assms(1,2) by (auto simp: task_poll_with_def task_deref_def res_simps split: option.splits)
  then have "futs rt1 = futs rt" using assms(3) by (simp add: calm_def)
  then show ?thesis using rt1 assms(4,5) by (auto simp: only_connects_def split: if_splits)
qed

subsection \<open>One completion, one batch, one turn\<close>

lemma zero_answer:
  assumes inv: "rt_inv frame_ok K {#} rt" and st: "in_step K rt"
    and c: "cqe_user_data c \<in> set K" "\<not> env_more E (cqe_flags c)" "cqe_result c = 0"
    and only: "only_connects (connecting adr addr k) rt"
    and res: "handle_cqe_entry E (frame_poll E) frame_drop c rt = Inr rt'"
  shows "only_connects (connecting adr addr k) rt' \<and> rt_pending rt' \<noteq> []"
proof -
  let ?f = "connecting adr addr k"
  from completion_resumes [where E = E, OF inv st c(1,2)] obtain q t a where q: "rt_heap rt q = Some t"
    "fr_state (task_fut t) = Await a" and eq: "handle_cqe_entry E (frame_poll E) frame_drop c rt =
      and_then (task_poll_with (resume E a (fr_locals (task_fut t))) q (resumed q t c rt)) (\<lambda>(_, rt).
      and_then (task_drop frame_drop q rt) (task_drop frame_drop q))" by blast
  let ?R = "resumed q t c rt"
  have "task_fut t = ?f" using only q(1) by (auto simp: only_connects_def futs_def)
  then have a: "a = Aw_connect adr (SF_Connecting 0 addr) k" "fr_locals (task_fut t) = []" using q(2) by (simp_all add: connecting_def)
  have "current_result ?R = 0" using c(3) by (simp add: current_result_def resumed_def Let_def)
  then have body: "resume E a (fr_locals (task_fut t)) ?R = and_then (send_connect 0 adr 16 ?R) (\<lambda>rt. Inr (?f, False, rt))"
    by (simp add: a resume_def await_leaf_def socket_poll_def Let_def connecting_def and_then_assoc)
  obtain b rt2 where rt2: "task_poll_with (resume E a (fr_locals (task_fut t))) q ?R = Inr (b, rt2)"
    "and_then (task_drop frame_drop q rt2) (task_drop frame_drop q) = Inr rt'"
    using res unfolding eq by (auto simp: res_simps)
  have "futs ?R p = futs rt p" if "p \<noteq> q" for p using that by (simp add: resumed_def Let_def futs_def)
  then have "only_connects ?f rt2 \<and> rt_pending rt2 \<noteq> []"
    using only by (intro poll_connects [OF rt2(1) body calm_sends(4) submits_stage(2)]) (auto simp: only_connects_def)
  then show ?thesis using connects_thinned drops_thin [OF rt2(2)] by (auto simp: thins_def)
qed

lemma zero_batch:
  assumes E: "env_ok E" and "rt_inv frame_ok K {#} rt" "in_step K rt" "legal_batch E cs K" "last_ones E cs"
    "\<forall>c \<in> set cs. cqe_result c = 0" "only_connects (connecting adr addr k) rt" "cs \<noteq> []"
    "fold_res (handle_cqe_entry E (frame_poll E) frame_drop) cs rt = Inr rt'"
  shows "only_connects (connecting adr addr k) rt' \<and> rt_pending rt' \<noteq> []"
  using assms(2-)
proof (induction cs arbitrary: K rt)
  case (Cons c cs)
  have c: "cqe_user_data c \<in> set K" "\<not> env_more E (cqe_flags c)" "cqe_result c = 0" using Cons.prems by (simp_all add: last_ones_def)
  obtain rt1 where rt1: "handle_cqe_entry E (frame_poll E) frame_drop c rt = Inr rt1"
    "fold_res (handle_cqe_entry E (frame_poll E) frame_drop) cs rt1 = Inr rt'" using Cons.prems(8) by (auto simp: res_simps)
  note next1 = zero_answer [OF Cons.prems(1,2) c Cons.prems(6) rt1(1)]
  have "rt_inv frame_ok (complete_one E c K) {#} rt1" "in_step (complete_one E c K) rt1"
    using client.handle_cqe_spec [OF E Cons.prems(1) c(1)] cqe_in_step [OF E Cons.prems(1,2) c(1,2)] rt1(1) by simp_all
  from Cons.IH [OF this] Cons.prems(3-5) next1 rt1(2) show ?case by (cases "cs = []") (auto simp: last_ones_def)
qed simp

lemma zero_turn:
  assumes E: "env_ok E" and w: "waiting frame_ok K rt" and st: "in_step K rt" and lb: "legal_batch E cs K" "last_ones E cs"
    and z: "\<forall>c \<in> set cs. cqe_result c = 0" and only: "only_connects (connecting adr addr k) rt"
    and res: "loop_body E (frame_poll E) frame_drop cs rt = Some (Inr (over, rt'))"
  shows "\<not> over \<and> only_connects (connecting adr addr k) rt'"
proof -
  have inv: "rt_inv frame_ok K {#} rt" and wake: "rt_wake_list rt = []" and busy: "\<not> is_runtime_free rt"
    using w by (simp_all add: waiting_def)
  have cs: "cs \<noteq> []" using res free_waiting [OF w] busy by (auto simp: loop_body_def)
  obtain rt1 where rt1: "fold_res (handle_cqe_entry E (frame_poll E) frame_drop) cs rt = Inr rt1"
    using res cs free_waiting [OF w] busy by (auto simp: loop_body_def split: sum.splits)
  then have "rt_wake_list rt1 = []" using client.batch_spec [OF E inv lb(1)] wake by simp
  with res cs rt1 have rt': "free_unsed_slab_slot rt1 = Inr rt'" "over = is_runtime_free rt'"
    using free_waiting [OF w] busy client.drain_idle by (auto simp: loop_body_def res_simps)
  have b: "only_connects (connecting adr addr k) rt1 \<and> rt_pending rt1 \<noteq> []"
    by (rule zero_batch [OF E inv st lb z only cs rt1])
  have same: "rt_pending rt' = rt_pending rt1" "futs rt' = futs rt1"
    using rt'(1) by (auto simp: free_unsed_slab_slot_def res_simps)
  from client.loop_body_spec [OF E w lb(1)] res have "over \<Longrightarrow> idle frame_ok rt'" by auto
  then show ?thesis using b same by (auto simp: only_connects_def idle_def)
qed

subsection \<open>The whole run\<close>

definition stuck :: "frame \<Rightarrow> frame outcome \<Rightarrow> bool" where
  "stuck fr r \<longleftrightarrow>
     (case r of Finished rt \<Rightarrow> False | Running K rt \<Rightarrow> rt_heap rt \<noteq> Map.empty \<and> only_connects fr rt | _ \<Rightarrow> True)"

lemma stuck_simps [simp]:
  "\<not> stuck fr (Finished rt)" "stuck fr (Io_error e rt)" "stuck fr (Faulted f)" "stuck fr Diverged"
  "stuck fr (Running K rt) \<longleftrightarrow> rt_heap rt \<noteq> Map.empty \<and> only_connects fr rt"
  by (simp_all add: stuck_def)

lemma waiting_tasks: "waiting ok K rt \<Longrightarrow> rt_heap rt \<noteq> Map.empty"
proof
  assume w: "waiting ok K rt" and e: "rt_heap rt = Map.empty"
  then have acct: "acct ok (tokens K {#} rt) rt" by (simp add: waiting_def rt_inv_def)
  have "slab_lookup (rt_tasks rt) i = None" for i
    using acctD(4) [OF acct, of i] e w by (cases "slab_lookup (rt_tasks rt) i") (auto simp: live_def waiting_def)
  then have "slab_lookup (rt_tasks rt) = Map.empty" by auto
  then show False using w is_runtime_free_iff by (auto simp: waiting_def)
qed

lemma zero_loop:
  assumes E: "env_ok E" and lk: "legal_kernel E kern" "single_kernel E kern" "zero_kernel kern"
    and "waiting frame_ok K rt" "in_step K rt" "only_connects (connecting adr addr k) rt"
  shows "stuck (connecting adr addr k) (block_loop E (frame_poll E) frame_drop kern n K rt)"
  using assms(5-)
proof (induction n arbitrary: K rt)
  case 0
  then show ?case using waiting_tasks by auto
next
  case (Suc n)
  show ?case
  proof (cases "submit_pending E rt")
    case (Inr x)
    obtain es rt1 where x: "x = (es, rt1)" by (cases x)
    let ?K = "K @ map sqe_user_data es"
    have w: "waiting frame_ok ?K rt1" and st: "in_step ?K rt1"
      using submit_pending_spec(2) [OF Suc.prems(1)] submit_in_step [OF Suc.prems(2)] Inr x by blast+
    have only: "only_connects (connecting adr addr k) rt1"
      using Suc.prems(3) Inr x by (auto simp: submit_pending_def only_connects_def res_simps)
    show ?thesis
    proof (cases "kern n ?K")
      case (Completions cs)
      then have lb: "legal_batch E cs ?K" "last_ones E cs" and z: "\<forall>c \<in> set cs. cqe_result c = 0"
        using lk by (auto simp: legal_kernel_def single_kernel_def zero_kernel_def)
      from client.loop_body_spec [OF E w lb(1)] obtain r where r: "loop_body E (frame_poll E) frame_drop cs rt1 = Some r"
        and spec: "\<forall>b rt'. r = Inr (b, rt') \<longrightarrow> (if b then fold (complete_one E) cs ?K = [] \<and> idle frame_ok rt'
          else waiting frame_ok (fold (complete_one E) cs ?K) rt')" by blast
      note turn = turn_in_step [OF E w st lb r]
      show ?thesis
      proof (cases r)
        case y: (Inr y)
        obtain b rt2 where b: "y = (b, rt2)" by (cases y)
        have z2: "\<not> b \<and> only_connects (connecting adr addr k) rt2" using zero_turn [OF E w st lb z only] r y b by blast
        then have "waiting frame_ok (fold (complete_one E) cs ?K) rt2" "in_step (fold (complete_one E) cs ?K) rt2"
          using spec turn y b by (force, simp)
        from Suc.IH [OF this] z2 y b Inr x Completions r show ?thesis by simp
      qed (use Inr x Completions r in simp)
    qed (use Inr x in simp)
  qed simp
qed

text \<open>The first poll submits the socket.\<close>

lemma connect_spawned:
  assumes "rt_heap rt = Map.empty" "spawn E (frame_poll E) frame_drop (async_block (Connect ip port adr k)) rt = Inr rt'"
  shows "\<exists>addr. connect ip port = SF_CreateSocket addr \<and> only_connects (connecting adr addr k) rt' \<and> rt_pending rt' \<noteq> []"
proof -
  let ?fut = "async_block (Connect ip port adr k)"
  obtain addr where addr: "connect ip port = SF_CreateSocket addr" by (simp add: connect_def)
  obtain p old rt1 where ins: "spawn_insert E ?fut rt = Inr (p, old, rt1)"
    and rest: "and_then (task_poll (frame_poll E) p rt1) (\<lambda>(_, rt). spawn_finish frame_drop p old rt) = Inr rt'"
    using assms(2) by (auto simp: spawn_def res_simps)
  have heap: "futs rt1 q = (if q = p then Some ?fut else None)" for q
    using ins assms(1) by (auto simp: spawn_insert_def task_alloc_def task_new_def task_clone_def task_update_def task_deref_def insert_task_def
        set_task_idx_def inc_rc_eq futs_def res_simps Let_def split: prod.splits if_splits)
  from heap [of p] obtain t where t: "rt_heap rt1 p = Some t" "task_fut t = ?fut" by (auto simp: futs_def)
  obtain b rt2 rt3 where rt2: "task_poll_with (frame_poll E ?fut) p rt1 = Inr (b, rt2)"
    "task_drop frame_drop p rt2 = Inr rt3" "task_drop frame_drop p (rt3\<lparr>rt_current := old\<rparr>) = Inr rt'"
    using rest t by (auto simp: task_poll_def task_deref_def spawn_finish_def task_drop_def res_simps)
  have body: "frame_poll E ?fut rt1 = and_then (send_socket rt1) (\<lambda>rt. Inr (connecting adr addr k, False, rt))"
    by (simp add: frame_poll_def async_block_def await_leaf_def addr socket_poll_def connecting_def and_then_assoc)
  have "only_connects (connecting adr addr k) rt2 \<and> rt_pending rt2 \<noteq> []"
    by (rule poll_connects [OF rt2(1) body calm_sends(5) submits_stage(1)]) (use heap in auto)
  moreover have "thins rt2 rt'"
    using thins_trans [of rt2 "rt3\<lparr>rt_current := old\<rparr>"] drop_thins [OF rt2(2)] drop_thins [OF rt2(3)] by simp
  ultimately show ?thesis using addr connects_thinned by (auto simp: thins_def)
qed

lemma connect_stuck:
  assumes E: "env_ok E" and lk: "legal_kernel E kern" "single_kernel E kern" "zero_kernel kern"
    and st: "idle frame_ok rt" and k: "\<forall>v. single (k v)"
  shows "\<exists>addr. connect ip port = SF_CreateSocket addr \<and>
    stuck (connecting adr addr k) (block_on E (frame_poll E) frame_drop kern n (async_block (Connect ip port adr k)) rt)"
proof -
  let ?fut = "async_block (Connect ip port adr k)"
  obtain addr where addr: "connect ip port = SF_CreateSocket addr" by (simp add: connect_def)
  have p: "single (Connect ip port adr k)" using k by simp
  have ok: "frame_ok ?fut" using single_prog_ok [OF p] by (simp add: frame_ok_def async_block_def)
  have "stuck (connecting adr addr k) (block_on E (frame_poll E) frame_drop kern n ?fut rt)"
  proof (cases "and_then (spawn E (frame_poll E) frame_drop ?fut rt) free_unsed_slab_slot")
    case (Inr rt1)
    then obtain rt0 where sp: "spawn E (frame_poll E) frame_drop ?fut rt = Inr rt0" "free_unsed_slab_slot rt0 = Inr rt1"
      by (auto simp: res_simps)
    have "rt_heap rt = Map.empty" using st by (simp add: idle_def)
    from connect_spawned [OF this sp(1)] addr have "only_connects (connecting adr addr k) rt0" "rt_pending rt0 \<noteq> []" by auto
    then have only: "only_connects (connecting adr addr k) rt1" "rt_pending rt1 \<noteq> []"
      using sp(2) by (auto simp: free_unsed_slab_slot_def only_connects_def res_simps)
    have w: "\<not> is_runtime_free rt1 \<and> waiting frame_ok [] rt1"
      using client.spawned [OF E st ok] Inr only(2) by (auto simp: idle_def split: if_splits)
    then have "in_step [] rt1" using block_on_in_step [OF E lk(1,2) st p, of 0] Inr by (simp add: block_on_def)
    then show ?thesis using zero_loop [OF E lk _ _ only(1)] w Inr by (simp add: block_on_def)
  qed (simp add: block_on_def)
  with addr show ?thesis by blast
qed

end
