(* ===== verification/Repo_Tests.thy ===== *)
theory Repo_Tests
  imports Scenarios
begin

text \<open>
  The client bodies of the repository's own tests (\<open>src/src/lib.rs\<close>), run against scripted kernels
  that do what the tests' TCP peers make the kernel do. Descriptors are as the kernel hands them
  out; what the bodies write into buffers is not modelled, the lengths they commit are.
\<close>

subsection \<open>Scripted kernels\<close>

text \<open>Turn by turn: which entry in flight completes (by its position), with which result and flags.
  The loop counts the turns that are left.\<close>

definition script :: "(nat \<times> i32 \<times> u32) list \<Rightarrow> nat \<Rightarrow> u64 list \<Rightarrow> kernel_turn" where
  "script ts n K =
     (case rev ts ! n of (i, res, flags) \<Rightarrow>
        Completions [\<lparr>cqe_user_data = K ! i, cqe_result = res, cqe_flags = flags\<rparr>])"

subsection \<open>The bodies\<close>

definition test_runtime :: prog where
  "test_runtime = Done"

definition test_echo_double :: "i32 \<Rightarrow> prog" where
  "test_echo_double listen_fd =
     Accept_stream 0 listen_fd (Accept_next 0 (\<lambda>c. case c of
       None \<Rightarrow> Crash
     | Some conn_fd \<Rightarrow> Read_stream 1 conn_fd (Read_next 1 2 (\<lambda>r. case r of
         None \<Rightarrow> Crash
       | Some len \<Rightarrow>
           if 2 * unat len \<le> 4096 then Commit 2 (2 * len) (\<lambda>_. Done)
           else Crash))))"                                     \<comment> \<open>\<open>copy_within\<close> out of the slice\<close>

text \<open>\<open>stream_test\<close>: every received piece is answered with the text \<open>Total number of char recieve is: \<close>
  (33 characters) and the running total in decimal. The total is a \<open>u32\<close> and its addition is checked.
  The \<open>while let\<close> is unrolled to a depth; a body that went deeper would panic there.\<close>

fun digits :: "nat \<Rightarrow> nat" where
  "digits n = (if n < 10 then 1 else Suc (digits (n div 10)))"

declare digits.simps [simp del]

primrec answer_loop :: "nat \<Rightarrow> u32 \<Rightarrow> prog" where
  "answer_loop 0 counter = Crash"
| "answer_loop (Suc n) counter =
     Read_next 1 2 (\<lambda>r. case r of
       None \<Rightarrow> Done
     | Some len \<Rightarrow> (case add_ovf counter len of
         Inl e \<Rightarrow> Crash
       | Inr counter' \<Rightarrow> Commit 2 (of_nat (33 + digits (unat counter'))) (\<lambda>_. answer_loop n counter')))"

definition stream_test :: "nat \<Rightarrow> i32 \<Rightarrow> prog" where
  "stream_test depth fd =
     Accept_stream 0 fd (Accept_next 0 (\<lambda>c. case c of
       None \<Rightarrow> Crash
     | Some conn_fd \<Rightarrow> Read_stream 1 conn_fd (answer_loop depth 0)))"

definition handle_connexion :: "u32 \<Rightarrow> prog" where
  "handle_connexion conn_fd =
     Read conn_fd 0 (\<lambda>r. case r of
       Inl _ \<Rightarrow> Crash
     | Inr len \<Rightarrow> Commit 0 len (\<lambda>n. if 0 < sint n then Done else Crash))"

primrec test_two_connexion :: "i32 \<Rightarrow> nat \<Rightarrow> prog" where
  "test_two_connexion listen_fd 0 = Done"
| "test_two_connexion listen_fd (Suc n) =
     Accept listen_fd (\<lambda>c. case c of
       Inl _ \<Rightarrow> Crash
     | Inr conn_fd \<Rightarrow> Spawn [] (handle_connexion conn_fd) (test_two_connexion listen_fd n))"

definition test_close :: "i32 \<Rightarrow> prog" where
  "test_close listen_fd =
     Accept listen_fd (\<lambda>c. case c of
       Inl _ \<Rightarrow> Crash
     | Inr conn_fd \<Rightarrow> Spawn [] (handle_connexion conn_fd) Done)"

subsection \<open>The runs\<close>

lemmas eval_streams = poll_accept_next_def poll_read_next_def accept_poll_next_def read_poll_next_def
  accept_stream_def AcceptStream_new_def read_stream_def ReadStream_new_def send_accept_multishot_def send_recv_multishot_def set_multishot_def

lemmas eval_tests = eval_demo eval_streams script_def test_echo_double_def handle_connexion_def test_close_def
  demo_pool_def spawn_run_def release_read_buf_def release_buf_to_ring_def read_buf_addr_def rwbuffer_drop_def
  drop_local_def

lemma test_runtime_run:
  "\<exists>rt. block_on demo_env (frame_poll demo_env) frame_drop kern n (async_block test_runtime) demo_rt = Finished rt"
  by (simp add: eval_demo test_runtime_def)

lemma test_close_run:
  "block_on demo_env (frame_poll demo_env) frame_drop (script [(0, 1, 0), (0, 4, 1), (0, 4, 0)]) (Suc (Suc (Suc 0)))
     (async_block (test_close 3)) demo_rt = Faulted (Panic Newer_cqe)"
  by (simp add: eval_tests)

lemma test_echo_double_run:
  "block_on demo_env (frame_poll demo_env) frame_drop
     (script [(0, 1, 2), (Suc 0, 4, 3), (Suc (Suc 0), 8, 0), (Suc 0, 0, 0)]) (Suc (Suc (Suc (Suc 0))))
     (async_block (test_echo_double 3)) demo_rt = Faulted (Panic Resumed_after_completion)"
  by (simp add: eval_tests)

lemma test_echo_double_served:
  "\<exists>K rt. block_on demo_env (frame_poll demo_env) frame_drop
     (script [(0, 1, 2), (Suc 0, 4, 3), (Suc (Suc 0), 8, 0)]) (Suc (Suc (Suc 0)))
     (async_block (test_echo_double 3)) demo_rt = Running K rt \<and> length K = 2 \<and> rt_pending rt = [] \<and>
     (\<exists>t. rt_heap rt 0x1000 = Some t \<and> fr_state (task_fut t) = Stopped \<and> ref_counter t = 2)"
  by (simp add: eval_tests)

lemma stream_test_run:
  "block_on demo_env (frame_poll demo_env) frame_drop
     (script [(0, 1, 2), (Suc 0, 5, 3), (Suc (Suc 0), 34, 0)]) (Suc (Suc (Suc 0)))
     (async_block (stream_test (Suc (Suc depth)) 3)) demo_rt = Faulted (Panic Missing_buf_id)"
  by (simp add: eval_tests stream_test_def digits.simps)

lemma stream_test_end_run:
  "block_on demo_env (frame_poll demo_env) frame_drop
     (script [(0, 1, 2), (Suc 0, 0, 0)]) (Suc (Suc 0))
     (async_block (stream_test (Suc depth) 3)) demo_rt = Faulted (Panic Missing_buf_id)"
  by (simp add: eval_tests stream_test_def)

lemma test_two_connexion_run:
  "block_on demo_env (frame_poll demo_env) frame_drop (script [(0, 1, 0), (0, 4, 1), (Suc 0, 4, 0)]) (Suc (Suc (Suc 0)))
     (async_block (test_two_connexion 3 (Suc (Suc 0)))) demo_rt = Faulted (Panic Newer_cqe)"
  by (simp add: eval_tests)

end
