(* ===== verification/Read_Ownership.thy ===== *)
theory Read_Ownership
  imports Resources
begin

text \<open>
  Who holds the read buffers. A read buffer is in the ring for the kernel to take, or with a body (in
  a local, or in the commit future it awaits), or lost. The kernel takes buffers from the head of the
  ring in order. For bodies that do not use read streams, no buffer is ever in two of these places or
  twice in one, so the ring never overruns and every index is one of the pool. Read streams break
  this, see \<open>Stream_Reuse\<close>.
\<close>

subsection \<open>Handles and the ring\<close>

definition read_local :: "local_value \<Rightarrow> u32 multiset" where
  "read_local l = (case l of L_rw b \<Rightarrow> {#rw_buf_idx b#} | _ \<Rightarrow> {#})"

definition commit_handle :: "CommitFuture \<Rightarrow> u32 multiset" where
  "commit_handle f = (case f of CF_Init ptr i fd len \<Rightarrow> {#i#} | CF_Pending i \<Rightarrow> {#i#})"

text \<open>The buffer inside a commit is marked, and its index is the future's to release.\<close>

definition read_committed :: "rw_buffer \<Rightarrow> u32 multiset" where
  "read_committed b = (if rw_committed b then {#} else {#rw_buf_idx b#})"

definition read_awaiting :: "awaiting \<Rightarrow> u32 multiset" where
  "read_awaiting a = (case a of Aw_commit b f k \<Rightarrow> commit_handle f + read_committed b | _ \<Rightarrow> {#})"

definition read_held :: "rt \<Rightarrow> u32 multiset" where
  "read_held rt = held read_local read_awaiting {} rt"

text \<open>The buffer that a completion carries, and those of a batch.\<close>

definition read_token :: "'f env \<Rightarrow> u32 \<Rightarrow> u32 multiset" where
  "read_token E fl = (case env_buffer_select E fl of None \<Rightarrow> {#} | Some b \<Rightarrow> {#ucast b#})"

primrec taken :: "'f env \<Rightarrow> cqe list \<Rightarrow> u32 list" where
  "taken E [] = []"
| "taken E (e # es) =
     (case env_buffer_select E (cqe_flags e) of None \<Rightarrow> [] | Some b \<Rightarrow> [ucast b]) @ taken E es"

text \<open>The ids between the kernel's head and the tail, and all ids of the pool.\<close>

definition ring_ids :: "u16 \<Rightarrow> 'f runtime \<Rightarrow> u32 list" where
  "ring_ids h rt =
     map (\<lambda>(a, l, b). ucast b) (ring_queue (unat (read_count (rt_buffer rt))) h (rt_buf_ring rt))"

definition pool_ids :: "buf_pool \<Rightarrow> u32 multiset" where
  "pool_ids pool = mset (map of_nat [0..<unat (read_count pool)])"

definition reads_kept :: "u16 \<Rightarrow> u32 multiset \<Rightarrow> rt \<Rightarrow> bool" where
  "reads_kept h H rt \<longleftrightarrow>
     ring_wf (unat (read_count (rt_buffer rt))) (rt_buf_ring rt) \<and>
     list_all (\<lambda>e. e = released_entry (ucast (snd (snd e))) (rt_buffer rt))
       (ring_queue (unat (read_count (rt_buffer rt))) h (rt_buf_ring rt)) \<and>
     mset (ring_ids h rt) + H \<subseteq># pool_ids (rt_buffer rt)"

text \<open>A batch takes its buffers from the head of the ring, in order.\<close>

definition fifo_batch :: "'f env \<Rightarrow> u16 \<Rightarrow> cqe list \<Rightarrow> 'f runtime \<Rightarrow> bool" where
  "fifo_batch E h cs rt \<longleftrightarrow> take (length (taken E cs)) (ring_ids h rt) = taken E cs"

definition advance_head :: "'f env \<Rightarrow> u16 \<Rightarrow> cqe list \<Rightarrow> u16" where
  "advance_head E h cs = h + of_nat (length (taken E cs))"

text \<open>The head after a run of \<open>block_on\<close>: every buffer of every batch has been taken.\<close>

definition kernel_head :: "frame env \<Rightarrow> (nat \<Rightarrow> u64 list \<Rightarrow> kernel_turn) \<Rightarrow> nat \<Rightarrow> u16 \<Rightarrow> frame \<Rightarrow> rt \<Rightarrow> u16" where
  "kernel_head E kern n h fut rt = foldl (advance_head E) h (batches_along E kern n fut rt)"

definition index_fault :: "fault \<Rightarrow> bool" where
  "index_fault e \<longleftrightarrow> e = Panic Read_index"

lemma index_fault_simps [simp]: "index_fault (Panic p) \<longleftrightarrow> p = Read_index" "\<not> index_fault (Ub u)"
  by (simp_all add: index_fault_def)

lemma index_pool_fault: "index_fault e \<Longrightarrow> pool_fault e"
  by (simp add: index_fault_def pool_fault_def)

lemma read_local_simps [simp]:
  "read_local (L_w w) = {#}" "read_local (L_rw b) = {#rw_buf_idx b#}" "read_local (L_accept sa) = {#}"
  "read_local (L_read sr) = {#}"
  by (simp_all add: read_local_def)

subsection \<open>The operations of the ring\<close>

lemma reads_less: "reads_kept h (H + H') rt \<Longrightarrow> reads_kept h H' rt"
proof -
  assume k: "reads_kept h (H + H') rt"
  have "mset (ring_ids h rt) + H' \<subseteq># mset (ring_ids h rt) + (H + H')" by simp
  with k show ?thesis unfolding reads_kept_def by (meson subset_mset.order_trans)
qed

text \<open>Only the read part of the pool and the ring matter.\<close>

lemma reads_cong:
  assumes "pool_base (rt_buffer rt') = pool_base (rt_buffer rt)" "read_count (rt_buffer rt') = read_count (rt_buffer rt)"
    "rt_buf_ring rt' = rt_buf_ring rt"
  shows "reads_kept h H rt' \<longleftrightarrow> reads_kept h H rt"
  using assms by (simp add: reads_kept_def ring_ids_def pool_ids_def released_entry_def buf_addr_def)

lemma pool_ids_mem: "i \<in># pool_ids pool \<Longrightarrow> i < read_count pool"
proof -
  assume "i \<in># pool_ids pool"
  then obtain x where x: "i = of_nat x" "x < unat (read_count pool)" by (auto simp: pool_ids_def)
  then have "x < 2 ^ 32" using unsigned_less [of "read_count pool", where ?'a = nat] by simp
  then show ?thesis using x by (simp add: word_less_nat_alt unat_of_nat take_bit_nat_eq_self)
qed

lemma reads_mem:
  assumes "reads_kept h (add_mset i H) rt"
  shows "i < read_count (rt_buffer rt)"
proof (rule pool_ids_mem)
  have "add_mset i (mset (ring_ids h rt) + H) \<subseteq># pool_ids (rt_buffer rt)" using assms by (simp add: reads_kept_def)
  then show "i \<in># pool_ids (rt_buffer rt)" by (meson mset_subset_eq_insertD)
qed

lemma length_ring_ids: "length (ring_ids h rt) = ring_avail h (rt_buf_ring rt)"
  by (simp add: ring_ids_def length_ring_queue)

lemma reads_room:
  assumes "reads_kept h (add_mset i H) rt"
  shows "ring_avail h (rt_buf_ring rt) < unat (read_count (rt_buffer rt))"
proof -
  have "size (mset (ring_ids h rt) + add_mset i H) \<le> size (pool_ids (rt_buffer rt))"
    using assms by (intro size_mset_mono) (simp add: reads_kept_def)
  then show ?thesis by (simp add: pool_ids_def length_ring_ids)
qed

text \<open>An entry holds 16 bits of the id, which are enough.\<close>

lemma id_through_u16: "unat i < 65536 \<Longrightarrow> ucast (ucast i :: u16) = i" for i :: u32
  by (simp add: word_unat_eq_iff unsigned_ucast_eq unsigned_take_bit_eq take_bit_nat_eq_self)

lemma reads_release:
  assumes k: "reads_kept h (add_mset i H) rt"
  shows "meets index_fault (reads_kept h H) (release_read_buf i rt)"
proof -
  let ?pool = "rt_buffer rt" and ?n = "unat (read_count (rt_buffer rt))"
  have wf: "ring_wf ?n (rt_buf_ring rt)" using k by (simp add: reads_kept_def)
  note i = reads_mem [OF k]
  from release_queue [OF wf refl i reads_room [OF k]] obtain m' where
    m': "release_buf_to_ring i ?pool (rt_buf_ring rt) = Inr m'" "ring_wf ?n m'"
      "ring_queue ?n h m' = ring_queue ?n h (rt_buf_ring rt) @ [released_entry i ?pool]" by blast
  have "unat i < 32768" using i ring_wf_bounds(2) [OF wf] by (simp add: word_less_nat_alt)
  then have id: "ucast (ucast i :: u16) = i" by (simp add: id_through_u16)
  have "ring_ids h (rt\<lparr>rt_buf_ring := m'\<rparr>) = ring_ids h rt @ [i]"
    using m'(3) id by (simp add: ring_ids_def released_entry_def)
  then have "reads_kept h H (rt\<lparr>rt_buf_ring := m'\<rparr>)"
    using k m' id by (simp add: reads_kept_def released_entry_def)
  then show ?thesis using m'(1) by (simp add: release_read_buf_def)
qed

lemma reads_rw:
  assumes "reads_kept h (add_mset (rw_buf_idx b) H) rt"
  shows "meets index_fault (reads_kept h H) (rwbuffer_drop b rt)"
  using reads_release [OF assms] reads_less [of h "{#rw_buf_idx b#}"] assms by (simp add: rwbuffer_drop_def)

text \<open>What the kernel takes.\<close>

lemma consume_many:
  assumes "ring_wf n m" "k \<le> ring_avail h m"
  shows "ring_queue n (h + of_nat k) m = drop k (ring_queue n h m)"
  using assms(2)
proof (induction k)
  case (Suc k)
  have "ring_avail (h + of_nat k) m = ring_avail h m - k"
    using Suc.IH Suc.prems length_ring_queue [of n "h + of_nat k" m] length_ring_queue [of n h m] by simp
  then have "0 < ring_avail (h + of_nat k) m" using Suc.prems by simp
  from consume_queue(1) [OF assms(1) this] Suc.IH Suc.prems
  have "drop k (ring_queue n h m) = ring_entry (unat (h + of_nat k) mod n) m # ring_queue n (h + of_nat k + 1) m" by simp
  then have "ring_queue n (h + of_nat k + 1) m = drop (Suc k) (ring_queue n h m)"
    by (metis drop_Suc list.sel(3) tl_drop)
  then show ?case by (simp add: add_ac)
qed simp

lemma taken_tokens: "(\<Sum>e \<leftarrow> cs. read_token E (cqe_flags e)) = mset (taken E cs)"
  by (induction cs) (auto simp: read_token_def split: option.split)

lemma reads_take:
  assumes lg: "fifo_batch E h cs rt" and k: "reads_kept h H rt"
  shows "reads_kept (advance_head E h cs) (mset (taken E cs) + H) rt"
proof -
  let ?n = "unat (read_count (rt_buffer rt))" and ?k = "length (taken E cs)"
  let ?q = "ring_queue ?n h (rt_buf_ring rt)"
  have wf: "ring_wf ?n (rt_buf_ring rt)" using k by (simp add: reads_kept_def)
  have le: "?k \<le> ring_avail h (rt_buf_ring rt)"
  proof -
    have "length (take ?k (ring_ids h rt)) = ?k" using lg by (simp add: fifo_batch_def)
    then show ?thesis by (simp add: length_ring_ids)
  qed
  have q: "ring_queue ?n (advance_head E h cs) (rt_buf_ring rt) = drop ?k ?q"
    unfolding advance_head_def by (rule consume_many [OF wf le])
  then have "ring_ids h rt = taken E cs @ ring_ids (advance_head E h cs) rt"
    using lg unfolding fifo_batch_def ring_ids_def by (metis append_take_drop_id drop_map)
  then have "mset (ring_ids h rt) = mset (taken E cs) + mset (ring_ids (advance_head E h cs) rt)" by simp
  moreover have "list_all P (drop ?k ?q)" if "list_all P ?q" for P
    using that by (auto simp: list_all_iff dest: in_set_dropD)
  ultimately show ?thesis using k q by (simp add: reads_kept_def add_ac)
qed

lemma reads_token_less: "reads_kept h (read_token E fl + H) rt \<Longrightarrow> reads_kept h H rt"
  by (rule reads_less)

subsection \<open>The futures\<close>

lemma reads_still: "reads_kept h H rt \<Longrightarrow> still rt sel m \<Longrightarrow> meets index_fault (\<lambda>x. reads_kept h H (sel x)) m"
  by (cases m) (auto simp: untouched_def dest: index_pool_fault simp: reads_cong [of "sel x" rt for x])

lemma reads_commit:
  assumes "reads_kept h (commit_handle f + H) rt"
  shows "meets index_fault (\<lambda>(f', p, rt). reads_kept h ((case p of Poll_Pending \<Rightarrow> commit_handle f' | Poll_Ready _ \<Rightarrow> {#}) + H) rt)
    (commit_poll f rt)"
proof (cases f)
  case (CF_Init ptr i fd len)
  then have k: "reads_kept h (add_mset i H) rt" using assms by (simp add: commit_handle_def)
  show ?thesis unfolding CF_Init commit_poll_def CommitFuture.case submits
    by (rule meets_and_then [OF reads_still [OF k still_sends(6)]]) (simp add: commit_handle_def)
next
  case (CF_Pending i)
  then have k: "reads_kept h (add_mset i H) rt" using assms by (simp add: commit_handle_def)
  show ?thesis unfolding CF_Pending commit_poll_def CommitFuture.case
    by (rule meets_and_then [OF reads_release [OF k]]) simp
qed

lemma reads_read:
  assumes k: "reads_kept h (read_token E (current_cqe_flags rt) + H) rt"
  shows "meets index_fault (\<lambda>(f, p, rt). reads_kept h ((case p of Poll_Ready (Inr b) \<Rightarrow> {#rw_buf_idx b#} | _ \<Rightarrow> {#}) + H) rt)
    (read_poll E f rt)"
proof (cases f)
  case (RF_Init fd)
  show ?thesis unfolding RF_Init read_poll_def ReadFuture.case submits
    by (rule meets_and_then [OF reads_still [OF reads_token_less [OF k] still_sends(1)]]) simp
next
  case (RF_Pending fd)
  show ?thesis
  proof (cases "env_buffer_select E (current_cqe_flags rt)")
    case None
    then show ?thesis using reads_token_less [OF k] RF_Pending
      by (simp add: read_poll_def Let_def expect_def)
  next
    case (Some b)
    then have k': "reads_kept h (add_mset (ucast b) H) rt" using k by (simp add: read_token_def)
    note i = reads_mem [OF k']
    show ?thesis using Some k' i RF_Pending
      by (auto simp: read_poll_def Let_def expect_def checkout_read_def assert_or_def intro!: meets_and_then [OF reads_release [OF k']])
  qed
qed

text \<open>The write side leaves the read buffers alone.\<close>

lemma reads_on_pool:
  assumes k: "reads_kept h H rt"
    and "\<And>e. r = Inl e \<Longrightarrow> e \<noteq> Panic Read_index"
    and "\<And>x. r = Inr x \<Longrightarrow> pool_base (pl x) = pool_base (rt_buffer rt) \<and> read_count (pl x) = read_count (rt_buffer rt)"
  shows "meets index_fault (\<lambda>x. reads_kept h H (rt\<lparr>rt_buffer := pl x\<rparr>)) r"
  using assms reads_cong [of "rt\<lparr>rt_buffer := pl x\<rparr>" rt for x] by (cases r) (auto simp: index_fault_def)

lemma write_side:
  "alloc_write N pool = Inl e \<Longrightarrow> e \<noteq> Panic Read_index" "wbuffer_clone w pool = Inl e \<Longrightarrow> e \<noteq> Panic Read_index"
  "wbuffer_drop w pool = Inl e \<Longrightarrow> e \<noteq> Panic Read_index"
  "alloc_write N pool = Inr (v, pool') \<Longrightarrow> pool_base pool' = pool_base pool \<and> read_count pool' = read_count pool"
  "wbuffer_clone w pool = Inr (v', pool') \<Longrightarrow> pool_base pool' = pool_base pool \<and> read_count pool' = read_count pool"
  "wbuffer_drop w pool = Inr pool' \<Longrightarrow> pool_base pool' = pool_base pool \<and> read_count pool' = read_count pool"
  by (auto simp: alloc_write_def wbuffer_clone_def wbuffer_drop_def Let_def res_simps write_rc_at_def assert_or_def
      add_ovf_def sub_ovf_def split: if_splits list.splits option.splits)

lemma reads_alloc: "reads_kept h H rt \<Longrightarrow> meets index_fault (\<lambda>(w, rt). reads_kept h H rt) (alloc_write_buffer rt)"
  unfolding alloc_write_buffer_def
  by (rule meets_and_then [OF reads_on_pool [where pl = snd]]) (auto dest: write_side)

lemma reads_clone: "reads_kept h H rt \<Longrightarrow> meets index_fault (reads_kept h H) (clone_wbuffer w rt)"
  unfolding clone_wbuffer_def on_pool_def and_then_assoc
  by (rule meets_and_then [OF reads_on_pool [where pl = snd]]) (auto dest: write_side)

lemma reads_drop: "reads_kept h H rt \<Longrightarrow> meets index_fault (reads_kept h H) (drop_wbuffer w rt)"
  unfolding drop_wbuffer_def on_pool_def
  by (rule meets_and_then [OF reads_on_pool [where pl = id]]) (auto dest: write_side)

lemma reads_push: "reads_kept h H (sqe_queue_push e rt) \<longleftrightarrow> reads_kept h H rt"
  by (rule reads_cong) (simp_all add: sqe_queue_push_def)

lemma reads_send_writes:
  "reads_kept h H rt \<Longrightarrow> meets index_fault (reads_kept h H) (send_writes ud w len k fds rt)"
proof (induction fds arbitrary: k rt)
  case (Cons fd fds)
  show ?case unfolding send_writes.simps wbuffer_write_def and_then_assoc
    by (rule meets_and_then [OF reads_clone [OF Cons.prems]], rule meets_and_then [OF reads_drop], assumption)
      (auto intro!: Cons.IH simp: reads_push)
qed simp

lemma reads_fan_out:
  assumes "reads_kept h H rt"
  shows "meets index_fault (\<lambda>(_, _, rt). reads_kept h H rt) (write_multiple_poll f rt)"
proof (cases f)
  case (WM_Init fds b len)
  have send: "meets index_fault (reads_kept h H) (send_multiple_write fds b len rt1)" if "reads_kept h H rt1" for rt1
    unfolding send_multiple_write_def Let_def
    by (rule meets_and_then [OF reads_send_writes [OF that]])
      (rule meets_and_then [OF reads_still [OF _ still_headers(2)]], assumption, rule reads_drop, simp)
  show ?thesis unfolding write_multiple_poll_def WM_Init WriteMultipleFuture.case submits
    by (rule meets_and_then [OF reads_clone [OF assms]], rule meets_and_then [OF send]) simp_all
next
  case (WM_Pending s)
  let ?r = "write_multiple_poll (WM_Pending s) rt"
  have adv: "pool_safe (advance_syscall_nb t rt)" "advance_syscall_nb t rt = Inr rt' \<Longrightarrow>
      rt_buffer rt' = rt_buffer rt \<and> rt_buf_ring rt' = rt_buf_ring rt" for t rt'
    by (auto simp: advance_syscall_nb_def intro!: pool_safe_with_task dest: with_task_alone)
  have "pool_safe ?r"
    by (auto simp: write_multiple_poll_def Let_def intro!: pool_safe_and_then adv(1))
  moreover have "reads_kept h H rt'" if "?r = Inr (f', q, rt')" for f' q rt'
  proof (rule reads_cong [THEN iffD2])
    show "pool_base (rt_buffer rt') = pool_base (rt_buffer rt)" "read_count (rt_buffer rt') = read_count (rt_buffer rt)"
      "rt_buf_ring rt' = rt_buf_ring rt"
      using that by (auto simp: write_multiple_poll_def Let_def res_simps split: if_splits dest!: adv(2))
  qed (rule assms)
  ultimately show ?thesis using WM_Pending by (cases ?r) (auto dest: index_pool_fault)
qed (simp add: write_multiple_poll_def)

lemma reads_committed: "reads_kept h (read_committed b + H) rt \<Longrightarrow> meets index_fault (reads_kept h H) (rwbuffer_drop b rt)"
  by (cases "rw_committed b") (auto simp: read_committed_def rwbuffer_drop_def intro: reads_release)

lemma reads_drop_awaiting:
  assumes k: "reads_kept h (read_awaiting a + H) rt"
  shows "meets index_fault (reads_kept h H) (drop_awaiting a rt)"
proof (cases a)
  case (Aw_commit b f kc)
  then have "reads_kept h (commit_handle f + (read_committed b + H)) rt" using k by (simp add: read_awaiting_def add_ac)
  from reads_committed [OF reads_less [OF this]] Aw_commit show ?thesis by (simp add: drop_awaiting_def)
next
  case (Aw_write_multiple f km)
  then show ?thesis using k reads_drop
    by (cases f) (auto simp: drop_awaiting_def write_multiple_drop_def read_awaiting_def)
qed (use k in \<open>simp_all add: drop_awaiting_def read_awaiting_def\<close>)

subsection \<open>The contract holds\<close>

interpretation read_bufs: resource E index_fault reads_kept read_local read_awaiting read_committed "read_token E" False
    "fifo_batch E" "advance_head E"
  for E
proof (unfold_locales, goal_cases)
  case (2 rt' rt c H)
  then show ?case using reads_cong [of rt' rt] by simp
next
  case (20 c b fc kc G rt)
  have "reads_kept c (commit_handle fc + (read_committed b + G)) rt" using 20 by (simp add: read_awaiting_def add_ac)
  from reads_commit [OF this] show ?case
    by (auto simp: read_awaiting_def add_ac split: poll_result.splits elim!: meets_mono)
next
  case (22 c a G rt)
  then show ?case by (rule reads_drop_awaiting)
next
  case (23 c rt G fr)
  then show ?case unfolding read_local_simps by (rule reads_read)
next
  case (25 c cs rt H)
  then show ?case using reads_take by (simp add: taken_tokens)
qed (auto simp: index_pool_fault reads_rw reads_token_less reads_drop reads_alloc reads_clone reads_committed
    read_awaiting_def write_multiple_def rwbuffer_commit_def make_commit_future_def commit_handle_def read_committed_def
    reads_fan_out)

lemma read_bufs_run:
  assumes "env_ok E" "legal_kernel E kern" "idle frame_ok rt" "frame_ok (async_block p)" "streamless p"
    and "reads_kept h {#} rt" "run_legal (fifo_batch E) (advance_head E) E kern n h (async_block p) rt"
  shows "read_bufs.accounted E h (batches_along E kern n (async_block p) rt)
    (block_on E (frame_poll E) frame_drop kern n (async_block p) rt)"
  by (rule read_bufs.own_block_on [OF assms(1-4) _ assms(6,7)]) (use assms(5) in simp)

lemma read_bufs_owned: "read_bufs.owned c {} {#} rt \<Longrightarrow> reads_kept c (read_held rt) rt"
  by (simp add: read_bufs.owned_def read_held_def)

text \<open>The ring of a new runtime has every buffer of the pool once.\<close>

lemma new_ring_id:
  assumes "unat (read_count pool) \<le> 32768" "k < unat (read_count pool)"
  shows "ucast (ucast (of_nat k :: u32) :: u16) = (of_nat k :: u32)"
  using assms by (intro id_through_u16) (simp add: unat_of_nat take_bit_nat_eq_self)

lemma new_ring:
  assumes "rt_buf_ring rt = buf_ring_new 1 (rt_buffer rt)" "\<exists>e \<le> 15. unat (read_count (rt_buffer rt)) = 2 ^ e"
  shows "ring_ids 0 rt = map of_nat [0..<unat (read_count (rt_buffer rt))]" and "reads_kept 0 {#} rt"
proof -
  note wf = buf_ring_new_spec(1) [OF refl assms(2)]
  note id = new_ring_id [OF ring_wf_bounds(2) [OF wf]]
  note q = buf_ring_new_queue(1) [OF refl assms(2)]
  show ids: "ring_ids 0 rt = map of_nat [0..<unat (read_count (rt_buffer rt))]"
    unfolding ring_ids_def assms(1) q using id by (simp add: released_entry_def del: One_nat_def)
  show "reads_kept 0 {#} rt"
    unfolding reads_kept_def ids unfolding assms(1) q
    using wf id by (auto simp: list_all_iff released_entry_def pool_ids_def simp del: One_nat_def)
qed

end
