(* ===== verification/Stream_Reuse.thy ===== *)
theory Stream_Reuse
  imports Repo_Tests Read_Ownership
begin

text \<open>
  Runs on a ring with buffers in it. A single read gives its buffer back to the ring. A running stream,
  however, takes every poll for a new completion: a second \<open>next().await\<close> in the same poll of the task
  yields the same item again, and a commit takes any completion that polls its task for its own. Loops over
  a stream then do not suspend, a buffer is handed out and released twice, or is back in the ring while it is
  still being written from.
\<close>

subsection \<open>A ring with two buffers\<close>

definition demo_ring :: ring_mem where
  "demo_ring = buf_ring_new 1 demo_pool"

definition ring_rt :: rt where
  "ring_rt = demo_rt\<lparr>rt_buf_ring := demo_ring\<rparr>"

lemma ring_rt_idle: "idle ok ring_rt"
proof -
  have "rt_free_list demo_rt = []" by (simp add: demo_rt_def)
  then show ?thesis
    using demo_rt_idle [of ok] by (simp add: ring_rt_def idle_def rt_inv_def acct_def tokens_def live_def)
qed

lemma demo_read_count: "read_count demo_pool = 2" "unat (read_count demo_pool) = 2" "\<exists>e \<le> 15. unat (read_count demo_pool) = 2 ^ e"
  by (simp_all add: demo_pool_def exI [of _ 1])

lemma two_pow: "\<exists>e \<le> 15. (2::nat) = 2 ^ e"
  by (rule exI [of _ 1]) simp

lemma ring_rt_new: "rt_buf_ring ring_rt = buf_ring_new 1 (rt_buffer ring_rt)" "rt_buffer ring_rt = demo_pool"
  by (simp_all add: ring_rt_def demo_rt_def demo_ring_def)

lemmas ring_rt_kept = new_ring(2) [OF ring_rt_new(1), unfolded ring_rt_new(2), OF demo_read_count(3)]

text \<open>The ring at the start, and after one and two releases of buffer 0.\<close>

lemma demo_ring_start:
  "ring_wf 2 demo_ring" "ring_tail demo_ring = 2" "ring_entry 0 demo_ring = released_entry 0 demo_pool"
  "ring_entry (Suc 0) demo_ring = released_entry 1 demo_pool"
  unfolding demo_ring_def
  using buf_ring_new_spec(1,2) [OF demo_read_count(2) [symmetric] two_pow]
    buf_ring_new_spec(3) [OF demo_read_count(2) [symmetric] two_pow, of 0]
    buf_ring_new_spec(3) [OF demo_read_count(2) [symmetric] two_pow, of "Suc 0"]
  by simp_all

lemma release_zero:
  "ring_wf 2 m \<Longrightarrow> \<exists>m'. release_buf_to_ring 0 demo_pool m = Inr m' \<and> ring_wf 2 m' \<and> ring_tail m' = ring_tail m + 1
    \<and> (\<forall>k < 2. ring_entry k m' = (if k = unat (ring_tail m) mod 2 then released_entry 0 demo_pool else ring_entry k m))"
  by (rule release_spec [OF _ demo_read_count(2) [symmetric]]) (simp_all add: demo_read_count(1))

lemma released_once:
  "\<exists>m. release_buf_to_ring 0 demo_pool demo_ring = Inr m \<and> ring_wf 2 m \<and> ring_tail m = 3 \<and>
     ring_entry 0 m = released_entry 0 demo_pool \<and> ring_entry (Suc 0) m = released_entry 1 demo_pool"
  using release_zero [OF demo_ring_start(1)] demo_ring_start(2-4) by auto

lemma released_twice:
  "\<exists>m m'. release_buf_to_ring 0 demo_pool demo_ring = Inr m \<and> release_buf_to_ring 0 demo_pool m = Inr m' \<and>
     ring_tail m' = 4 \<and> ring_entry 0 m' = released_entry 0 demo_pool \<and> ring_entry (Suc 0) m' = released_entry 0 demo_pool"
proof -
  obtain m where m: "release_buf_to_ring 0 demo_pool demo_ring = Inr m" "ring_wf 2 m" "ring_tail m = 3"
     "ring_entry 0 m = released_entry 0 demo_pool" using released_once by blast
  from release_zero [OF m(2)] m show ?thesis by auto
qed

lemmas eval_ring = eval_demo eval_streams ring_rt_def drop_local_def rwbuffer_drop_def release_read_buf_def
  demo_read_count(1,2)

lemma small_upt: "[0..<2] = [0, Suc 0]" "[0..<3] = [0, Suc 0, Suc (Suc 0)]"
  by (simp_all add: upt_rec)

lemmas eval_ids = ring_ids_def ring_queue_def ring_avail_def released_entry_def small_upt

subsection \<open>One read\<close>

definition read_once :: prog where
  "read_once = Read 3 0 (\<lambda>_. Done)"

lemma read_once_run:
  "\<exists>rt. block_on demo_env (frame_poll demo_env) frame_drop (oldest_first 5 1) (Suc (Suc 0))
     (async_block read_once) ring_rt = Finished rt"
  using released_once by (auto simp: eval_ring read_once_def)

lemma read_once_legal:
  "run_legal (fifo_batch demo_env) (advance_head demo_env) demo_env (oldest_first 5 1) (Suc (Suc 0)) 0
     (async_block read_once) ring_rt"
proof -
  obtain m where "release_buf_to_ring 0 demo_pool demo_ring = Inr m" using released_once by blast
  then show ?thesis using demo_ring_start
    by (simp add: run_legal_def fifo_batch_def eval_ids read_once_def eval_ring)
qed

lemma read_once_head:
  "kernel_head demo_env (oldest_first 5 1) (Suc (Suc 0)) 0 (async_block read_once) ring_rt = 1"
proof -
  obtain m where "release_buf_to_ring 0 demo_pool demo_ring = Inr m" using released_once by blast
  then show ?thesis
    by (simp add: kernel_head_def batches_along_def advance_head_def read_once_def eval_ring)
qed

text \<open>A body that reads and then accepts, with the buffer in a local.\<close>

definition read_hold :: prog where
  "read_hold = Read 3 0 (\<lambda>_. Accept 4 (\<lambda>_. Done))"

lemma read_hold_run:
  "\<exists>K rt t b. block_on demo_env (frame_poll demo_env) frame_drop (oldest_first 5 1) (Suc 0)
     (async_block read_hold) ring_rt = Running K rt \<and> rt_heap rt 0x1000 = Some t \<and> fr_locals (task_fut t) = [(0, L_rw b)]"
  by (simp add: eval_ring read_hold_def)

lemma read_hold_legal:
  "run_legal (fifo_batch demo_env) (advance_head demo_env) demo_env (oldest_first 5 1) (Suc 0) 0
     (async_block read_hold) ring_rt"
  using demo_ring_start by (simp add: run_legal_def fifo_batch_def eval_ids read_hold_def eval_ring)

lemma read_hold_head:
  "kernel_head demo_env (oldest_first 5 1) (Suc 0) 0 (async_block read_hold) ring_rt = 1"
  by (simp add: kernel_head_def batches_along_def advance_head_def read_hold_def eval_ring)

subsection \<open>A loop over a stream\<close>

text \<open>\<open>while let Some(_) = conns.next().await {}\<close>, which panics if it is entered more than \<open>n\<close> times.\<close>

primrec accept_loop :: "nat \<Rightarrow> prog" where
  "accept_loop 0 = Crash"
| "accept_loop (Suc n) = Accept_next 0 (\<lambda>c. case c of None \<Rightarrow> Done | Some conn_fd \<Rightarrow> accept_loop n)"

lemma run_accept_loop:
  assumes "as_state s = SS_Running" "\<not> neg (current_result rt)" "env_more E (current_cqe_flags rt)"
  shows "run E (accept_loop n) [(0, L_accept s)] rt = Inl (Panic Client_panic)"
  using assms
  by (induction n) (simp_all add: poll_accept_next_def accept_poll_next_def remove_local_def Let_def)

lemma accept_loop_run:
  "block_on demo_env (frame_poll demo_env) frame_drop (oldest_first 7 2) (Suc 0)
     (async_block (Accept_stream 0 3 (accept_loop (Suc n)))) demo_rt = Faulted (Panic Client_panic)"
  by (simp add: eval_demo eval_streams run_accept_loop)

subsection \<open>A buffer handed out twice\<close>

definition read_pair :: prog where
  "read_pair = Read_stream 0 3 (Read_next 0 1 (\<lambda>_. Read_next 0 2 (\<lambda>_. Done)))"

lemma read_pair_run:
  "\<exists>K rt. block_on demo_env (frame_poll demo_env) frame_drop (oldest_first 5 3) (Suc 0)
     (async_block read_pair) ring_rt = Running K rt \<and> ring_ids 1 rt = [0, 0, 0]"
proof -
  obtain m m' where "release_buf_to_ring 0 demo_pool demo_ring = Inr m"
    "release_buf_to_ring 0 demo_pool m = Inr m'" "ring_tail m' = 4"
    "ring_entry 0 m' = released_entry 0 demo_pool" "ring_entry (Suc 0) m' = released_entry 0 demo_pool"
    using released_twice by blast
  then show ?thesis by (simp add: eval_ring eval_ids read_pair_def)
qed

subsection \<open>A commit ended by another completion\<close>

definition commit_then_wait :: prog where
  "commit_then_wait = Read_stream 0 3 (Read_next 0 1 (\<lambda>_. Commit 1 5 (\<lambda>n. if n = 6 then Forever else Crash)))"

lemma commit_then_wait_run:
  "\<exists>K rt. block_on demo_env (frame_poll demo_env) frame_drop (script [(0, 5, 3), (0, 6, 0x10003)]) (Suc (Suc 0))
     (async_block commit_then_wait) ring_rt = Running K rt \<and> length K = 2 \<and> ring_ids 2 rt = [0]"
proof -
  obtain m where "release_buf_to_ring 0 demo_pool demo_ring = Inr m" "ring_tail m = 3"
     "ring_entry 0 m = released_entry 0 demo_pool" using released_once by blast
  then show ?thesis by (simp add: eval_ring eval_ids commit_then_wait_def script_def)
qed

end
