(* ===== verification/Ownership.thy ===== *)
theory Ownership
  imports Resources
begin

text \<open>
  Who holds the write buffers. Every handle of a write slot is owned by the frame of a live body (in
  a local, or in the fan-out future it awaits) or by the body that is being polled. The reference
  counts of the pool are exactly the numbers of these handles, through clones, fan-outs, moves into
  spawned children, the end of bodies and the freeing of tasks, so no slot is lost, freed twice or
  handed out while it is held.
\<close>

subsection \<open>Handles\<close>

definition write_local :: "local_value \<Rightarrow> u32 multiset" where
  "write_local l = (case l of L_w w \<Rightarrow> {#w_abs_idx w#} | _ \<Rightarrow> {#})"

definition wm_handle :: "WriteMultipleFuture \<Rightarrow> u32 multiset" where
  "wm_handle f =
     (case f of
        WM_Init fds b len \<Rightarrow> {#w_abs_idx b#}
      | WM_Pending s \<Rightarrow> {#w_abs_idx (wm_buffer s)#}
      | WM_Poisoned \<Rightarrow> {#})"

definition write_awaiting :: "awaiting \<Rightarrow> u32 multiset" where
  "write_awaiting a = (case a of Aw_write_multiple f k \<Rightarrow> wm_handle f | _ \<Rightarrow> {#})"

text \<open>The handles that the frames of all live tasks own.\<close>

definition write_held :: "rt \<Rightarrow> u32 multiset" where
  "write_held rt = held write_local write_awaiting {} rt"

definition shape :: "buf_pool \<Rightarrow> u64 \<times> u32 \<times> nat" where
  "shape pool = (pool_base pool, read_count pool, length (write_rc pool))"

definition slots_kept :: "u64 \<times> u32 \<times> nat \<Rightarrow> u32 multiset \<Rightarrow> rt \<Rightarrow> bool" where
  "slots_kept c H rt \<longleftrightarrow> shape (rt_buffer rt) = c \<and> pool_owns H (rt_buffer rt)"

definition slot_fault :: "fault \<Rightarrow> bool" where
  "slot_fault e \<longleftrightarrow> e = Panic Write_slot_state"

lemma write_local_simps [simp]:
  "write_local (L_w w) = {#w_abs_idx w#}" "write_local (L_rw b) = {#}" "write_local (L_accept sa) = {#}"
  "write_local (L_read sr) = {#}"
  by (simp_all add: write_local_def)

lemma slot_fault_simps [simp]: "slot_fault (Panic p) \<longleftrightarrow> p = Write_slot_state" "\<not> slot_fault (Ub u)"
  by (simp_all add: slot_fault_def)

subsection \<open>The operations of the pool\<close>

lemma pool_clone_cases:
  assumes own: "pool_owns H pool" and a: "w_abs_idx w \<in># H"
  shows "wbuffer_clone w pool = Inl (Panic Arith_overflow) \<or>
    (\<exists>pool'. wbuffer_clone w pool = Inr (w, pool') \<and> pool_owns (add_mset (w_abs_idx w) H) pool' \<and> shape pool' = shape pool)"
proof -
  note b = pool_ownsD(1) [OF own]
  obtain i where i: "i < length (write_rc pool)" and abs: "w_abs_idx w = slot_abs pool i"
    using pool_ownsD(5) [OF own, of "w_abs_idx w"] a by auto
  have rc: "unat (write_rc pool ! i) = count H (w_abs_idx w)" using pool_ownsD(3) [OF own i] abs by simp
  then have pos: "0 < write_rc pool ! i" using a by (simp add: word_less_nat_alt)
  have step: "wbuffer_clone w pool = and_then (add_ovf (write_rc pool ! i) 1)
      (\<lambda>rc'. Inr (w, pool\<lparr>write_rc := (write_rc pool)[i := rc']\<rparr>))"
    using rel_of_slot [OF b i] pos by (simp add: wbuffer_clone_def abs)
  show ?thesis
  proof (cases "count H (w_abs_idx w) < 2 ^ 32 - 1")
    case True
    from wbuffer_clone_owns [OF own a this] step show ?thesis
      by (cases "add_ovf (write_rc pool ! i) 1") (auto simp: shape_def)
  next
    case False
    then have "add_ovf (write_rc pool ! i) 1 = Inl (Panic Arith_overflow)"
      using rc by (simp add: add_ovf_def checked_add_def)
    then show ?thesis using step by simp
  qed
qed

lemma pool_drop:
  assumes own: "pool_owns (add_mset (w_abs_idx w) H) pool"
  shows "\<exists>pool'. wbuffer_drop w pool = Inr pool' \<and> pool_owns H pool' \<and> shape pool' = shape pool"
proof -
  from wbuffer_drop_owns [OF own, of w] obtain pool' where
    p: "wbuffer_drop w pool = Inr pool'" "pool_owns H pool'" by auto
  then have "shape pool' = shape pool"
    by (auto simp: wbuffer_drop_def shape_def Let_def res_simps write_rc_at_def split: if_splits)
  with p show ?thesis by blast
qed

lemma kept_pool: "slots_kept c H rt \<Longrightarrow> pool_owns H' b \<Longrightarrow> shape b = shape (rt_buffer rt) \<Longrightarrow> slots_kept c H' (rt\<lparr>rt_buffer := b\<rparr>)"
  by (simp add: slots_kept_def)

lemma kept_cong: "rt_buffer rt' = rt_buffer rt \<Longrightarrow> slots_kept c H rt' \<longleftrightarrow> slots_kept c H rt"
  by (simp add: slots_kept_def)

lemma kept_clone:
  assumes "slots_kept c H rt" "w_abs_idx w \<in># H"
  shows "meets slot_fault (slots_kept c (add_mset (w_abs_idx w) H)) (clone_wbuffer w rt)"
  using pool_clone_cases [of H "rt_buffer rt" w] assms kept_pool [OF assms(1)]
  by (auto simp: clone_wbuffer_def on_pool_def slots_kept_def)

lemma kept_drop:
  assumes "slots_kept c (add_mset (w_abs_idx w) H) rt"
  shows "meets slot_fault (slots_kept c H) (drop_wbuffer w rt)"
  using pool_drop [of w H "rt_buffer rt"] assms kept_pool [OF assms]
  by (auto simp: drop_wbuffer_def on_pool_def slots_kept_def)

lemma kept_alloc:
  assumes k: "slots_kept c H rt"
  shows "meets slot_fault (\<lambda>(w, rt). slots_kept c (add_mset (w_abs_idx w) H) rt) (alloc_write_buffer rt)"
proof (cases "write_free (rt_buffer rt)")
  case Nil
  then show ?thesis by (simp add: alloc_write_buffer_def alloc_write_def)
next
  case (Cons a rest)
  from alloc_write_owns [OF _ Cons, of H 1] k obtain w b where w: "alloc_write 1 (rt_buffer rt) = Inr (w, b)"
    "w_abs_idx w = a" "pool_owns (add_mset a H) b" by (auto simp: slots_kept_def)
  have "shape b = shape (rt_buffer rt)" using w(1) by (auto simp: alloc_write_def shape_def res_simps Cons)
  with w kept_pool [OF k] show ?thesis by (simp add: alloc_write_buffer_def)
qed

lemma slot_pool_fault: "slot_fault e \<Longrightarrow> pool_fault e"
  by (simp add: slot_fault_def pool_fault_def)

lemma kept_still: "slots_kept c H rt \<Longrightarrow> still rt sel m \<Longrightarrow> meets slot_fault (\<lambda>x. slots_kept c H (sel x)) m"
  by (cases m) (auto simp: untouched_def slots_kept_def dest: slot_pool_fault)

lemma kept_send_writes:
  assumes "slots_kept c H rt" "w_abs_idx w \<in># H"
  shows "meets slot_fault (slots_kept c H) (send_writes ud w len k fds rt)"
  using assms(1)
proof (induction fds arbitrary: k rt)
  case (Cons fd fds)
  show ?case unfolding send_writes.simps
  proof (rule meets_and_then [OF kept_clone [OF Cons.prems assms(2)]])
    fix rt1 assume "slots_kept c (add_mset (w_abs_idx w) H) rt1"
    from kept_drop [OF this] show "meets slot_fault (slots_kept c H) (and_then (wbuffer_write w fd len
        (into_user_data (ud\<lparr>up_response_gen := of_nat k\<rparr>)) rt1) (\<lambda>(entry, rt).
        send_writes ud w len (Suc k) fds (sqe_queue_push entry rt)))"
      unfolding wbuffer_write_def and_then_assoc
      by (rule meets_and_then) (auto simp: slots_kept_def sqe_queue_push_def intro!: Cons.IH)
  qed
qed simp

text \<open>The fan-out future holds one handle before and after every poll.\<close>

lemma kept_fan_out:
  assumes "slots_kept c (wm_handle f + G) rt"
  shows "meets slot_fault (\<lambda>(f', _, rt). slots_kept c (wm_handle f' + G) rt) (write_multiple_poll f rt)"
proof (cases f)
  case (WM_Init fds b len)
  let ?H = "add_mset (w_abs_idx b) G"
  have o: "slots_kept c ?H rt" using assms WM_Init by (simp add: wm_handle_def)
  have send: "meets slot_fault (slots_kept c ?H) (send_multiple_write fds b len rt1)"
    if "slots_kept c (add_mset (w_abs_idx b) ?H) rt1" for rt1
    unfolding send_multiple_write_def Let_def
  proof (rule meets_and_then [OF kept_send_writes [OF that]])
    fix rt2 assume "slots_kept c (add_mset (w_abs_idx b) ?H) rt2"
    from kept_still [OF this still_headers(2)]
    show "meets slot_fault (slots_kept c ?H) (and_then (with_task (up_task_idx (TaskInfo_into_payload (rt_current rt1)))
        (add_rc (of_nat (length fds))) rt2) (drop_wbuffer b))"
      by (rule meets_and_then) (use kept_drop in simp)
  qed simp
  show ?thesis unfolding write_multiple_poll_def WM_Init WriteMultipleFuture.case submits
    by (rule meets_and_then [OF kept_clone [OF o]], simp,
        rule meets_and_then [OF send]) (simp_all add: wm_handle_def)
next
  case (WM_Pending s)
  let ?r = "write_multiple_poll (WM_Pending s) rt"
  have adv: "pool_safe (advance_syscall_nb t rt)" "advance_syscall_nb t rt = Inr rt' \<Longrightarrow> rt_buffer rt' = rt_buffer rt"
    for t rt'
    by (auto simp: advance_syscall_nb_def intro!: pool_safe_with_task dest: with_task_alone)
  have "pool_safe ?r"
    by (auto simp: write_multiple_poll_def Let_def intro!: pool_safe_and_then adv(1))
  moreover have "wm_handle f' = wm_handle f \<and> rt_buffer rt' = rt_buffer rt" if "?r = Inr (f', q, rt')" for f' q rt'
    using that WM_Pending
    by (auto simp: write_multiple_poll_def Let_def res_simps wm_handle_def split: if_splits dest!: adv(2))
  ultimately show ?thesis using assms WM_Pending
    by (cases ?r) (auto simp: slots_kept_def dest: slot_pool_fault)
qed (simp add: write_multiple_poll_def)

lemma kept_release: "slots_kept c H rt \<Longrightarrow> meets slot_fault (slots_kept c H) (release_read_buf i rt)"
  by (auto simp: release_read_buf_def release_buf_to_ring_def read_buf_addr_def Let_def slots_kept_def assert_or_def)

lemma kept_rw: "slots_kept c H rt \<Longrightarrow> meets slot_fault (slots_kept c H) (rwbuffer_drop b rt)"
  by (simp add: rwbuffer_drop_def kept_release)

lemma kept_fan_drop:
  "slots_kept c (wm_handle f + G) rt \<Longrightarrow> meets slot_fault (slots_kept c G) (write_multiple_drop f rt)"
  by (cases f) (auto simp: write_multiple_drop_def wm_handle_def kept_drop)

lemma kept_commit: "slots_kept c H rt \<Longrightarrow> meets slot_fault (\<lambda>(_, _, rt). slots_kept c H rt) (commit_poll f rt)"
  using kept_still [OF _ still_commit_start]
  by (cases f) (auto simp: commit_poll_def split_def intro!: meets_and_then [OF kept_release])

lemma kept_checkout:
  "slots_kept c H rt \<Longrightarrow> meets slot_fault (\<lambda>(_, _, rt). slots_kept c H rt)
     (and_then (checkout_read N i fd n pool) (\<lambda>b. Inr (s b, q b, rt)))"
  by (auto simp: checkout_read_def assert_or_def)

lemma kept_expect:
  "(\<And>y. v = Some y \<Longrightarrow> meets slot_fault Q (f y)) \<Longrightarrow> meets slot_fault Q (and_then (expect Missing_buf_id v) f)"
  by (cases v) (simp_all add: expect_def)

lemma kept_read: "slots_kept c H rt \<Longrightarrow> meets slot_fault (\<lambda>(_, _, rt). slots_kept c H rt) (read_poll E f rt)"
proof (cases f)
  case (RF_Init fd)
  then show "slots_kept c H rt \<Longrightarrow> ?thesis" using kept_still [OF _ still_read_start, of c H rt E fd]
    by (simp add: read_def split_def)
next
  case (RF_Pending fd)
  then show "slots_kept c H rt \<Longrightarrow> ?thesis" 
    by (auto simp: read_poll_def Let_def split: option.split intro!: meets_and_then [OF kept_release] kept_checkout)
qed

lemma kept_read_next:
  "slots_kept c H rt \<Longrightarrow> meets slot_fault (\<lambda>(_, _, rt). slots_kept c H rt) (read_poll_next E s rt)"
  using kept_still [OF _ still_leaf [OF still_multishot(1)], of c H rt]
  by (auto simp: read_poll_next_def Let_def comp_def split_def
      intro!: kept_expect kept_checkout [unfolded split_def] split: stream_state.split)

lemma kept_drop_awaiting:
  "slots_kept c (write_awaiting a + G) rt \<Longrightarrow> meets slot_fault (slots_kept c G) (drop_awaiting a rt)"
  using kept_rw kept_fan_drop by (cases a) (auto simp: drop_awaiting_def write_awaiting_def)

subsection \<open>The contract holds\<close>

interpretation write_slots: resource E slot_fault slots_kept write_local write_awaiting "\<lambda>_. {#}" "\<lambda>_. {#}" True
    "\<lambda>_ _ _. True" "\<lambda>c _. c"
  for E
proof (unfold_locales, goal_cases)
  case (2 rt' rt c H)
  then show ?case using kept_cong [of rt' rt] by simp
next
  case (14 c w G rt)
  then show ?case using kept_drop by simp
next
  case (15 c G rt)
  then show ?case using kept_alloc by simp
next
  case (16 c w G rt)
  then show ?case using kept_clone [of c "add_mset (w_abs_idx w) G" rt w] by simp
next
  case (18 c fm km G rt)
  then show ?case using kept_fan_out [of c fm G rt] by (simp add: write_awaiting_def)
next
  case (20 c b fc kc G rt)
  then show ?case using kept_commit [of c G rt fc]
    by (simp add: write_awaiting_def split_def)
      (auto simp: write_awaiting_def elim!: meets_mono split: poll_result.split)
next
  case (22 c a G rt)
  then show ?case by (rule kept_drop_awaiting)
next
  case (23 c rt G fr)
  then show ?case using kept_read [of c G rt E fr]
    by (simp add: split_def) (auto elim!: meets_mono split: poll_result.split sum.split)
next
  case (24 c G rt s)
  then show ?case using kept_read_next [of c G rt E s]
    by (simp add: split_def) (auto elim!: meets_mono split: poll_result.split option.split)
qed (auto simp: slot_pool_fault kept_rw write_awaiting_def write_multiple_def wm_handle_def rwbuffer_commit_def)

lemma pool_all_free:
  assumes "pool_owns {#} pool"
  shows "mset (write_free pool) = mset_set (slot_abs pool ` {..<length (write_rc pool)})"
proof -
  have "write_rc pool ! i = 0" if "i < length (write_rc pool)" for i
    using assms that by (simp add: pool_owns_def unat_eq_0)
  then have "set (write_free pool) = slot_abs pool ` {..<length (write_rc pool)}"
    using assms by (auto simp: pool_owns_def)
  moreover have "distinct (write_free pool)" using assms by (simp add: pool_owns_def)
  ultimately show ?thesis by (metis mset_set_set)
qed

lemma all_free_same:
  "pool_owns {#} p \<Longrightarrow> pool_owns {#} q \<Longrightarrow> shape p = shape q \<Longrightarrow> mset (write_free p) = mset (write_free q)"
  by (simp add: pool_all_free shape_def slot_abs_def [abs_def])


lemma stays [simp]: "foldl (\<lambda>c _. c) c css = c"
  by (induction css) simp_all

lemma write_slots_run:
  assumes "env_ok E" "legal_kernel E kern" "idle frame_ok rt" "frame_ok (async_block p)" "pool_owns {#} (rt_buffer rt)"
  shows "write_slots.accounted (shape (rt_buffer rt)) (batches_along E kern n (async_block p) rt)
    (block_on E (frame_poll E) frame_drop kern n (async_block p) rt)"
  by (rule write_slots.own_block_on [OF assms(1-4)])
    (use assms(5) in \<open>simp_all add: write_slots.lenient_def slots_kept_def run_legal_always\<close>)

lemma write_slots_owned: "write_slots.owned c {} {#} rt \<Longrightarrow> shape (rt_buffer rt) = c \<and> pool_owns (write_held rt) (rt_buffer rt)"
  by (simp add: write_slots.owned_def slots_kept_def write_held_def)

end
