(* ===== verification/Teardown.thy ===== *)
theory Teardown
  imports Ownership Scenarios
begin

text \<open>
  What happens when the thread ends and its runtime is dropped: \<open>Drop for Runtime\<close>, which frees the buffer
  ring, then the fields in the order of their declaration, the slab with the tasks still in it and the
  pool among them. The
  thread's runtime is not reachable then, so a read buffer that is dropped releases nothing; a write
  buffer reaches the pool through its own pointer, and the pool is dropped after the tasks.
\<close>

subsection \<open>Destructors at the end of the thread\<close>

text \<open>\<open>Drop for RwBuffer\<close> calls \<open>release_read_buf\<close>, whose \<open>try_with\<close> fails.\<close>

definition exit_local :: "local_value \<Rightarrow> rt \<Rightarrow> rt res" where
  "exit_local l rt = (case l of L_w w \<Rightarrow> drop_wbuffer w rt | _ \<Rightarrow> Inr rt)"

definition exit_awaiting :: "awaiting \<Rightarrow> rt \<Rightarrow> rt res" where
  "exit_awaiting a rt = (case a of Aw_write_multiple w k \<Rightarrow> write_multiple_drop w rt | _ \<Rightarrow> Inr rt)"

definition exit_frame :: "frame \<Rightarrow> rt \<Rightarrow> rt res" where
  "exit_frame fr rt =
     and_then (case fr_state fr of Await a \<Rightarrow> exit_awaiting a rt | _ \<Rightarrow> Inr rt)
       (fold_res (\<lambda>(_, l). exit_local l) (fr_locals fr))"

text \<open>\<open>Drop for BufPool\<close>: the block given back.\<close>

definition BufPool_drop :: "buf_pool \<Rightarrow> u64 \<times> nat \<times> nat" where
  "BufPool_drop pool = (pool_base pool, pool_layout pool)"

text \<open>The layout with which \<open>Runtime::new\<close> allocates the buffer ring and \<open>Drop for Runtime\<close> frees it: size and
  alignment. No byte of the ring can be reached afterwards.\<close>

definition buf_ring_layout :: "buf_pool \<Rightarrow> nat \<times> nat" where
  "buf_ring_layout pool = (unat (read_count pool) * 16, PAGE_SIZE)"

definition Runtime_drop_ring :: "rt \<Rightarrow> rt \<times> nat \<times> nat" where
  "Runtime_drop_ring rt = (rt\<lparr>rt_buf_ring := []\<rparr>, buf_ring_layout (rt_buffer rt))"

text \<open>\<open>Drop for Runtime\<close>, then the drop of the fields.\<close>

definition Runtime_drop :: "rt \<Rightarrow> (rt \<times> (nat \<times> nat) \<times> u64 \<times> nat \<times> nat) res" where
  "Runtime_drop rt =
     (case Runtime_drop_ring rt of (rt, ring) \<Rightarrow>
      and_then (fold_res (task_drop exit_frame) (slab_drop (rt_tasks rt)) rt) (\<lambda>rt.
      Inr (rt, ring, BufPool_drop (rt_buffer rt))))"

subsection \<open>What is left\<close>

text \<open>One reference less per task.\<close>

definition one_less :: "'f raw_task option \<Rightarrow> 'f raw_task option" where
  "one_less x =
     (case x of
        None \<Rightarrow> None
      | Some t \<Rightarrow> if ref_counter t = 1 then None else Some (t\<lparr>ref_counter := ref_counter t - 1\<rparr>))"

text \<open>The destructors only touch the pool, and give up what the frame owns.\<close>

definition pool_step :: "u64 \<times> u32 \<times> nat \<Rightarrow> u32 multiset \<Rightarrow> rt \<Rightarrow> rt res \<Rightarrow> bool" where
  "pool_step c G rt r \<longleftrightarrow> (\<exists>b. r = Inr (rt\<lparr>rt_buffer := b\<rparr>) \<and> slots_kept c G (rt\<lparr>rt_buffer := b\<rparr>))"

lemma pool_step_id: "slots_kept c G rt \<Longrightarrow> pool_step c G rt (Inr rt)"
  unfolding pool_step_def by (rule exI [of _ "rt_buffer rt"]) simp

lemma pool_step_drop: "slots_kept c (add_mset (w_abs_idx w) G) rt \<Longrightarrow> pool_step c G rt (drop_wbuffer w rt)"
  using pool_drop [of w G "rt_buffer rt"] kept_pool [of c "add_mset (w_abs_idx w) G" rt]
  by (auto simp: pool_step_def drop_wbuffer_def on_pool_def slots_kept_def)

lemma pool_step_then:
  assumes "pool_step c G rt r" "\<And>b. slots_kept c G (rt\<lparr>rt_buffer := b\<rparr>) \<Longrightarrow> pool_step c H (rt\<lparr>rt_buffer := b\<rparr>) (f (rt\<lparr>rt_buffer := b\<rparr>))"
  shows "pool_step c H rt (and_then r f)"
  using assms by (fastforce simp: pool_step_def)

lemma pool_step_local: "slots_kept c (write_local l + G) rt \<Longrightarrow> pool_step c G rt (exit_local l rt)"
  by (cases l) (auto simp: exit_local_def intro: pool_step_id pool_step_drop)

lemma pool_step_locals:
  "slots_kept c (locals_handles write_local ls + G) rt \<Longrightarrow> pool_step c G rt (fold_res (\<lambda>(_, l). exit_local l) ls rt)"
proof (induction ls arbitrary: rt)
  case (Cons x ls)
  obtain i l where x: "x = (i, l)" by (cases x)
  have "slots_kept c (write_local l + (locals_handles write_local ls + G)) rt" using Cons.prems x by (simp add: add_ac)
  from pool_step_then [OF pool_step_local [OF this] Cons.IH] show ?case by (simp add: x)
qed (simp add: pool_step_id)

lemma pool_step_frame:
  assumes "slots_kept c (handles write_local write_awaiting fr + G) rt"
  shows "pool_step c G rt (exit_frame fr rt)"
proof -
  let ?L = "locals_handles write_local (fr_locals fr)"
  have "pool_step c (?L + G) rt (case fr_state fr of Await a \<Rightarrow> exit_awaiting a rt | _ \<Rightarrow> Inr rt)"
  proof (cases "fr_state fr")
    case (Await a)
    have k: "slots_kept c (write_awaiting a + (?L + G)) rt" using assms Await by (simp add: handles_def add_ac)
    show ?thesis
    proof (cases a)
      case (Aw_write_multiple f k')
      then show ?thesis using k Await
        by (cases f) (auto simp: exit_awaiting_def write_multiple_drop_def write_awaiting_def wm_handle_def intro: pool_step_id pool_step_drop)
    qed (use k Await in \<open>auto simp: exit_awaiting_def write_awaiting_def intro: pool_step_id\<close>)
  qed (use assms in \<open>auto simp: handles_def intro: pool_step_id\<close>)
  from pool_step_then [OF this pool_step_locals] show ?thesis by (simp add: exit_frame_def)
qed

text \<open>One task, and all of them.\<close>

text \<open>The last release of a task reads its freed counter.\<close>

abbreviation dying :: "rt \<Rightarrow> u64 \<Rightarrow> bool" where
  "dying rt p \<equiv> map_option ref_counter (rt_heap rt p) = Some 1"

lemma exit_task:
  assumes k: "slots_kept c (write_held rt) rt" and t: "rt_heap rt p = Some t" "ref_counter t \<noteq> 0"
  shows "\<exists>rt'. task_drop exit_frame p rt = Inr rt' \<and> rt_heap rt' = (rt_heap rt)(p := one_less (rt_heap rt p)) \<and>
    slots_kept c (write_held rt') rt' \<and> rt_buf_ring rt' = rt_buf_ring rt \<and>
    rt_freed_reads rt' = rt_freed_reads rt + (if dying rt p then 1 else 0)"
proof -
  have c: "sub_ovf (ref_counter t) 1 = Inr (ref_counter t - 1)"
    using t(2) by (simp add: sub_ovf_def word_le_nat_alt Suc_leI unat_gt_0)
  show ?thesis
  proof (cases "ref_counter t = 1")
    case False
    let ?rt = "rt\<lparr>rt_heap := (rt_heap rt)(p \<mapsto> t\<lparr>ref_counter := ref_counter t - 1\<rparr>)\<rparr>"
    have "futs ?rt = futs rt" using t(1) by (auto simp: futs_def)
    then have "write_held ?rt = write_held rt" unfolding write_held_def by (rule held_cong)
    then have "slots_kept c (write_held ?rt) ?rt" using k by (simp add: slots_kept_def)
    then show ?thesis using False t c by (simp add: task_drop_def task_release_def task_deref_def one_less_def)
  next
    case True
    let ?rt = "rt\<lparr>rt_heap := (rt_heap rt)(p \<mapsto> t\<lparr>ref_counter := 0\<rparr>)\<rparr>"
    have "write_held rt = handles write_local write_awaiting (task_fut t) + held write_local write_awaiting {p} rt"
      unfolding write_held_def by (rule held_insert) (simp_all add: futs_def t(1))
    then have "slots_kept c (handles write_local write_awaiting (task_fut t) + held write_local write_awaiting {p} rt) ?rt"
      using k by (simp add: slots_kept_def)
    from pool_step_frame [OF this] obtain b where b: "exit_frame (task_fut t) ?rt = Inr (?rt\<lparr>rt_buffer := b\<rparr>)"
      "slots_kept c (held write_local write_awaiting {p} rt) (?rt\<lparr>rt_buffer := b\<rparr>)" by (auto simp: pool_step_def)
    have gone: "write_held rt' = held write_local write_awaiting {p} rt" if "rt_heap rt' = (rt_heap rt)(p := None)" for rt'
    proof -
      have "futs rt' = (futs rt)(p := None)" using that by (auto simp: futs_def)
      then show ?thesis unfolding write_held_def held_def by (intro sum.cong) auto
    qed
    show ?thesis using True t c b
      by (cases "slab_idx t") (simp_all add: task_drop_def task_release_def task_deref_def one_less_def gone slots_kept_def Let_def)
  qed
qed

lemma exit_tasks:
  assumes "distinct ps" "\<forall>p \<in> set ps. \<exists>t. rt_heap rt p = Some t \<and> ref_counter t \<noteq> 0" "slots_kept c (write_held rt) rt"
  shows "\<exists>rt'. fold_res (task_drop exit_frame) ps rt = Inr rt' \<and>
    rt_heap rt' = (\<lambda>q. if q \<in> set ps then one_less (rt_heap rt q) else rt_heap rt q) \<and> slots_kept c (write_held rt') rt' \<and>
    rt_buf_ring rt' = rt_buf_ring rt \<and> rt_freed_reads rt' = rt_freed_reads rt + length (filter (dying rt) ps)"
  using assms
proof (induction ps arbitrary: rt)
  case (Cons p ps)
  then obtain t where "rt_heap rt p = Some t" "ref_counter t \<noteq> 0" by auto
  from exit_task [OF Cons.prems(3) this] obtain rt1 where rt1: "task_drop exit_frame p rt = Inr rt1"
    "rt_heap rt1 = (rt_heap rt)(p := one_less (rt_heap rt p))" "slots_kept c (write_held rt1) rt1"
    "rt_buf_ring rt1 = rt_buf_ring rt" "rt_freed_reads rt1 = rt_freed_reads rt + (if dying rt p then 1 else 0)" by blast
  have "\<forall>p \<in> set ps. \<exists>t. rt_heap rt1 p = Some t \<and> ref_counter t \<noteq> 0" using Cons.prems(1,2) rt1(2) by auto
  from Cons.IH [OF _ this rt1(3)] Cons.prems(1) obtain rt' where rt': "fold_res (task_drop exit_frame) ps rt1 = Inr rt'"
    "rt_heap rt' = (\<lambda>q. if q \<in> set ps then one_less (rt_heap rt1 q) else rt_heap rt1 q)" "slots_kept c (write_held rt') rt'"
    "rt_buf_ring rt' = rt_buf_ring rt1" "rt_freed_reads rt' = rt_freed_reads rt1 + length (filter (dying rt1) ps)"
    by auto
  have "rt_heap rt' = (\<lambda>q. if q \<in> set (p # ps) then one_less (rt_heap rt q) else rt_heap rt q)"
    using rt'(2) rt1(2) Cons.prems(1) by (auto simp: fun_eq_iff)
  moreover have "filter (dying rt1) ps = filter (dying rt) ps"
    using rt1(2) Cons.prems(1) by (intro filter_cong) auto
  ultimately show ?case using rt1(1,4,5) rt'(1,3,4,5) by simp
qed simp

text \<open>The slots hold every live task once.\<close>

lemma distinct_filter_nth:
  "(\<And>i j. i < length xs \<Longrightarrow> j < length xs \<Longrightarrow> P (xs ! i) \<Longrightarrow> xs ! i = xs ! j \<Longrightarrow> i = j) \<Longrightarrow> distinct (filter P xs)"
proof (induction xs)
  case (Cons x xs)
  have "x \<notin> set xs" if "P x" using Cons.prems [of 0 "Suc k" for k] that by (fastforce simp: in_set_conv_nth)
  moreover have "distinct (filter P xs)" using Cons.prems [of "Suc i" "Suc j" for i j] by (intro Cons.IH) auto
  ultimately show ?case by auto
qed simp

lemma slab_drop_filter: "slab_drop s = filter slot_is_task (slots s)"
proof -
  have "concat (map slot_drop xs) = filter slot_is_task xs" for xs
    by (induction xs) (simp_all add: slot_drop_def slot_is_task_iff)
  then show ?thesis by (simp add: slab_drop_def)
qed

lemma slab_drop_live:
  assumes a: "acct ok T rt" and fl: "rt_free_list rt = []"
  shows "distinct (slab_drop (rt_tasks rt))" and "set (slab_drop (rt_tasks rt)) = dom (rt_heap rt)"
proof -
  let ?sl = "slots (rt_tasks rt)"
  have len: "length ?sl < 2 ^ 31" using slab_inv_bounds [OF acctD(1) [OF a]] by simp
  have at: "live rt (of_nat i) (?sl ! i)" if "i < length ?sl" "slot_is_task (?sl ! i)" for i
  proof -
    have "unat (of_nat i :: u32) = i" using that(1) len by (intro unat_of_nat_lt) simp
    then show ?thesis using that fl by (simp add: live_def slab_lookup_def slots_lookup_def)
  qed
  show "distinct (slab_drop (rt_tasks rt))" unfolding slab_drop_filter
  proof (rule distinct_filter_nth)
    fix i j assume ij: "i < length ?sl" "j < length ?sl" "slot_is_task (?sl ! i)" "?sl ! i = ?sl ! j"
    from acctD(4) [OF a at [OF ij(1,3)]] acctD(4) [OF a at [OF ij(2)]] ij
    have "(of_nat i :: u32) = of_nat j" by (auto simp: header_ok_def)
    then show "i = j" using ij(1,2) len by (simp add: word_unat_eq_iff unat_of_nat take_bit_nat_eq_self)
  qed
  show "set (slab_drop (rt_tasks rt)) = dom (rt_heap rt)"
  proof (intro set_eqI iffI)
    fix p assume "p \<in> set (slab_drop (rt_tasks rt))"
    then obtain i where "i < length ?sl" "slot_is_task (?sl ! i)" "p = ?sl ! i"
      by (auto simp: slab_drop_filter in_set_conv_nth)
    then show "p \<in> dom (rt_heap rt)" using acctD(4) [OF a at] by auto
  next
    fix p assume "p \<in> dom (rt_heap rt)"
    then obtain i where "live rt i p" using acctD(5) [OF a] by auto
    then show "p \<in> set (slab_drop (rt_tasks rt))"
      by (auto simp: live_def slab_lookup_def slots_lookup_def slab_drop_filter split: if_splits)
  qed
qed

lemma idle_free_list: "idle ok rt \<Longrightarrow> rt_free_list rt = []"
  by (auto simp: idle_def rt_inv_def acct_def)

text \<open>The whole teardown of a runtime that is at rest or still has tasks.\<close>

lemma teardown:
  assumes inv: "rt_inv ok K {#} rt" and fl: "rt_free_list rt = []" and k: "slots_kept c (write_held rt) rt"
  shows "\<exists>rt'. Runtime_drop rt = Inr (rt', buf_ring_layout (rt_buffer rt), BufPool_drop (rt_buffer rt')) \<and>
    rt_heap rt' = one_less \<circ> rt_heap rt \<and> slots_kept c (write_held rt') rt' \<and> rt_buf_ring rt' = [] \<and>
    rt_freed_reads rt' = rt_freed_reads rt + card {p. dying rt p}"
proof -
  let ?rt = "rt\<lparr>rt_buf_ring := []\<rparr>" and ?ps = "slab_drop (rt_tasks rt)"
  have a: "acct ok (tokens K {#} rt) rt" using inv by (simp add: rt_inv_def)
  note sl = slab_drop_live [OF a fl]
  have "\<exists>t. rt_heap ?rt p = Some t \<and> ref_counter t \<noteq> 0" if "p \<in> set ?ps" for p
  proof -
    from that sl(2) obtain t where t: "rt_heap rt p = Some t" by auto
    from acctD(5) [OF a t] obtain i where "live rt i p" by blast
    from acctD(4) [OF a this] t show ?thesis by (auto simp: header_ok_def count_eq_zero_iff)
  qed
  moreover have "write_held ?rt = write_held rt" unfolding write_held_def by (rule held_cong) (simp add: futs_def fun_eq_iff)
  then have "slots_kept c (write_held ?rt) ?rt" using k by (simp add: slots_kept_def)
  ultimately obtain rt' where rt': "fold_res (task_drop exit_frame) ?ps ?rt = Inr rt'"
    "rt_heap rt' = (\<lambda>q. if q \<in> set ?ps then one_less (rt_heap rt q) else rt_heap rt q)"
    "slots_kept c (write_held rt') rt'" "rt_buf_ring rt' = []"
    "rt_freed_reads rt' = rt_freed_reads rt + length (filter (dying rt) ?ps)"
    using exit_tasks [OF sl(1), of ?rt c] by (auto cong: if_cong)
  have "rt_heap rt' = one_less \<circ> rt_heap rt"
    using rt'(2) sl(2) by (auto simp: fun_eq_iff one_less_def dom_def split: option.split)
  moreover have "{p. dying rt p} = set (filter (dying rt) ?ps)" using sl(2) by auto
  then have "card {p. dying rt p} = length (filter (dying rt) ?ps)"
    using distinct_card [OF distinct_filter [OF sl(1)]] by metis
  ultimately show ?thesis using rt'(1,3-) by (simp add: Runtime_drop_def Runtime_drop_ring_def)
qed

end
