(* ===== verification/Borrowing.thy ===== *)
theory Borrowing
  imports Scenarios
begin

text \<open>
  The borrow flags. The runtime, the list of slots to free and the wake list are \<open>RefCell\<close>s of the thread:
  to borrow one that is borrowed is a panic, and polling a future or running a destructor borrows the
  runtime again. This theory runs \<open>spawn\<close>, the dispatch of completions and the loop of \<open>block_on\<close> with the
  cells that are borrowed, section by section as \<open>runtime.rs\<close> opens them, and shows that they do what the
  definitions of \<open>Runtime\<close> do, so no borrow ever fails. What a poll and a destructor do between their own
  borrows is the interface \<open>borrowing_client\<close>, which \<open>Borrowed_Calls\<close> provides for every body.
\<close>

subsection \<open>Cells and sections\<close>

datatype cell = Global_runtime | Runtime_free_list | Runtime_wake_list

type_synonym 'f bstate = "cell set \<times> 'f runtime"

definition with_borrow_mut :: "cell \<Rightarrow> ('f bstate \<Rightarrow> ('a \<times> 'f bstate) res) \<Rightarrow> 'f bstate \<Rightarrow> ('a \<times> 'f bstate) res" where
  "with_borrow_mut c f s =
     and_then (assert_or Already_borrowed (c \<notin> fst s)) (\<lambda>_.
     and_then (f (insert c (fst s), snd s)) (\<lambda>(x, s).
     Inr (x, fst s - {c}, snd s)))"

text \<open>Code that borrows nothing.\<close>

definition plain :: "('f runtime \<Rightarrow> ('a \<times> 'f runtime) res) \<Rightarrow> 'f bstate \<Rightarrow> ('a \<times> 'f bstate) res" where
  "plain f s = and_then (f (snd s)) (\<lambda>(x, rt). Inr (x, fst s, rt))"

definition plain_unit :: "('f runtime \<Rightarrow> 'f runtime res) \<Rightarrow> 'f bstate \<Rightarrow> (unit \<times> 'f bstate) res" where
  "plain_unit f s = and_then (f (snd s)) (\<lambda>rt. Inr ((), fst s, rt))"

text \<open>A shared borrow fails only next to an exclusive one. All code under a shared borrow of the crate
  (\<open>release_buf_to_ring\<close>, \<open>checkout_read\<close>) borrows nothing itself, so the borrow leaves no mark.\<close>

definition with_borrow :: "cell \<Rightarrow> ('f runtime \<Rightarrow> ('a \<times> 'f runtime) res) \<Rightarrow> 'f bstate \<Rightarrow> ('a \<times> 'f bstate) res" where
  "with_borrow c f s = and_then (assert_or Already_borrowed (c \<notin> fst s)) (\<lambda>_. plain f s)"

type_synonym 'f bpoll = "'f \<Rightarrow> 'f bstate \<Rightarrow> ('f \<times> bool \<times> 'f bstate) res"
type_synonym 'f bdrop = "'f \<Rightarrow> 'f bstate \<Rightarrow> (unit \<times> 'f bstate) res"

subsection \<open>Tasks\<close>

definition b_task_poll_with :: "('f bstate \<Rightarrow> ('f \<times> bool \<times> 'f bstate) res) \<Rightarrow> u64 \<Rightarrow> 'f bstate \<Rightarrow> (unit \<times> 'f bstate) res" where
  "b_task_poll_with body p s =
     and_then (body s) (\<lambda>(fut', ready, b, rt).
     and_then (task_deref p (rt_heap rt)) (\<lambda>t.
     Inr ((), b, rt\<lparr>rt_heap := (rt_heap rt)(p \<mapsto> t\<lparr>task_fut := fut'\<rparr>)\<rparr>)))"

definition b_task_poll :: "'f bpoll \<Rightarrow> u64 \<Rightarrow> 'f bstate \<Rightarrow> (unit \<times> 'f bstate) res" where
  "b_task_poll poll_fn p s =
     and_then (task_deref p (rt_heap (snd s))) (\<lambda>t. b_task_poll_with (poll_fn (task_fut t)) p s)"

definition b_task_release :: "'f bdrop \<Rightarrow> u64 \<Rightarrow> 'f bstate \<Rightarrow> (unit \<times> 'f bstate) res" where
  "b_task_release drop_fn p s =
     (case s of (b, rt) \<Rightarrow>
     and_then (task_deref p (rt_heap rt)) (\<lambda>t.
     and_then (sub_ovf (ref_counter t) 1) (\<lambda>counter.
     let rt = rt\<lparr>rt_heap := (rt_heap rt)(p \<mapsto> t\<lparr>ref_counter := counter\<rparr>)\<rparr>
     in if counter = 0
        then and_then (drop_fn (task_fut t) (b, rt)) (\<lambda>(_, b, rt).
             and_then (task_deref p (rt_heap rt)) (\<lambda>raw.
             let rt = rt\<lparr>rt_heap := (rt_heap rt)(p := None)\<rparr>
             in and_then (case slab_idx raw of
                  Some task_idx \<Rightarrow>
                    with_borrow_mut Runtime_free_list
                      (plain_unit (\<lambda>rt. Inr (rt\<lparr>rt_free_list := rt_free_list rt @ [task_idx]\<rparr>))) (b, rt)
                | None \<Rightarrow> Inr ((), b, rt)) (\<lambda>(_, b, rt).
             Inr ((), b, rt\<lparr>rt_freed_reads := Suc (rt_freed_reads rt)\<rparr>))))
        else Inr ((), b, rt))))"

subsection \<open>The runtime\<close>

definition b_spawn :: "'f env \<Rightarrow> 'f bpoll \<Rightarrow> 'f bdrop \<Rightarrow> 'f \<Rightarrow> 'f bstate \<Rightarrow> (unit \<times> 'f bstate) res" where
  "b_spawn E poll_fn drop_fn fut s =
     and_then (with_borrow_mut Global_runtime (plain (\<lambda>rt.
       and_then (spawn_insert E fut rt) (\<lambda>(p, old, rt). Inr ((p, old), rt)))) s) (\<lambda>((p, old), s).
     and_then (b_task_poll poll_fn p s) (\<lambda>(_, s).
     and_then (b_task_release drop_fn p s) (\<lambda>(_, b, rt).
     b_task_release drop_fn p (b, rt\<lparr>rt_current := old\<rparr>))))"

text \<open>\<open>spawn\<close> inside a body, with the poll of the new task given as a function.\<close>

definition b_spawn_run :: "'f env \<Rightarrow> ('f bstate \<Rightarrow> ('f \<times> bool \<times> 'f bstate) res) \<Rightarrow> 'f bdrop \<Rightarrow> 'f \<Rightarrow> 'f bstate
    \<Rightarrow> (unit \<times> 'f bstate) res" where
  "b_spawn_run E body drop_fn fut s =
     and_then (with_borrow_mut Global_runtime (plain (\<lambda>rt.
       and_then (spawn_insert E fut rt) (\<lambda>(p, old, rt). Inr ((p, old), rt)))) s) (\<lambda>((p, old), s).
     and_then (b_task_poll_with body p s) (\<lambda>(_, s).
     and_then (b_task_release drop_fn p s) (\<lambda>(_, b, rt).
     b_task_release drop_fn p (b, rt\<lparr>rt_current := old\<rparr>))))"

definition b_dispatch_cqe :: "'f bpoll \<Rightarrow> u64 \<Rightarrow> task_info \<Rightarrow> 'f bstate \<Rightarrow> (unit \<times> 'f bstate) res" where
  "b_dispatch_cqe poll_fn p info s =
     (case s of (b, rt) \<Rightarrow>
     and_then (task_deref p (rt_heap rt)) (\<lambda>t.
     let nb_syscall = tag_syscall_nb (ti_tag info)
     in case evaluate_syscall_nb nb_syscall t of
          Error \<Rightarrow> Inl (Panic Newer_cqe)
        | Expired \<Rightarrow> Inr ((), b, rt)
        | Normal \<Rightarrow>
            and_then (add_ovf nb_syscall 1) (\<lambda>nb.
            let info = info\<lparr>ti_tag := (ti_tag info)\<lparr>tag_syscall_nb := nb\<rparr>\<rparr>
            in and_then (task_update p augmente_syscall_nb (rt_heap rt)) (\<lambda>h.
               b_task_poll poll_fn p (b, rt\<lparr>rt_heap := h, rt_current := info\<rparr>)))
        | Multiple \<Rightarrow> b_task_poll poll_fn p (b, rt\<lparr>rt_current := info\<rparr>)))"

definition b_handle_cqe_entry :: "'f env \<Rightarrow> 'f bpoll \<Rightarrow> 'f bdrop \<Rightarrow> cqe \<Rightarrow> 'f bstate \<Rightarrow> (unit \<times> 'f bstate) res" where
  "b_handle_cqe_entry E poll_fn drop_fn entry s =
     (let is_multishoot = env_more E (cqe_flags entry);
          info = TaskInfo_from_entry entry
      in and_then (with_borrow_mut Global_runtime (plain (clone_task_at (tag_task_idx (ti_tag info)))) s) (\<lambda>(p, s).
         and_then (b_dispatch_cqe poll_fn p info s) (\<lambda>(_, s).
         and_then (if is_multishoot then Inr ((), s) else b_task_release drop_fn p s) (\<lambda>(_, s).
         b_task_release drop_fn p s))))"

text \<open>The section that frees the queued slots and asks whether a task is left.\<close>

definition b_free_slots :: "'f bstate \<Rightarrow> (bool \<times> 'f bstate) res" where
  "b_free_slots =
     with_borrow_mut Global_runtime (\<lambda>s.
     and_then (with_borrow_mut Runtime_free_list (plain_unit free_unsed_slab_slot) s) (\<lambda>(_, b, rt).
     Inr (is_runtime_free rt, b, rt)))"

definition b_pop_wake :: "'f bstate \<Rightarrow> (task_info option \<times> 'f bstate) res" where
  "b_pop_wake =
     with_borrow_mut Runtime_wake_list (plain (\<lambda>rt.
       case rt_wake_list rt of
         [] \<Rightarrow> Inr (None, rt)
       | awake # rest \<Rightarrow> Inr (Some awake, rt\<lparr>rt_wake_list := rest\<rparr>)))"

definition b_wake_one :: "'f bpoll \<Rightarrow> 'f bdrop \<Rightarrow> task_info \<Rightarrow> 'f bstate \<Rightarrow> (unit \<times> 'f bstate) res" where
  "b_wake_one poll_fn drop_fn awake s =
     (case s of (b, rt) \<Rightarrow>
     and_then (with_borrow_mut Global_runtime (plain (clone_task_at (tag_task_idx (ti_tag awake))))
                 (b, rt\<lparr>rt_current := awake\<rparr>)) (\<lambda>(p, s).
     and_then (b_task_poll poll_fn p s) (\<lambda>(_, s). b_task_release drop_fn p s)))"

partial_function (option) b_drain :: "'f bpoll \<Rightarrow> 'f bdrop \<Rightarrow> 'f bstate \<Rightarrow> (unit \<times> 'f bstate) res option" where
  "b_drain poll_fn drop_fn s =
     (case b_pop_wake s of
        Inl e \<Rightarrow> Some (Inl e)
      | Inr (None, s) \<Rightarrow> Some (Inr ((), s))
      | Inr (Some awake, s) \<Rightarrow>
          (case b_wake_one poll_fn drop_fn awake s of
             Inl e \<Rightarrow> Some (Inl e)
           | Inr (_, s) \<Rightarrow> b_drain poll_fn drop_fn s))"

definition b_loop_body :: "'f env \<Rightarrow> 'f bpoll \<Rightarrow> 'f bdrop \<Rightarrow> cqe list \<Rightarrow> 'f bstate \<Rightarrow> (bool \<times> 'f bstate) res option" where
  "b_loop_body E poll_fn drop_fn entries s =
     (case b_free_slots s of
        Inl e \<Rightarrow> Some (Inl e)
      | Inr (True, s) \<Rightarrow> Some (Inr (True, s))
      | Inr (False, s) \<Rightarrow>
          (case with_borrow_mut Global_runtime (plain (\<lambda>rt. Inr (entries, rt))) s of
             Inl e \<Rightarrow> Some (Inl e)
           | Inr (entries, s) \<Rightarrow>
          if entries = [] then Some (Inl (Panic No_entries))
          else (case fold_res (\<lambda>c s. and_then (b_handle_cqe_entry E poll_fn drop_fn c s) (\<lambda>(_, s). Inr s)) entries s of
                  Inl e \<Rightarrow> Some (Inl e)
                | Inr s \<Rightarrow>
                    (case b_drain poll_fn drop_fn s of
                       None \<Rightarrow> None
                     | Some (Inl e) \<Rightarrow> Some (Inl e)
                     | Some (Inr (_, s)) \<Rightarrow> Some (b_free_slots s)))))"

primrec b_block_loop :: "'f env \<Rightarrow> 'f bpoll \<Rightarrow> 'f bdrop \<Rightarrow> (nat \<Rightarrow> u64 list \<Rightarrow> kernel_turn) \<Rightarrow> nat
    \<Rightarrow> u64 list \<Rightarrow> 'f bstate \<Rightarrow> 'f outcome" where
  "b_block_loop E poll_fn drop_fn kern 0 K s = Running K (snd s)"
| "b_block_loop E poll_fn drop_fn kern (Suc n) K s =
     (case with_borrow_mut Global_runtime (plain (submit_pending E)) s of
        Inl e \<Rightarrow> Faulted e
      | Inr (sqes, s) \<Rightarrow>
          (let K = K @ map sqe_user_data sqes
           in case kern n K of
                Io_err e \<Rightarrow> Io_error e (snd s)
              | Completions entries \<Rightarrow>
                  (case b_loop_body E poll_fn drop_fn entries s of
                     None \<Rightarrow> Diverged
                   | Some (Inl e) \<Rightarrow> Faulted e
                   | Some (Inr (True, s)) \<Rightarrow> Finished (snd s)
                   | Some (Inr (False, s)) \<Rightarrow>
                       b_block_loop E poll_fn drop_fn kern n (fold (complete_one E) entries K) s)))"

definition b_block_on :: "'f env \<Rightarrow> 'f bpoll \<Rightarrow> 'f bdrop \<Rightarrow> (nat \<Rightarrow> u64 list \<Rightarrow> kernel_turn) \<Rightarrow> nat
    \<Rightarrow> 'f \<Rightarrow> 'f bstate \<Rightarrow> 'f outcome" where
  "b_block_on E poll_fn drop_fn kern turns fut s =
     (case and_then (b_spawn E poll_fn drop_fn fut s) (\<lambda>(_, s). b_free_slots s) of
        Inl e \<Rightarrow> Faulted e
      | Inr (True, s) \<Rightarrow> Finished (snd s)
      | Inr (False, s) \<Rightarrow> b_block_loop E poll_fn drop_fn kern turns [] s)"

text \<open>\<open>Drop for Waker\<close> releases the task inside a section of the runtime.\<close>

definition b_waker_drop :: "'f bdrop \<Rightarrow> user_data_payload \<Rightarrow> 'f bstate \<Rightarrow> (unit \<times> 'f bstate) res" where
  "b_waker_drop drop_fn w =
     with_borrow_mut Global_runtime (\<lambda>s.
     and_then (slab_index (up_task_idx w) (rt_tasks (snd s))) (\<lambda>p. b_task_release drop_fn p s))"

subsection \<open>Nothing is borrowed when client code runs\<close>

text \<open>A result of the plain model, with nothing borrowed.\<close>

definition calmly :: "'f runtime res \<Rightarrow> (unit \<times> 'f bstate) res" where
  "calmly r = and_then r (\<lambda>rt. Inr ((), {}, rt))"

lemma calmly_simps [simp]: "calmly (Inl e) = Inl e" "calmly (Inr rt) = Inr ((), {}, rt)"
  by (simp_all add: calmly_def)

lemma calmly_then: "and_then (calmly r) f = and_then r (\<lambda>rt. f ((), {}, rt))"
  by (simp add: calmly_def and_then_assoc)

lemma sections [simp]:
  "with_borrow_mut c (plain f) ({}, rt) = and_then (f rt) (\<lambda>(x, rt). Inr (x, {}, rt))"
  "with_borrow_mut c (plain_unit g) ({}, rt) = calmly (g rt)"
  "with_borrow c f ({}, rt) = and_then (f rt) (\<lambda>(x, rt). Inr (x, {}, rt))"
  "b_free_slots ({}, rt) = and_then (free_unsed_slab_slot rt) (\<lambda>rt. Inr (is_runtime_free rt, {}, rt))"
  "b_pop_wake ({}, rt) =
     Inr (case rt_wake_list rt of [] \<Rightarrow> (None, {}, rt) | awake # rest \<Rightarrow> (Some awake, {}, rt\<lparr>rt_wake_list := rest\<rparr>))"
  by (auto simp: with_borrow_mut_def with_borrow_def plain_def plain_unit_def calmly_def b_free_slots_def b_pop_wake_def and_then_def
      split: sum.split list.split)

text \<open>The same for results that carry values, and for whole polls.\<close>

definition calm :: "('a \<times> 'b \<times> 'f runtime) res \<Rightarrow> ('a \<times> 'b \<times> 'f bstate) res" where
  "calm r = and_then r (\<lambda>(a, b, rt). Inr (a, b, {}, rt))"

definition agrees :: "('f bstate \<Rightarrow> ('a \<times> 'b \<times> 'f bstate) res) \<Rightarrow> ('f runtime \<Rightarrow> ('a \<times> 'b \<times> 'f runtime) res) \<Rightarrow> bool" where
  "agrees g f \<longleftrightarrow> (\<forall>rt. g ({}, rt) = calm (f rt))"

lemma agreesD: "agrees g f \<Longrightarrow> g ({}, rt) = calm (f rt)"
  by (simp add: agrees_def)

lemma calm_simps [simp]: "calm (Inl e) = Inl e" "calm (Inr (a, b, rt)) = Inr (a, b, {}, rt)"
  by (simp_all add: calm_def)

lemma b_poll_with:
  assumes "agrees body_b body"
  shows "b_task_poll_with body_b p ({}, rt) = calmly (and_then (task_poll_with body p rt) (\<lambda>(_, rt). Inr rt))"
  by (simp add: b_task_poll_with_def task_poll_with_def calmly_def calm_def agreesD [OF assms] and_then_assoc split_def)

text \<open>What a destructor must respect, and what the client must.\<close>

locale borrowing_drop =
  fixes drop_b :: "'f bdrop" and drop_fn :: "'f drop_fn"
  assumes drop: "drop_b f ({}, rt) = calmly (drop_fn f rt)"
begin

lemma b_release: "b_task_release drop_b p ({}, rt) = calmly (task_drop drop_fn p rt)"
  by (auto simp: b_task_release_def task_drop_def task_release_def drop and_then_def Let_def split: sum.split option.split)

lemma b_spawn_run_eq:
  assumes "agrees body_b body"
  shows "b_spawn_run E body_b drop_b fut ({}, rt) = calmly (spawn_run E body drop_fn fut rt)"
  by (simp add: b_spawn_run_def spawn_run_def spawn_finish_eq calmly_def b_poll_with [OF assms] b_release and_then_assoc split_def)

end

locale borrowing_client = borrowing_drop drop_b drop_fn
  for drop_b :: "'f bdrop" and drop_fn :: "'f drop_fn" +
  fixes E :: "'f env" and poll_b :: "'f bpoll" and poll_fn :: "'f poll_fn"
  assumes poll: "agrees (poll_b f) (poll_fn f)"
begin

lemma b_poll: "b_task_poll poll_b p ({}, rt) = calmly (and_then (task_poll poll_fn p rt) (\<lambda>(_, rt). Inr rt))"
  by (simp add: b_task_poll_def task_poll_def b_poll_with [OF poll]) (simp add: calmly_def and_then_assoc)

lemma b_spawn_eq: "b_spawn E poll_b drop_b fut ({}, rt) = calmly (spawn E poll_fn drop_fn fut rt)"
  by (simp add: b_spawn_def spawn_def spawn_finish_eq calmly_def b_poll b_release and_then_assoc split_def)

lemma b_dispatch: "b_dispatch_cqe poll_b p info ({}, rt) = calmly (dispatch_cqe poll_fn p info rt)"
  by (auto simp: b_dispatch_cqe_def dispatch_cqe_def b_poll and_then_def Let_def split: sum.split SyscallNbCompResult.split)

lemma b_handle: "b_handle_cqe_entry E poll_b drop_b c ({}, rt) = calmly (handle_cqe_entry E poll_fn drop_fn c rt)"
  by (auto simp: b_handle_cqe_entry_def handle_cqe_entry_def b_dispatch b_release and_then_def Let_def split: sum.split)

lemma b_handle_all:
  "fold_res (\<lambda>c s. and_then (b_handle_cqe_entry E poll_b drop_b c s) (\<lambda>(_, s). Inr s)) cs ({}, rt) =
   and_then (fold_res (handle_cqe_entry E poll_fn drop_fn) cs rt) (\<lambda>rt. Inr ({}, rt))"
  by (induction cs arbitrary: rt) (simp_all add: b_handle calmly_then and_then_assoc)

lemma b_wake: "b_wake_one poll_b drop_b awake ({}, rt) = calmly (wake_one poll_fn drop_fn awake rt)"
  by (auto simp: b_wake_one_def wake_one_def b_poll b_release and_then_def split: sum.split)

lemma b_drain_step:
  "b_drain poll_b drop_b ({}, rt) =
     (case rt_wake_list rt of
        [] \<Rightarrow> Some (Inr ((), {}, rt))
      | awake # rest \<Rightarrow>
          (case wake_one poll_fn drop_fn awake (rt\<lparr>rt_wake_list := rest\<rparr>) of
             Inl e \<Rightarrow> Some (Inl e)
           | Inr rt' \<Rightarrow> b_drain poll_b drop_b ({}, rt')))"
  by (subst b_drain.simps) (auto simp: b_wake split: list.split sum.split)

lemma b_drain_to:
  assumes "drain_wake_list poll_fn drop_fn rt = Some r"
  shows "b_drain poll_b drop_b ({}, rt) = Some (calmly r)"
proof -
  have "p = poll_fn \<longrightarrow> d = drop_fn \<longrightarrow> b_drain poll_b drop_b ({}, rt) = Some (calmly r)"
    if "drain_wake_list p d rt = Some r" for p d rt r
  proof (rule drain_wake_list.raw_induct [OF _ that], goal_cases)
    case (1 drain p d rt r)
    then show ?case by (subst b_drain_step) (auto split: list.splits sum.splits)
  qed
  with assms show ?thesis by blast
qed

lemma b_drain_from:
  assumes "b_drain poll_b drop_b ({}, rt) = Some x"
  shows "drain_wake_list poll_fn drop_fn rt \<noteq> None"
proof -
  have "\<forall>rt. p = poll_b \<longrightarrow> d = drop_b \<longrightarrow> s = ({}, rt) \<longrightarrow> drain_wake_list poll_fn drop_fn rt \<noteq> None"
    if "b_drain p d s = Some x" for p d s x
  proof (rule b_drain.raw_induct [OF _ that], goal_cases)
    case (1 drain p d s x)
    show ?case
    proof (intro allI impI)
      fix rt assume eq: "p = poll_b" "d = drop_b" "s = ({}, rt)"
      show "drain_wake_list poll_fn drop_fn rt \<noteq> None"
        using 1(2) 1(1) unfolding eq
        by (subst drain_wake_list.simps) (auto simp: b_wake split: list.splits sum.splits)
    qed
  qed
  with assms show ?thesis by blast
qed

lemma b_drain_eq: "b_drain poll_b drop_b ({}, rt) = map_option calmly (drain_wake_list poll_fn drop_fn rt)"
proof (cases "drain_wake_list poll_fn drop_fn rt")
  case None
  then have "b_drain poll_b drop_b ({}, rt) = None" using b_drain_from [of rt] by (cases "b_drain poll_b drop_b ({}, rt)") auto
  then show ?thesis using None by simp
qed (simp add: b_drain_to)

lemma b_body:
  "b_loop_body E poll_b drop_b cs ({}, rt) =
     map_option (\<lambda>r. and_then r (\<lambda>(over, rt). Inr (over, {}, rt))) (loop_body E poll_fn drop_fn cs rt)"
proof (cases "free_unsed_slab_slot rt")
  case (Inr rt1)
  note eqs = b_loop_body_def loop_body_def b_handle_all b_drain_eq and_then_assoc
  show ?thesis
  proof (cases "fold_res (handle_cqe_entry E poll_fn drop_fn) cs rt1")
    case Inl
    then show ?thesis using Inr by (simp add: eqs)
  next
    case rt2: (Inr rt2)
    then show ?thesis using Inr by (auto simp: eqs split: option.split sum.split)
  qed
qed (simp add: b_loop_body_def loop_body_def)

lemma b_loop: "b_block_loop E poll_b drop_b kern n K ({}, rt) = block_loop E poll_fn drop_fn kern n K rt"
proof (induction n arbitrary: K rt)
  case (Suc n)
  show ?case
    by (auto simp: b_body Suc.IH Let_def split: sum.split kernel_turn.split option.split bool.split)
qed simp

lemma b_block_on_eq: "b_block_on E poll_b drop_b kern n fut ({}, rt) = block_on E poll_fn drop_fn kern n fut rt"
  by (auto simp: b_block_on_def block_on_def b_spawn_eq calmly_then b_loop and_then_def split: sum.split)

end

end
