(* ===== verification/Borrowed_Calls.thy ===== *)
theory Borrowed_Calls
  imports Borrowing
begin

text \<open>
  The borrow flags inside a poll. Every free function of \<open>runtime.rs\<close> that the futures of \<open>calls/\<close> use opens
  its own section of the runtime: the submissions, \<open>alloc_write_buffer\<close> and \<open>advance_syscall_nb\<close> an
  exclusive one, \<open>release_read_buf\<close> and the checkout of a read buffer a shared one. The context of the
  current task is a \<open>Cell\<close> and write buffers reach the pool through a pointer of their own, so neither
  borrows. Futures, bodies and destructors are run again in this way, a nested \<open>spawn\<close> with the poll of the
  child between its sections, and do what the definitions of \<open>Calls\<close> and \<open>Client\<close> do.
\<close>

subsection \<open>Sections of the free functions\<close>

definition exclusively :: "('f runtime \<Rightarrow> 'f runtime res) \<Rightarrow> 'f bstate \<Rightarrow> 'f bstate res" where
  "exclusively f s = and_then (with_borrow_mut Global_runtime (plain_unit f) s) (\<lambda>(_, s). Inr s)"

definition sharing :: "('f runtime \<Rightarrow> 'f runtime res) \<Rightarrow> 'f bstate \<Rightarrow> 'f bstate res" where
  "sharing f s = and_then (with_borrow Global_runtime (\<lambda>rt. and_then (f rt) (\<lambda>rt. Inr ((), rt))) s) (\<lambda>(_, s). Inr s)"

definition unborrowed :: "('f runtime \<Rightarrow> 'f runtime res) \<Rightarrow> 'f bstate \<Rightarrow> 'f bstate res" where
  "unborrowed f s = and_then (f (snd s)) (\<lambda>rt. Inr (fst s, rt))"

definition b_checkout_read :: "u32 \<Rightarrow> u32 \<Rightarrow> u32 \<Rightarrow> 'f bstate \<Rightarrow> (rw_buffer \<times> 'f bstate) res" where
  "b_checkout_read buf_id fd n =
     with_borrow Global_runtime (\<lambda>rt. and_then (checkout_read 1 buf_id fd n (rt_buffer rt)) (\<lambda>b. Inr (b, rt)))"

lemma free_sections [simp]:
  "exclusively f ({}, rt) = and_then (f rt) (\<lambda>rt. Inr ({}, rt))"
  "sharing f ({}, rt) = and_then (f rt) (\<lambda>rt. Inr ({}, rt))"
  "unborrowed f ({}, rt) = and_then (f rt) (\<lambda>rt. Inr ({}, rt))"
  "b_checkout_read i fd n ({}, rt) = and_then (checkout_read 1 i fd n (rt_buffer rt)) (\<lambda>b. Inr (b, {}, rt))"
  by (simp_all add: exclusively_def sharing_def unborrowed_def b_checkout_read_def calmly_def and_then_assoc del: One_nat_def)

subsection \<open>The futures\<close>

definition b_accept_poll :: "AcceptFuture \<Rightarrow> 'f bstate \<Rightarrow> (AcceptFuture \<times> u32 io_result poll_result \<times> 'f bstate) res" where
  "b_accept_poll self s =
     (case self of
        AF_Pending fd \<Rightarrow> and_then (exclusively (submit_accept fd) s) (\<lambda>s. Inr (AF_Submited, Poll_Pending, s))
      | AF_Submited \<Rightarrow>
          let r = current_result (snd s)
          in Inr (AF_Submited, Poll_Ready (if 0 \<le> sint r then Inr r else Inl r), s))"

definition b_accept_poll_next :: "'f env \<Rightarrow> AcceptStream \<Rightarrow> 'f bstate
    \<Rightarrow> (AcceptStream \<times> u32 option poll_result \<times> 'f bstate) res" where
  "b_accept_poll_next E self s =
     (case as_state self of
        SS_Init \<Rightarrow>
          and_then (exclusively (submit_accept_multishot (as_listen_fd self)) s) (\<lambda>s.
          Inr (self\<lparr>as_state := SS_Running\<rparr>, Poll_Pending, s))
      | SS_Running \<Rightarrow>
          let result = current_result (snd s)
          in if neg result then Inr (self\<lparr>as_state := SS_Done\<rparr>, Poll_Ready None, s)
             else Inr (if env_more E (current_cqe_flags (snd s)) then self
                       else self\<lparr>as_state := SS_Done\<rparr>, Poll_Ready (Some result), s)
      | SS_Done \<Rightarrow> Inr (self, Poll_Ready None, s))"

definition b_read_poll :: "'f env \<Rightarrow> ReadFuture \<Rightarrow> 'f bstate
    \<Rightarrow> (ReadFuture \<times> rw_buffer io_result poll_result \<times> 'f bstate) res" where
  "b_read_poll E self s =
     (case self of
        RF_Init fd \<Rightarrow> and_then (exclusively (submit_read fd) s) (\<lambda>s. Inr (RF_Pending fd, Poll_Pending, s))
      | RF_Pending fd \<Rightarrow>
          let bytes = current_result (snd s); flags = current_cqe_flags (snd s)
          in if sint bytes \<le> 0
             then and_then (case env_buffer_select E flags of
                              Some buf_id \<Rightarrow> sharing (release_read_buf (ucast buf_id)) s
                            | None \<Rightarrow> Inr s) (\<lambda>s.
                  Inr (self, Poll_Ready (Inl bytes), s))
             else and_then (expect Missing_buf_id (env_buffer_select E flags)) (\<lambda>buf_id.
                  and_then (b_checkout_read (ucast buf_id) fd bytes s) (\<lambda>(rwbuf, s).
                  Inr (self, Poll_Ready (Inr rwbuf), s))))"

definition b_read_poll_next :: "'f env \<Rightarrow> ReadStream \<Rightarrow> 'f bstate
    \<Rightarrow> (ReadStream \<times> rw_buffer option poll_result \<times> 'f bstate) res" where
  "b_read_poll_next E self s =
     (case rs_state self of
        SS_Init \<Rightarrow>
          and_then (exclusively (submit_recv_multishot (rs_fd self)) s) (\<lambda>s.
          Inr (self\<lparr>rs_state := SS_Running\<rparr>, Poll_Pending, s))
      | SS_Running \<Rightarrow>
          let result = current_result (snd s); flags = current_cqe_flags (snd s)
          in if neg result then Inr (self\<lparr>rs_state := SS_Done\<rparr>, Poll_Ready None, s)
             else and_then (expect Missing_buf_id (env_buffer_select E flags)) (\<lambda>buf_id.
                  and_then (b_checkout_read (ucast buf_id) (rs_fd self) result s) (\<lambda>(buf, s).
                  Inr (if env_more E flags then self else self\<lparr>rs_state := SS_Done\<rparr>,
                       Poll_Ready (Some buf), s)))
      | SS_Done \<Rightarrow> Inr (self, Poll_Ready None, s))"

definition b_commit_poll :: "CommitFuture \<Rightarrow> 'f bstate \<Rightarrow> (CommitFuture \<times> i32 poll_result \<times> 'f bstate) res" where
  "b_commit_poll self s =
     (case self of
        CF_Init ptr buf_idx fd_idx len \<Rightarrow>
          and_then (exclusively (submit_commit_write ptr fd_idx len (ucast buf_idx)) s) (\<lambda>s.
          Inr (CF_Pending buf_idx, Poll_Pending, s))
      | CF_Pending buf_idx \<Rightarrow>
          and_then (sharing (release_read_buf buf_idx) s) (\<lambda>s.
          Inr (self, Poll_Ready (current_result (snd s)), s)))"

definition b_write_poll :: "WriteFuture \<Rightarrow> 'f bstate \<Rightarrow> (WriteFuture \<times> i32 poll_result \<times> 'f bstate) res" where
  "b_write_poll self s =
     (case self of
        WF_Init fd buf_id len \<Rightarrow>
          and_then (exclusively (submit_write fd buf_id len) s) (\<lambda>s. Inr (WF_Pending, Poll_Pending, s))
      | WF_Pending \<Rightarrow> Inr (self, Poll_Ready (current_result (snd s)), s))"

definition b_write_multiple_poll :: "WriteMultipleFuture \<Rightarrow> 'f bstate
    \<Rightarrow> (WriteMultipleFuture \<times> WriteResult list poll_result \<times> 'f bstate) res" where
  "b_write_multiple_poll self s =
     (case self of
        WM_Init fds buffer len \<Rightarrow>
          and_then (unborrowed (clone_wbuffer buffer) s) (\<lambda>s.
          and_then (exclusively (submit_multiple_write fds buffer len) s) (\<lambda>s.
          Inr (WM_Pending \<lparr>wm_in_fligth_count = of_nat (length fds), wm_fds = fds, wm_faileds = [],
                           wm_len = len, wm_buffer = buffer\<rparr>, Poll_Pending, s)))
      | WM_Poisoned \<Rightarrow> Inl (Ub Unreachable_unchecked)
      | WM_Pending w \<Rightarrow>
          and_then (sub_ovf (wm_in_fligth_count w) 1) (\<lambda>left.
          let info = rt_current (snd s); gen = unat (ti_response_gen info)
          in and_then (assert_or Slice_index (gen < length (wm_fds w))) (\<lambda>_.
             let fd = wm_fds w ! gen
             in and_then (assert_or Duplicate_gen (fd \<noteq> U32_MAX)) (\<lambda>_.
                let w = w\<lparr>wm_in_fligth_count := left, wm_fds := (wm_fds w)[gen := U32_MAX],
                          wm_faileds := wm_faileds w @ write_failures fd (wm_len w) (ti_result info)\<rparr>
                in if left = 0
                   then and_then (exclusively (advance_syscall_nb (ti_tag info)) s) (\<lambda>(b, rt).
                        Inr (WM_Pending (w\<lparr>wm_faileds := []\<rparr>), Poll_Ready (wm_faileds w),
                             b, rt\<lparr>rt_current := set_to_next_task (rt_current rt)\<rparr>))
                   else Inr (WM_Pending w, Poll_Pending, s)))))"

definition b_socket_poll :: "u64 \<Rightarrow> SocketFuture \<Rightarrow> 'f bstate \<Rightarrow> (SocketFuture \<times> u32 poll_result \<times> 'f bstate) res" where
  "b_socket_poll local_addr self s =
     (case self of
        SF_CreateSocket addr \<Rightarrow>
          and_then (exclusively submit_socket s) (\<lambda>s. Inr (SF_Connecting 0 addr, Poll_Pending, s))
      | SF_Connecting fd addr \<Rightarrow>
          if fd = 0
          then let slot = current_result (snd s)
               in and_then (exclusively (submit_connect slot local_addr 16) s) (\<lambda>s.
                  Inr (SF_Connecting slot addr, Poll_Pending, s))
          else Inr (SF_Pending, Poll_Ready fd, s)
      | SF_Pending \<Rightarrow> Inl (Panic Unreachable))"

named_theorems futures_agree \<open>polls with borrow flags, from a state with nothing borrowed\<close>

lemma accept_agrees [futures_agree]: "agrees (b_accept_poll f) (accept_poll f)"
  by (cases f) (simp_all add: agrees_def calm_def b_accept_poll_def accept_poll_def Let_def and_then_assoc)

lemma accept_next_agrees [futures_agree]: "agrees (b_accept_poll_next E f) (accept_poll_next E f)"
  by (cases "as_state f") (simp_all add: agrees_def calm_def b_accept_poll_next_def accept_poll_next_def Let_def and_then_assoc)

lemma read_agrees [futures_agree]: "agrees (b_read_poll E f) (read_poll E f)"
  by (cases f) (auto simp: agrees_def calm_def b_read_poll_def read_poll_def Let_def and_then_assoc split: option.split simp del: One_nat_def)

lemma read_next_agrees [futures_agree]: "agrees (b_read_poll_next E f) (read_poll_next E f)"
  by (cases "rs_state f") (simp_all add: agrees_def calm_def b_read_poll_next_def read_poll_next_def Let_def and_then_assoc del: One_nat_def)

lemma commit_agrees [futures_agree]: "agrees (b_commit_poll f) (commit_poll f)"
  by (cases f) (simp_all add: agrees_def calm_def b_commit_poll_def commit_poll_def and_then_assoc)

lemma write_agrees [futures_agree]: "agrees (b_write_poll f) (write_poll f)"
  by (cases f) (simp_all add: agrees_def calm_def b_write_poll_def write_poll_def and_then_assoc)

lemma write_multiple_agrees [futures_agree]: "agrees (b_write_multiple_poll f) (write_multiple_poll f)"
  by (cases f)
    (simp_all add: agrees_def calm_def b_write_multiple_poll_def write_multiple_poll_def Let_def and_then_assoc
      if_distrib [where f = "\<lambda>r. and_then r _"] cong: if_cong)

lemma socket_agrees [futures_agree]: "agrees (b_socket_poll a f) (socket_poll a f)"
  by (cases f) (simp_all add: agrees_def calm_def b_socket_poll_def socket_poll_def Let_def and_then_assoc)

subsection \<open>Destructors\<close>

text \<open>Destructors: a read buffer borrows the runtime to give itself back, a write buffer reaches the pool
  through its own pointer.\<close>

definition b_rwbuffer_drop :: "rw_buffer \<Rightarrow> frame bstate \<Rightarrow> (unit \<times> frame bstate) res" where
  "b_rwbuffer_drop b s =
     (if rw_committed b then Inr ((), s)
      else and_then (sharing (release_read_buf (rw_buf_idx b)) s) (\<lambda>s. Inr ((), s)))"

definition b_drop_local :: "local_value \<Rightarrow> frame bstate \<Rightarrow> (unit \<times> frame bstate) res" where
  "b_drop_local l s = (case l of L_rw b \<Rightarrow> b_rwbuffer_drop b s | _ \<Rightarrow> plain_unit (drop_local l) s)"

definition b_drop_awaiting :: "awaiting \<Rightarrow> frame bstate \<Rightarrow> (unit \<times> frame bstate) res" where
  "b_drop_awaiting a s = (case a of Aw_commit b c k \<Rightarrow> b_rwbuffer_drop b s | _ \<Rightarrow> plain_unit (drop_awaiting a) s)"

definition b_frame_drop :: "frame bdrop" where
  "b_frame_drop fr s =
     and_then (case fr_state fr of Await a \<Rightarrow> b_drop_awaiting a s | _ \<Rightarrow> Inr ((), s)) (\<lambda>(_, s).
     and_then (fold_res (\<lambda>(_, l) s. and_then (b_drop_local l s) (\<lambda>(_, s). Inr s)) (fr_locals fr) s) (\<lambda>s.
     Inr ((), s)))"

lemma b_rw: "b_rwbuffer_drop b ({}, rt) = calmly (rwbuffer_drop b rt)"
  by (simp add: b_rwbuffer_drop_def rwbuffer_drop_def calmly_def and_then_assoc)

lemma b_local: "b_drop_local l ({}, rt) = calmly (drop_local l rt)"
  by (cases l) (simp_all add: b_drop_local_def drop_local_def b_rw plain_unit_def calmly_def)

lemma b_awaiting: "b_drop_awaiting a ({}, rt) = calmly (drop_awaiting a rt)"
  by (cases a) (simp_all add: b_drop_awaiting_def drop_awaiting_def b_rw plain_unit_def calmly_def)

lemma b_locals:
  "fold_res (\<lambda>(_, l) s. and_then (b_drop_local l s) (\<lambda>(_, s). Inr s)) ls ({}, rt) =
   and_then (drop_locals ls rt) (\<lambda>rt. Inr ({}, rt))"
  by (induction ls arbitrary: rt) (auto simp: drop_locals_def b_local calmly_then and_then_assoc)

lemma b_drop_frame: "b_frame_drop fr ({}, rt) = calmly (frame_drop fr rt)"
  by (cases "fr_state fr")
    (simp_all add: b_frame_drop_def frame_drop_def b_awaiting calmly_then b_locals and_then_assoc, simp_all add: calmly_def and_then_assoc)

interpretation frames: borrowing_drop b_frame_drop frame_drop
  by unfold_locales (rule b_drop_frame)

subsection \<open>Bodies\<close>

type_synonym b_step_result = "(frame \<times> bool \<times> frame bstate) res"

definition b_assign :: "nat \<Rightarrow> local_value \<Rightarrow> locals \<Rightarrow> frame bstate \<Rightarrow> (locals \<times> frame bstate) res" where
  "b_assign i l ls s =
     and_then (case map_of ls i of None \<Rightarrow> Inr ((), s) | Some old \<Rightarrow> b_drop_local old s) (\<lambda>(_, s).
     Inr ((i, l) # remove_local i ls, s))"

definition b_await_leaf :: "('leaf \<times> 'v poll_result \<times> frame bstate) res \<Rightarrow> ('leaf \<Rightarrow> awaiting) \<Rightarrow> locals
    \<Rightarrow> ('leaf \<Rightarrow> 'v \<Rightarrow> frame bstate \<Rightarrow> b_step_result) \<Rightarrow> b_step_result" where
  "b_await_leaf r wrap ls go =
     and_then r (\<lambda>(leaf, p, s).
     case p of
       Poll_Pending \<Rightarrow> Inr (\<lparr>fr_state = Await (wrap leaf), fr_locals = ls\<rparr>, False, s)
     | Poll_Ready v \<Rightarrow> go leaf v s)"

definition b_bind_buffer :: "nat \<Rightarrow> rw_buffer \<Rightarrow> locals \<Rightarrow> frame bstate
    \<Rightarrow> (u32 \<Rightarrow> locals \<Rightarrow> frame bstate \<Rightarrow> b_step_result) \<Rightarrow> b_step_result" where
  "b_bind_buffer j b ls s go = and_then (b_assign j (L_rw b) ls s) (\<lambda>(ls, s). go (rw_bytes b) ls s)"

definition b_poll_accept_next :: "frame env \<Rightarrow> nat \<Rightarrow> (u32 option \<Rightarrow> prog)
    \<Rightarrow> (u32 option \<Rightarrow> locals \<Rightarrow> frame bstate \<Rightarrow> b_step_result) \<Rightarrow> locals \<Rightarrow> frame bstate \<Rightarrow> b_step_result" where
  "b_poll_accept_next E i k go ls s =
     (case map_of ls i of
        Some (L_accept st) \<Rightarrow>
          and_then (b_accept_poll_next E st s) (\<lambda>(st', p, s).
          let ls = (i, L_accept st') # remove_local i ls
          in case p of
               Poll_Pending \<Rightarrow> Inr (\<lparr>fr_state = Await (Aw_accept_next i k), fr_locals = ls\<rparr>, False, s)
             | Poll_Ready v \<Rightarrow> go v ls s)
      | _ \<Rightarrow> Inl (Panic Client_panic))"

definition b_poll_read_next :: "frame env \<Rightarrow> nat \<Rightarrow> nat \<Rightarrow> (u32 option \<Rightarrow> prog)
    \<Rightarrow> (u32 option \<Rightarrow> locals \<Rightarrow> frame bstate \<Rightarrow> b_step_result) \<Rightarrow> locals \<Rightarrow> frame bstate \<Rightarrow> b_step_result" where
  "b_poll_read_next E i j k go ls s =
     (case map_of ls i of
        Some (L_read st) \<Rightarrow>
          and_then (b_read_poll_next E st s) (\<lambda>(st', p, s).
          let ls = (i, L_read st') # remove_local i ls
          in case p of
               Poll_Pending \<Rightarrow> Inr (\<lparr>fr_state = Await (Aw_read_next i j k), fr_locals = ls\<rparr>, False, s)
             | Poll_Ready None \<Rightarrow> go None ls s
             | Poll_Ready (Some b) \<Rightarrow> b_bind_buffer j b ls s (\<lambda>n. go (Some n)))
      | _ \<Rightarrow> Inl (Panic Client_panic))"

definition b_read_done :: "nat \<Rightarrow> rw_buffer io_result \<Rightarrow> locals \<Rightarrow> frame bstate
    \<Rightarrow> (u32 io_result \<Rightarrow> locals \<Rightarrow> frame bstate \<Rightarrow> b_step_result) \<Rightarrow> b_step_result" where
  "b_read_done j v ls s go =
     (case v of Inl e \<Rightarrow> go (Inl e) ls s | Inr b \<Rightarrow> b_bind_buffer j b ls s (\<lambda>n. go (Inr n)))"

definition b_drop_locals :: "locals \<Rightarrow> frame bstate \<Rightarrow> frame bstate res" where
  "b_drop_locals = fold_res (\<lambda>(_, l) s. and_then (b_drop_local l s) (\<lambda>(_, s). Inr s))"

primrec b_run :: "frame env \<Rightarrow> prog \<Rightarrow> locals \<Rightarrow> frame bstate \<Rightarrow> b_step_result" where
  "b_run E Done ls s =
     and_then (b_drop_locals ls s) (\<lambda>s. Inr (\<lparr>fr_state = Stopped, fr_locals = []\<rparr>, True, s))"
| "b_run E Crash ls s = Inl (Panic Client_panic)"
| "b_run E Forever ls s = Inr (\<lparr>fr_state = Await Aw_forever, fr_locals = ls\<rparr>, False, s)"
| "b_run E (Accept fd k) ls s =
     b_await_leaf (b_accept_poll (accept fd) s) (\<lambda>f. Aw_accept f k) ls (\<lambda>_ v. b_run E (k v) ls)"
| "b_run E (Read fd j k) ls s =
     b_await_leaf (b_read_poll E (read fd) s) (\<lambda>f. Aw_read f j k) ls
       (\<lambda>_ v s. b_read_done j v ls s (\<lambda>v. b_run E (k v)))"
| "b_run E (Accept_stream i fd k) ls s =
     and_then (b_assign i (L_accept (accept_stream fd)) ls s) (\<lambda>(ls, s). b_run E k ls s)"
| "b_run E (Accept_next i k) ls s = b_poll_accept_next E i k (\<lambda>v. b_run E (k v)) ls s"
| "b_run E (Read_stream i fd k) ls s =
     and_then (b_assign i (L_read (read_stream fd)) ls s) (\<lambda>(ls, s). b_run E k ls s)"
| "b_run E (Read_next i j k) ls s = b_poll_read_next E i j k (\<lambda>v. b_run E (k v)) ls s"
| "b_run E (Commit i len k) ls s =
     (case map_of ls i of
        Some (L_rw b) \<Rightarrow>
          (case rwbuffer_commit b len of (b, c) \<Rightarrow>
            b_await_leaf (b_commit_poll c s) (\<lambda>f. Aw_commit b f k) (remove_local i ls)
              (\<lambda>_ v s. and_then (b_rwbuffer_drop b s) (\<lambda>(_, s). b_run E (k v) (remove_local i ls) s)))
      | _ \<Rightarrow> Inl (Panic Client_panic))"
| "b_run E (Write fd b len k) ls s =
     b_await_leaf (b_write_poll (write_fn fd b len) s) (\<lambda>f. Aw_write f k) ls (\<lambda>_ v. b_run E (k v) ls)"
| "b_run E (Connect ip port a k) ls s =
     b_await_leaf (b_socket_poll a (connect ip port) s) (\<lambda>f. Aw_connect a f k) ls (\<lambda>_ v. b_run E (k v) ls)"
| "b_run E (Alloc_write i k) ls s =
     and_then (with_borrow_mut Global_runtime (plain alloc_write_buffer) s) (\<lambda>(w, s).
     and_then (b_assign i (L_w w) ls s) (\<lambda>(ls, s). b_run E k ls s))"
| "b_run E (Clone_write i j k) ls s =
     (case map_of ls i of
        Some (L_w w) \<Rightarrow>
          and_then (unborrowed (clone_wbuffer w) s) (\<lambda>s.
          and_then (b_assign j (L_w w) ls s) (\<lambda>(ls, s). b_run E k ls s))
      | _ \<Rightarrow> Inl (Panic Client_panic))"
| "b_run E (Write_multiple i fds len k) ls s =
     (case map_of ls i of
        Some (L_w w) \<Rightarrow>
          b_await_leaf (b_write_multiple_poll (write_multiple fds w len) s) (\<lambda>f. Aw_write_multiple f k)
            (remove_local i ls)
            (\<lambda>f v s. and_then (unborrowed (write_multiple_drop f) s) (b_run E (k v) (remove_local i ls)))
      | _ \<Rightarrow> Inl (Panic Client_panic))"
| "b_run E (Drop_local i k) ls s =
     (case map_of ls i of
        Some l \<Rightarrow> and_then (b_drop_local l s) (\<lambda>(_, s). b_run E k (remove_local i ls) s)
      | None \<Rightarrow> Inl (Panic Client_panic))"
| "b_run E (Spawn moved child k) ls s =
     (let theirs = filter (\<lambda>(i, _). i \<in> set moved) ls;
          ours = filter (\<lambda>(i, _). i \<notin> set moved) ls
      in and_then (b_spawn_run E (b_run E child theirs) b_frame_drop
                     \<lparr>fr_state = Start child, fr_locals = theirs\<rparr> s)
           (\<lambda>(_, s). b_run E k ours s))"

definition b_resume :: "frame env \<Rightarrow> awaiting \<Rightarrow> locals \<Rightarrow> frame bstate \<Rightarrow> b_step_result" where
  "b_resume E a ls s =
     (case a of
        Aw_forever \<Rightarrow> Inr (\<lparr>fr_state = Await Aw_forever, fr_locals = ls\<rparr>, False, s)
      | Aw_accept f k \<Rightarrow>
          b_await_leaf (b_accept_poll f s) (\<lambda>f. Aw_accept f k) ls (\<lambda>_ v. b_run E (k v) ls)
      | Aw_read f j k \<Rightarrow>
          b_await_leaf (b_read_poll E f s) (\<lambda>f. Aw_read f j k) ls
            (\<lambda>_ v s. b_read_done j v ls s (\<lambda>v. b_run E (k v)))
      | Aw_accept_next i k \<Rightarrow> b_poll_accept_next E i k (\<lambda>v. b_run E (k v)) ls s
      | Aw_read_next i j k \<Rightarrow> b_poll_read_next E i j k (\<lambda>v. b_run E (k v)) ls s
      | Aw_commit b f k \<Rightarrow>
          b_await_leaf (b_commit_poll f s) (\<lambda>f. Aw_commit b f k) ls
            (\<lambda>_ v s. and_then (b_rwbuffer_drop b s) (\<lambda>(_, s). b_run E (k v) ls s))
      | Aw_write f k \<Rightarrow> b_await_leaf (b_write_poll f s) (\<lambda>f. Aw_write f k) ls (\<lambda>_ v. b_run E (k v) ls)
      | Aw_connect adr f k \<Rightarrow>
          b_await_leaf (b_socket_poll adr f s) (\<lambda>f. Aw_connect adr f k) ls (\<lambda>_ v. b_run E (k v) ls)
      | Aw_write_multiple f k \<Rightarrow>
          b_await_leaf (b_write_multiple_poll f s) (\<lambda>f. Aw_write_multiple f k) ls
            (\<lambda>f v s. and_then (unborrowed (write_multiple_drop f) s) (b_run E (k v) ls)))"

definition b_frame_poll :: "frame env \<Rightarrow> frame bpoll" where
  "b_frame_poll E fr s =
     (case fr_state fr of
        Start p \<Rightarrow> b_run E p (fr_locals fr) s
      | Await a \<Rightarrow> b_resume E a (fr_locals fr) s
      | Stopped \<Rightarrow> Inl (Panic Resumed_after_completion))"

subsection \<open>They do what the bodies do\<close>

lemma calm_then: "and_then (calm r) (\<lambda>(a, b, s). f a b s) = and_then r (\<lambda>(a, b, rt). f a b ({}, rt))"
  by (simp add: calm_def and_then_assoc split_def)

lemma then_calm: "calm (and_then m f) = and_then m (\<lambda>x. calm (f x))"
  by (simp add: calm_def and_then_assoc)

lemma b_assign_eq: "b_assign i l ls ({}, rt) = and_then (assign i l ls rt) (\<lambda>(ls, rt). Inr (ls, {}, rt))"
  by (cases "map_of ls i") (simp_all add: b_assign_def assign_def b_local calmly_then and_then_assoc)

lemma agrees_leaf:
  assumes "agrees g f" "\<And>leaf v. agrees (go_b leaf v) (go leaf v)"
  shows "b_await_leaf (g ({}, rt)) wrap ls go_b = calm (await_leaf (f rt) wrap ls go)"
  using agreesD [OF assms(2)]
  by (auto simp: b_await_leaf_def await_leaf_def agreesD [OF assms(1)] and_then_def split: sum.split poll_result.split)

lemma agrees_bind:
  assumes "\<And>n ls. agrees (go_b n ls) (go n ls)"
  shows "b_bind_buffer j b ls ({}, rt) go_b = calm (bind_buffer j b ls rt go)"
  by (simp add: b_bind_buffer_def bind_buffer_def b_assign_eq and_then_assoc then_calm split_def agreesD [OF assms])

lemma agrees_read_done:
  assumes "\<And>v ls. agrees (go_b v ls) (go v ls)"
  shows "agrees (\<lambda>s. b_read_done j v ls s go_b) (\<lambda>rt. read_done j v ls rt go)"
  using agrees_bind [of "\<lambda>n. go_b (Inr n)" "\<lambda>n. go (Inr n)"] assms
  by (cases v) (simp_all add: agrees_def b_read_done_def read_done_def)

lemma agrees_accept_next:
  assumes "\<And>v ls. agrees (go_b v ls) (go v ls)"
  shows "agrees (b_poll_accept_next E i k go_b ls) (poll_accept_next E i k go ls)"
  by (auto simp: agrees_def b_poll_accept_next_def poll_accept_next_def agreesD [OF accept_next_agrees] agreesD [OF assms]
      calm_then then_calm Let_def intro!: arg_cong [where f = "and_then _"] split: poll_result.split option.split local_value.split)

lemma agrees_read_next:
  assumes "\<And>v ls. agrees (go_b v ls) (go v ls)"
  shows "agrees (b_poll_read_next E i j k go_b ls) (poll_read_next E i j k go ls)"
  by (auto simp: agrees_def b_poll_read_next_def poll_read_next_def agreesD [OF read_next_agrees] agreesD [OF assms]
      agrees_bind [of "\<lambda>n. go_b (Some n)" "\<lambda>n. go (Some n)", OF assms]
      calm_then then_calm Let_def intro!: arg_cong [where f = "and_then _"] split: poll_result.split option.split local_value.split)

lemma b_drop_locals_eq: "b_drop_locals ls ({}, rt) = and_then (drop_locals ls rt) (\<lambda>rt. Inr ({}, rt))"
  by (simp add: b_drop_locals_def b_locals)

lemmas runs_alike = b_assign_eq b_drop_locals_eq b_rw b_local calmly_then then_calm and_then_assoc split_def

text \<open>After an assignment, and after each kind of await.\<close>

lemma agrees_assign:
  assumes "\<And>ls. agrees (go_b ls) (go ls)"
  shows "and_then (b_assign i l ls ({}, rt)) (\<lambda>(ls, s). go_b ls s) = calm (and_then (assign i l ls rt) (\<lambda>(ls, rt). go ls rt))"
  by (simp add: runs_alike agreesD [OF assms])

lemma agrees_read:
  assumes "\<And>v ls. agrees (go_b v ls) (go v ls)"
  shows "b_await_leaf (b_read_poll E f ({}, rt)) wrap ls (\<lambda>_ v s. b_read_done j v ls s go_b) =
    calm (await_leaf (read_poll E f rt) wrap ls (\<lambda>_ v rt. read_done j v ls rt go))"
  by (rule agrees_leaf [OF read_agrees agrees_read_done [OF assms]])

lemma agrees_commit:
  assumes "\<And>v. agrees (go_b v) (go v)"
  shows "b_await_leaf (b_commit_poll f ({}, rt)) wrap ls (\<lambda>_ v s. and_then (b_rwbuffer_drop b s) (\<lambda>(_, s). go_b v s)) =
    calm (await_leaf (commit_poll f rt) wrap ls (\<lambda>_ v rt. and_then (rwbuffer_drop b rt) (go v)))"
  by (rule agrees_leaf [OF commit_agrees]) (simp add: agrees_def runs_alike agreesD [OF assms])

lemma agrees_write_multiple:
  assumes "\<And>v. agrees (go_b v) (go v)"
  shows "b_await_leaf (b_write_multiple_poll f ({}, rt)) wrap ls (\<lambda>f v s. and_then (unborrowed (write_multiple_drop f) s) (go_b v)) =
    calm (await_leaf (write_multiple_poll f rt) wrap ls (\<lambda>f v rt. and_then (write_multiple_drop f rt) (go v)))"
  by (rule agrees_leaf [OF write_multiple_agrees]) (simp add: agrees_def runs_alike agreesD [OF assms])

lemmas agrees_awaits = agrees_leaf [OF accept_agrees] agrees_leaf [OF write_agrees] agrees_leaf [OF socket_agrees]
  agrees_read agrees_commit agrees_write_multiple agreesD [OF agrees_accept_next] agreesD [OF agrees_read_next]

lemma run_agrees: "agrees (b_run E p ls) (run E p ls)"
proof (induction p arbitrary: ls)
  case (Accept_stream i fd k)
  show ?case unfolding agrees_def by (simp add: agrees_assign [OF Accept_stream.IH])
next
  case (Read_stream i fd k)
  show ?case unfolding agrees_def by (simp add: agrees_assign [OF Read_stream.IH])
next
  case (Alloc_write i k)
  show ?case unfolding agrees_def by (simp add: runs_alike agreesD [OF Alloc_write.IH])
next
  case (Clone_write i j k)
  show ?case unfolding agrees_def
    by (auto simp: runs_alike agreesD [OF Clone_write.IH] split: option.split local_value.split)
next
  case (Drop_local i k)
  show ?case unfolding agrees_def by (auto simp: runs_alike agreesD [OF Drop_local.IH] split: option.split)
next
  case (Spawn moved child k)
  show ?case
    by (simp add: agrees_def runs_alike Let_def frames.b_spawn_run_eq [OF Spawn.IH(1)] agreesD [OF Spawn.IH(2)])
next
  case Done
  show ?case by (simp add: agrees_def runs_alike)
qed (auto simp: agrees_def [of "b_run E _ _"] agrees_awaits rwbuffer_commit_def split: option.split local_value.split)

lemma resume_agrees: "agrees (b_resume E a ls) (resume E a ls)"
  by (cases a) (simp_all add: agrees_def [of "b_resume E _ _"] b_resume_def resume_def agrees_awaits run_agrees)

lemma frame_poll_agrees: "agrees (b_frame_poll E fr) (frame_poll E fr)"
  using agreesD [OF run_agrees] agreesD [OF resume_agrees]
  by (cases "fr_state fr") (simp_all add: agrees_def b_frame_poll_def frame_poll_def)

interpretation bodies: borrowing_client b_frame_drop frame_drop E "b_frame_poll E" "frame_poll E" for E
  by unfold_locales (rule frame_poll_agrees)

text \<open>The flags matter: under an exclusive borrow of the runtime no call of the crate gets through.\<close>

lemma polled_under_borrow:
  assumes "Global_runtime \<in> B"
  shows "b_frame_poll E (async_block (Accept fd k)) (B, rt) = Inl (Panic Already_borrowed)"
    "b_frame_poll E (async_block (Alloc_write i p)) (B, rt) = Inl (Panic Already_borrowed)"
    "b_frame_poll E (async_block (Spawn moved child p)) (B, rt) = Inl (Panic Already_borrowed)"
  using assms
  by (simp_all add: b_frame_poll_def async_block_def b_await_leaf_def b_accept_poll_def accept_def exclusively_def
      with_borrow_mut_def b_spawn_run_def)

text \<open>A waker that holds the last reference of a task whose body holds a read buffer cannot be dropped.\<close>

theorem waker_drop_reborrows:
  assumes "slab_index (up_task_idx w) (rt_tasks rt) = Inr p" "rt_heap rt p = Some t" "ref_counter t = 1"
    "fr_state (task_fut t) = Await Aw_forever" "fr_locals (task_fut t) = (i, L_rw b) # ls" "\<not> rw_committed b"
  shows "b_waker_drop b_frame_drop w ({}, rt) = Inl (Panic Already_borrowed)"
  using assms
  by (simp add: b_waker_drop_def with_borrow_mut_def b_task_release_def task_deref_def sub_ovf_def b_frame_drop_def
      b_drop_awaiting_def drop_awaiting_def plain_unit_def b_drop_local_def b_rwbuffer_drop_def sharing_def with_borrow_def Let_def)

theorem waker_drop_reborrows_witness:
  "\<exists>rt. b_waker_drop b_frame_drop \<lparr>up_task_idx = 0, up_response_gen = 0, up_syscall_nb = 0\<rparr> ({}, rt) = Inl (Panic Already_borrowed)"
proof -
  let ?b = "\<lparr>rw_ptr = 0, rw_buf_idx = 0, rw_fd_idx = 3, rw_bytes = 5, rw_committed = False\<rparr>"
  let ?t = "\<lparr>task_fut = \<lparr>fr_state = Await Aw_forever, fr_locals = [(0, L_rw ?b)]\<rparr>, alloc_size = 96, ref_counter = 1,
    syscall_nb = 0, slab_idx = Some 0\<rparr>"
  let ?rt = "demo_rt\<lparr>rt_heap := [0x1000 \<mapsto> ?t], rt_tasks := \<lparr>slots = [0x1000, 5], slab_head = 1, slab_len = 2, task_count = 1\<rparr>\<rparr>"
  have "slab_index 0 (rt_tasks ?rt) = Inr 0x1000" by (simp add: slab_index_def slot_at_def eval_slots)
  then have "b_waker_drop b_frame_drop \<lparr>up_task_idx = 0, up_response_gen = 0, up_syscall_nb = 0\<rparr> ({}, ?rt) = Inl (Panic Already_borrowed)"
    by (intro waker_drop_reborrows [where p = "0x1000" and t = ?t and i = 0 and b = ?b and ls = "[]"]) simp_all
  then show ?thesis by blast
qed

end
