(* ===== verification/Isolation.thy ===== *)
theory Isolation
  imports Ownership Read_Ownership
begin

text \<open>
  Where handles point. A third instance of \<open>resource\<close> shows for every body that the pointer in each
  handle is the address of the pool's buffer with the handle's index. Together with the ownership of
  read and write buffers it follows that the memory a body can reach through a read buffer is reached
  by no other handle and is not offered to the kernel.
\<close>

subsection \<open>Handles with their addresses\<close>

definition rw_place :: "rw_buffer \<Rightarrow> u32 \<times> u64" where
  "rw_place b = (rw_buf_idx b, rw_ptr b)"

definition w_place :: "w_buffer \<Rightarrow> u32 \<times> u64" where
  "w_place w = (w_abs_idx w, w_ptr w)"

definition place_local :: "local_value \<Rightarrow> (u32 \<times> u64) multiset" where
  "place_local l = (case l of L_rw b \<Rightarrow> {#rw_place b#} | L_w w \<Rightarrow> {#w_place w#} | _ \<Rightarrow> {#})"

definition place_fan_out :: "WriteMultipleFuture \<Rightarrow> (u32 \<times> u64) multiset" where
  "place_fan_out f =
     (case f of WM_Init fds b len \<Rightarrow> {#w_place b#} | WM_Pending s \<Rightarrow> {#w_place (wm_buffer s)#} | WM_Poisoned \<Rightarrow> {#})"

text \<open>The buffer inside a commit, under the index that the future will release.\<close>

definition commit_idx :: "CommitFuture \<Rightarrow> u32" where
  "commit_idx f = (case f of CF_Init ptr i fd len \<Rightarrow> i | CF_Pending i \<Rightarrow> i)"

definition place_awaiting :: "awaiting \<Rightarrow> (u32 \<times> u64) multiset" where
  "place_awaiting a =
     (case a of Aw_commit b f k \<Rightarrow> {#(commit_idx f, rw_ptr b)#} | Aw_write_multiple f k \<Rightarrow> place_fan_out f | _ \<Rightarrow> {#})"

definition at_place :: "u64 \<Rightarrow> u32 \<times> u64 \<Rightarrow> bool" where
  "at_place base x \<longleftrightarrow> snd x = base + of_nat (unat (fst x) * BUF_SIZE 1)"

definition placed :: "u64 \<Rightarrow> (u32 \<times> u64) multiset \<Rightarrow> rt \<Rightarrow> bool" where
  "placed base H rt \<longleftrightarrow> pool_base (rt_buffer rt) = base \<and> (\<forall>x \<in># H. at_place base x)"

lemma place_local_simps [simp]:
  "place_local (L_w w) = {#w_place w#}" "place_local (L_rw b) = {#rw_place b#}" "place_local (L_accept sa) = {#}"
  "place_local (L_read sr) = {#}"
  by (simp_all add: place_local_def)

lemma placed_simps [simp]:
  "placed c (H + H') rt \<longleftrightarrow> placed c H rt \<and> placed c H' rt" "placed c (add_mset x H) rt \<longleftrightarrow> at_place c x \<and> placed c H rt"
  "placed c {#} rt \<longleftrightarrow> pool_base (rt_buffer rt) = c"
  by (auto simp: placed_def)

lemma placed_base: "placed c H rt \<Longrightarrow> pool_base (rt_buffer rt) = c"
  by (simp add: placed_def)

subsection \<open>Operations that leave the pool where it is\<close>

definition rooted :: "'f runtime \<Rightarrow> ('a \<Rightarrow> 'f runtime) \<Rightarrow> 'a res \<Rightarrow> bool" where
  "rooted rt sel r \<longleftrightarrow> (\<forall>x. r = Inr x \<longrightarrow> pool_base (rt_buffer (sel x)) = pool_base (rt_buffer rt))"

named_theorems rooted_intros \<open>operations that leave the pool where it is\<close>

lemma rooted_simps [simp]:
  "rooted rt sel (Inr x) \<longleftrightarrow> pool_base (rt_buffer (sel x)) = pool_base (rt_buffer rt)" "rooted rt sel (Inl e)"
  by (simp_all add: rooted_def)

lemma rooted_and_then:
  "rooted rt id m \<Longrightarrow> (\<And>rt'. rooted rt' sel (f rt')) \<Longrightarrow> rooted rt sel (and_then m f)"
  by (cases m) (auto simp: rooted_def)

lemma rooted_still: "still rt sel r \<Longrightarrow> rooted rt sel r"
  by (cases r) (auto simp: untouched_def)

text \<open>These claims are about results only, so no fault counts against them.\<close>

definition no_fault :: "fault \<Rightarrow> bool" where
  "no_fault e \<longleftrightarrow> False"

lemma no_fault [simp]: "\<not> no_fault e"
  by (simp add: no_fault_def)

lemma rooted_placed: "rooted rt sel r \<Longrightarrow> placed c H rt \<Longrightarrow> meets no_fault (\<lambda>x. placed c H (sel x)) r"
  by (cases r) (simp_all add: placed_def)

lemma rooted_buffers [rooted_intros]:
  "rooted rt id (release_read_buf i rt)" "rooted rt id (rwbuffer_drop b rt)" "rooted rt id (drop_wbuffer w rt)"
  "rooted rt id (clone_wbuffer w rt)" "rooted rt snd (alloc_write_buffer rt)" "rooted rt id (write_multiple_drop f rt)"
proof -
  show r: "rooted rt id (release_read_buf i rt)" for i
    by (auto simp: rooted_def release_read_buf_def res_simps)
  show "rooted rt id (rwbuffer_drop b rt)" using r by (simp add: rwbuffer_drop_def)
  show d: "rooted rt id (drop_wbuffer w rt)" for w
    using write_side(6) [of w "rt_buffer rt"] by (auto simp: rooted_def drop_wbuffer_def on_pool_def res_simps)
  show "rooted rt id (clone_wbuffer w rt)"
    using write_side(5) [of w "rt_buffer rt"] by (auto simp: rooted_def clone_wbuffer_def on_pool_def res_simps)
  show "rooted rt snd (alloc_write_buffer rt)"
    using write_side(4) [of 1 "rt_buffer rt"] by (auto simp: rooted_def alloc_write_buffer_def res_simps)
  show "rooted rt id (write_multiple_drop f rt)" using d by (cases f) (simp_all add: write_multiple_drop_def)
qed

lemma rooted_send_writes [rooted_intros]: "rooted rt id (send_writes ud w len k fds rt)"
proof (induction fds arbitrary: k rt)
  case (Cons fd fds)
  show ?case unfolding send_writes.simps wbuffer_write_def and_then_assoc
    by (rule rooted_and_then [OF rooted_buffers(4)], rule rooted_and_then [OF rooted_buffers(3)])
      (use Cons.IH [where rt = "sqe_queue_push e rt" for e rt] in \<open>simp add: rooted_def sqe_queue_push_def\<close>)
qed simp

lemma rooted_fan_out [rooted_intros]: "rooted rt (snd \<circ> snd) (write_multiple_poll f rt)" for rt :: rt
proof (cases f)
  case (WM_Init fds b len)
  have send: "rooted rt1 id (send_multiple_write fds b len rt1)" for rt1 :: rt
    unfolding send_multiple_write_def Let_def
    by (rule rooted_and_then [OF rooted_send_writes], rule rooted_and_then [OF rooted_still [OF still_headers(2)]])
      (auto intro: rooted_intros)
  show ?thesis unfolding write_multiple_poll_def WM_Init WriteMultipleFuture.case submits
    by (rule rooted_and_then [OF rooted_buffers(4)], rule rooted_and_then [OF send]) simp
next
  case (WM_Pending s)
  then show ?thesis
    by (auto simp: rooted_def write_multiple_poll_def advance_syscall_nb_def Let_def res_simps
        dest!: with_task_alone split: if_splits)
qed (simp add: write_multiple_poll_def)

lemma rooted_polls [rooted_intros]:
  "rooted rt (snd \<circ> snd) (commit_poll fc rt)" "rooted rt (snd \<circ> snd) (read_poll E fr rt)"
  "rooted rt (snd \<circ> snd) (read_poll_next E s rt)" for rt :: rt
proof -
  show "rooted rt (snd \<circ> snd) (commit_poll fc rt)"
    by (cases fc) (auto simp: commit_poll_def intro!: rooted_and_then [OF rooted_still [OF still_sends(6)]]
        rooted_and_then [OF rooted_buffers(1)])
  show "rooted rt (snd \<circ> snd) (read_poll E fr rt)"
    using rooted_still [OF still_sends(1), of rt] rooted_buffers(1) [of rt]
    by (cases fr) (auto simp: rooted_def read_poll_def Let_def res_simps split: if_splits option.splits)
  show "rooted rt (snd \<circ> snd) (read_poll_next E s rt)"
    using rooted_still [OF still_multishot(1), of rt]
    by (auto simp: rooted_def read_poll_next_def Let_def res_simps split: if_splits stream_state.splits)
qed

text \<open>New handles point to their buffer.\<close>

lemma placed_checkout: "checkout_read 1 i fd n (rt_buffer rt) = Inr b \<Longrightarrow> at_place (pool_base (rt_buffer rt)) (rw_place b)"
  by (auto simp: checkout_read_def res_simps at_place_def rw_place_def buf_addr_def)

lemma placed_alloc:
  assumes "placed c G rt"
  shows "meets no_fault (\<lambda>(w, rt). placed c (add_mset (w_place w) G) rt) (alloc_write_buffer rt)"
proof (rule meets_cases)
  fix x assume x: "alloc_write_buffer rt = Inr x"
  then have "at_place (pool_base (rt_buffer rt)) (w_place (fst x))"
    by (auto simp: alloc_write_buffer_def alloc_write_def res_simps at_place_def w_place_def buf_addr_def split: list.splits)
  then show "case x of (w, rt) \<Rightarrow> placed c (add_mset (w_place w) G) rt"
    using rooted_placed [OF rooted_buffers(5) assms] placed_base [OF assms] x by (auto simp: split_def)
qed simp

lemma read_places:
  assumes "placed c G rt"
  shows "read_poll E f rt = Inr (f', Poll_Ready (Inr b), rt') \<Longrightarrow> at_place c (rw_place b)"
    and "read_poll_next E s rt = Inr (s', Poll_Ready (Some b), rt'') \<Longrightarrow> at_place c (rw_place b)"
  unfolding placed_base [OF assms, symmetric]
  by (auto simp: read_poll_def read_poll_next_def Let_def res_simps simp del: One_nat_def intro: placed_checkout
      split: ReadFuture.splits if_splits stream_state.splits)

lemma placed_read:
  assumes "placed c G rt"
  shows "meets no_fault (\<lambda>(f, p, rt). placed c ((case p of Poll_Ready (Inr b) \<Rightarrow> {#rw_place b#} | _ \<Rightarrow> {#}) + G) rt) (read_poll E f rt)"
proof (rule meets_cases)
  fix x assume "read_poll E f rt = Inr x"
  then show "case x of (f, p, rt) \<Rightarrow> placed c ((case p of Poll_Ready (Inr b) \<Rightarrow> {#rw_place b#} | _ \<Rightarrow> {#}) + G) rt"
    using rooted_placed [OF rooted_polls(2) assms, of E f] read_places(1) [OF assms, of E f]
    by (cases x) (auto simp: placed_base split: poll_result.split sum.split)
qed simp

lemma placed_item:
  assumes "placed c G rt"
  shows "meets no_fault (\<lambda>(s, p, rt). placed c ((case p of Poll_Ready (Some b) \<Rightarrow> {#rw_place b#} | _ \<Rightarrow> {#}) + G) rt) (read_poll_next E s rt)"
proof (rule meets_cases)
  fix x assume "read_poll_next E s rt = Inr x"
  then show "case x of (s, p, rt) \<Rightarrow> placed c ((case p of Poll_Ready (Some b) \<Rightarrow> {#rw_place b#} | _ \<Rightarrow> {#}) + G) rt"
    using rooted_placed [OF rooted_polls(3) assms, of E s] read_places(2) [OF assms, of E s]
    by (cases x) (auto simp: placed_base split: poll_result.split option.split)
qed simp

lemma fan_out_same_buffer:
  "write_multiple_poll fm rt = Inr (f, p, rt') \<Longrightarrow> place_fan_out f = place_fan_out fm"
  by (auto simp: write_multiple_poll_def place_fan_out_def Let_def res_simps split: WriteMultipleFuture.splits if_splits)

lemma commit_same_buffer: "commit_poll fc rt = Inr (f, p, rt') \<Longrightarrow> commit_idx f = commit_idx fc"
  by (auto simp: commit_poll_def commit_idx_def res_simps split: CommitFuture.splits)

lemma rooted_drop_awaiting: "rooted rt id (drop_awaiting a rt)"
  by (cases a) (simp_all add: drop_awaiting_def rooted_intros)

subsection \<open>The contract holds\<close>

interpretation places: resource E no_fault placed place_local place_awaiting "\<lambda>_. {#}" "\<lambda>_. {#}" True
    "\<lambda>_ _ _. True" "\<lambda>c _. c"
  for E
proof (unfold_locales, goal_cases)
  case (2 rt' rt c H)
  then show ?case by (simp add: placed_def)
next
  case (13 c b G rt)
  then show ?case using rooted_placed [OF rooted_buffers(2), of c G rt b] by simp
next
  case (14 c w G rt)
  then show ?case using rooted_placed [OF rooted_buffers(3), of c G rt w] by simp
next
  case (15 c G rt)
  then show ?case using placed_alloc by simp
next
  case (16 c w G rt)
  then show ?case using rooted_placed [OF rooted_buffers(4), of c "add_mset (w_place w) (add_mset (w_place w) G)" rt w]
    by (cases "clone_wbuffer w rt") simp_all
next
  case (18 c fm km G rt)
  then show ?case using rooted_placed [OF rooted_fan_out [of rt fm]] fan_out_same_buffer [of fm rt]
    by (cases "write_multiple_poll fm rt") (auto simp: place_awaiting_def simp del: placed_simps(1))
next
  case (20 c b fc kc G rt)
  then have "placed c (add_mset (commit_idx fc, rw_ptr b) G) rt" by (simp add: place_awaiting_def)
  from rooted_placed [OF rooted_polls(1) this, of fc] commit_same_buffer [of fc rt] show ?case
    by (cases "commit_poll fc rt") (auto simp: place_awaiting_def placed_base split: poll_result.split)
next
  case (21 c b G rt)
  then show ?case using rooted_placed [OF rooted_buffers(2), of c G rt b] by simp
next
  case (22 c a G rt)
  then show ?case using rooted_placed [OF rooted_drop_awaiting, of c G rt a] by simp
next
  case (23 c rt G fr)
  then have "placed c G rt" by simp
  then show ?case unfolding place_local_simps by (rule placed_read)
next
  case (24 c G rt s)
  then show ?case unfolding place_local_simps by (intro placed_item)
qed (auto simp: place_awaiting_def write_multiple_def place_fan_out_def rwbuffer_commit_def rw_place_def make_commit_future_def
    commit_idx_def)

lemma places_run:
  assumes "env_ok E" "legal_kernel E kern" "idle frame_ok rt" "frame_ok (async_block p)"
  shows "places.accounted (pool_base (rt_buffer rt)) (batches_along E kern n (async_block p) rt)
    (block_on E (frame_poll E) frame_drop kern n (async_block p) rt)"
  by (rule places.own_block_on [OF assms]) (simp_all add: places.lenient_def run_legal_always)

lemma places_owned: "places.owned c {} {#} rt \<Longrightarrow> placed c (held place_local place_awaiting {} rt) rt"
  by (simp add: places.owned_def)

subsection \<open>What the bodies hold, one by one\<close>

text \<open>Where a body keeps a buffer: in its \<open>x\<close>-th local, or in the future it awaits.\<close>

datatype spot = Local nat | Awaited

definition fan_out_buffer :: "WriteMultipleFuture \<Rightarrow> w_buffer option" where
  "fan_out_buffer f =
     (case f of WM_Init fds b len \<Rightarrow> Some b | WM_Pending s \<Rightarrow> Some (wm_buffer s) | WM_Poisoned \<Rightarrow> None)"

definition local_at :: "frame \<Rightarrow> nat \<Rightarrow> local_value option" where
  "local_at f x = (if x < length (fr_locals f) then Some (snd (fr_locals f ! x)) else None)"

text \<open>The body has, in spot \<open>s\<close>, a read (a write) buffer with index \<open>i\<close> at address \<open>a\<close>.\<close>

definition frame_reads :: "frame \<Rightarrow> spot \<Rightarrow> u32 \<Rightarrow> u64 \<Rightarrow> bool" where
  "frame_reads f s i a \<longleftrightarrow>
     (case s of
        Local x \<Rightarrow> (case local_at f x of Some (L_rw b) \<Rightarrow> i = rw_buf_idx b \<and> a = rw_ptr b | _ \<Rightarrow> False)
      | Awaited \<Rightarrow> (case fr_state f of Await (Aw_commit b c k) \<Rightarrow> i = commit_idx c \<and> a = rw_ptr b | _ \<Rightarrow> False))"

definition frame_writes :: "frame \<Rightarrow> spot \<Rightarrow> u32 \<Rightarrow> u64 \<Rightarrow> bool" where
  "frame_writes f s i a \<longleftrightarrow>
     (case s of
        Local x \<Rightarrow> (case local_at f x of Some (L_w w) \<Rightarrow> i = w_abs_idx w \<and> a = w_ptr w | _ \<Rightarrow> False)
      | Awaited \<Rightarrow>
          (case fr_state f of
             Await (Aw_write_multiple m k) \<Rightarrow>
               (case fan_out_buffer m of Some w \<Rightarrow> i = w_abs_idx w \<and> a = w_ptr w | None \<Rightarrow> False)
           | _ \<Rightarrow> False))"

text \<open>The same of the body of the task at \<open>q\<close>.\<close>

definition has_read :: "rt \<Rightarrow> u64 \<Rightarrow> spot \<Rightarrow> u32 \<Rightarrow> u64 \<Rightarrow> bool" where
  "has_read rt q s i a \<longleftrightarrow> (case futs rt q of Some f \<Rightarrow> frame_reads f s i a | None \<Rightarrow> False)"

definition has_write :: "rt \<Rightarrow> u64 \<Rightarrow> spot \<Rightarrow> u32 \<Rightarrow> u64 \<Rightarrow> bool" where
  "has_write rt q s i a \<longleftrightarrow> (case futs rt q of Some f \<Rightarrow> frame_writes f s i a | None \<Rightarrow> False)"

text \<open>The handles of one spot, and that those of two spots are counted apart.\<close>

definition spot_handles :: "(local_value \<Rightarrow> 'x multiset) \<Rightarrow> (awaiting \<Rightarrow> 'x multiset) \<Rightarrow> frame \<Rightarrow> spot \<Rightarrow> 'x multiset" where
  "spot_handles lh ah f s =
     (case s of
        Local x \<Rightarrow> (case local_at f x of Some l \<Rightarrow> lh l | None \<Rightarrow> {#})
      | Awaited \<Rightarrow> (case fr_state f of Await a \<Rightarrow> ah a | _ \<Rightarrow> {#}))"

lemma handles_spots:
  "handles lh ah f = spot_handles lh ah f Awaited + (\<Sum>x \<in> {0..<length (fr_locals f)}. spot_handles lh ah f (Local x))"
proof -
  have "locals_handles lh (fr_locals f) = (\<Sum>x \<in> {0..<length (fr_locals f)}. lh (snd (fr_locals f ! x)))"
    unfolding locals_handles_def by (simp add: sum_list_sum_nth split_def)
  also have "\<dots> = (\<Sum>x \<in> {0..<length (fr_locals f)}. spot_handles lh ah f (Local x))"
    by (rule sum.cong) (simp_all add: spot_handles_def local_at_def)
  finally show ?thesis by (simp add: handles_def spot_handles_def)
qed

lemma spot_outside: "\<not> x < length (fr_locals f) \<Longrightarrow> spot_handles lh ah f (Local x) = {#}"
  by (simp add: spot_handles_def local_at_def)

lemma two_spots_counted:
  assumes "s \<noteq> s'"
  shows "spot_handles lh ah f s + spot_handles lh ah f s' \<subseteq># handles lh ah f"
proof -
  let ?h = "\<lambda>x. spot_handles lh ah f (Local x)" and ?I = "{0..<length (fr_locals f)}"
  have one: "?h x \<subseteq># (\<Sum>x \<in> ?I. ?h x)" for x
    by (cases "x < length (fr_locals f)") (simp_all add: spot_outside sum.remove [of ?I x])
  have two: "?h x + ?h y \<subseteq># (\<Sum>x \<in> ?I. ?h x)" if "x \<noteq> y" for x y
  proof (cases "x < length (fr_locals f) \<and> y < length (fr_locals f)")
    case True
    then have "(\<Sum>x \<in> ?I. ?h x) = ?h x + (?h y + (\<Sum>x \<in> ?I - {x} - {y}. ?h x))"
      using that by (simp add: sum.remove [of ?I x] sum.remove [of "?I - {x}" y])
    then show ?thesis by (simp add: add.assoc [symmetric])
  next
    case False
    then show ?thesis using one [of x] one [of y] by (auto simp: spot_outside)
  qed
  show ?thesis
  proof (cases s; cases s')
    fix x y assume "s = Local x" "s' = Local y"
    then show ?thesis using assms two [of x y] by (simp add: handles_spots subset_mset.add_increasing)
  next
    fix x assume "s = Local x" "s' = Awaited"
    then show ?thesis using one [of x] by (simp add: handles_spots add.commute)
  next
    fix y assume "s = Awaited" "s' = Local y"
    then show ?thesis using one [of y] by (simp add: handles_spots)
  qed (use assms in simp)
qed

lemma spot_counted: "spot_handles lh ah f s \<subseteq># handles lh ah f"
proof -
  obtain s' where "s \<noteq> s'" by (metis spot.distinct(1))
  from subset_mset.order_trans [OF mset_subset_eq_add_left two_spots_counted [OF this]] show ?thesis .
qed

lemma spot_held:
  assumes "futs rt q = Some f"
  shows "spot_handles lh ah f s \<subseteq># held lh ah {} rt"
  unfolding held_insert [OF assms, of "{}", simplified]
  by (rule subset_mset.order_trans [OF spot_counted mset_subset_eq_add_left])

lemma two_spots_held:
  assumes f: "futs rt q = Some f" and g: "futs rt r = Some g" and "(q, s) \<noteq> (r, s')"
  shows "spot_handles lh ah f s + spot_handles lh ah g s' \<subseteq># held lh ah {} rt"
proof (cases "q = r")
  case True
  with assms have "g = f" "s \<noteq> s'" by auto
  then show ?thesis unfolding held_insert [OF f, of "{}", simplified]
    using subset_mset.order_trans [OF two_spots_counted mset_subset_eq_add_left] by metis
next
  case False
  then have "r \<notin> {q}" by simp
  have "spot_handles lh ah g s' \<subseteq># held lh ah {q} rt" unfolding held_insert [OF g \<open>r \<notin> {q}\<close>, of lh ah]
    by (rule subset_mset.order_trans [OF spot_counted mset_subset_eq_add_left])
  then show ?thesis unfolding held_insert [OF f, of "{}", simplified] by (rule subset_mset.add_mono [OF spot_counted])
qed

text \<open>What a buffer counts as: a read buffer, a write slot, a place.\<close>

lemma frame_reads_counted:
  assumes "frame_reads f s i a"
  shows "i \<in># spot_handles read_local read_awaiting f s" "(i, a) \<in># spot_handles place_local place_awaiting f s"
  using assms by (auto simp: frame_reads_def spot_handles_def read_awaiting_def commit_handle_def commit_idx_def
      place_awaiting_def rw_place_def split: spot.splits option.splits local_value.splits suspended.splits awaiting.splits
      CommitFuture.splits)

lemma frame_writes_counted:
  assumes "frame_writes f s i a"
  shows "i \<in># spot_handles write_local write_awaiting f s" "(i, a) \<in># spot_handles place_local place_awaiting f s"
  using assms by (auto simp: frame_writes_def spot_handles_def write_awaiting_def wm_handle_def fan_out_buffer_def
      place_awaiting_def place_fan_out_def w_place_def split: spot.splits option.splits local_value.splits suspended.splits
      awaiting.splits WriteMultipleFuture.splits)

lemma has_readE:
  assumes "has_read rt q s i a"
  obtains f where "futs rt q = Some f" "frame_reads f s i a"
  using assms by (auto simp: has_read_def split: option.splits)

lemma has_writeE:
  assumes "has_write rt q s i a"
  obtains f where "futs rt q = Some f" "frame_writes f s i a"
  using assms by (auto simp: has_write_def split: option.splits)

lemma has_read_counted:
  assumes "has_read rt q s i a"
  shows "i \<in># read_held rt" "(i, a) \<in># held place_local place_awaiting {} rt"
proof -
  from assms obtain f where f: "futs rt q = Some f" "frame_reads f s i a" by (rule has_readE)
  show "i \<in># read_held rt" unfolding read_held_def by (rule mset_subset_eqD [OF spot_held [OF f(1)] frame_reads_counted(1) [OF f(2)]])
  show "(i, a) \<in># held place_local place_awaiting {} rt"
    by (rule mset_subset_eqD [OF spot_held [OF f(1)] frame_reads_counted(2) [OF f(2)]])
qed

lemma has_write_counted:
  assumes "has_write rt q s i a"
  shows "i \<in># write_held rt" "(i, a) \<in># held place_local place_awaiting {} rt"
proof -
  from assms obtain f where f: "futs rt q = Some f" "frame_writes f s i a" by (rule has_writeE)
  show "i \<in># write_held rt" unfolding write_held_def by (rule mset_subset_eqD [OF spot_held [OF f(1)] frame_writes_counted(1) [OF f(2)]])
  show "(i, a) \<in># held place_local place_awaiting {} rt"
    by (rule mset_subset_eqD [OF spot_held [OF f(1)] frame_writes_counted(2) [OF f(2)]])
qed

lemma two_reads_counted:
  assumes "has_read rt q s i a" "has_read rt r s' j b" "(q, s) \<noteq> (r, s')"
  shows "{#i, j#} \<subseteq># read_held rt"
proof -
  from assms(1) obtain f where f: "futs rt q = Some f" "frame_reads f s i a" by (rule has_readE)
  from assms(2) obtain g where g: "futs rt r = Some g" "frame_reads g s' j b" by (rule has_readE)
  have "{#i#} + {#j#} \<subseteq># spot_handles read_local read_awaiting f s + spot_handles read_local read_awaiting g s'"
    using frame_reads_counted(1) [OF f(2)] frame_reads_counted(1) [OF g(2)] by (intro subset_mset.add_mono) simp_all
  also have "\<dots> \<subseteq># read_held rt" unfolding read_held_def by (rule two_spots_held [OF f(1) g(1) assms(3)])
  finally show ?thesis by (simp add: add_mset_commute)
qed

subsection \<open>Isolation\<close>

text \<open>Two buffers of the pool that do not overlap.\<close>

definition apart :: "u64 \<Rightarrow> u64 \<Rightarrow> bool" where
  "apart a b \<longleftrightarrow> unat a + BUF_SIZE 1 \<le> unat b \<or> unat b + BUF_SIZE 1 \<le> unat a"

lemma slices_apart:
  assumes fit: "unat (pool_base pool) + T * BUF_SIZE 1 \<le> 2 ^ 64" and "i < T" "j < T" "i \<noteq> j"
  shows "apart (buf_addr 1 pool i) (buf_addr 1 pool j)"
proof -
  have "i * BUF_SIZE 1 + BUF_SIZE 1 \<le> j * BUF_SIZE 1 \<or> j * BUF_SIZE 1 + BUF_SIZE 1 \<le> i * BUF_SIZE 1"
  proof (cases "i < j")
    case True
    then have "(i + 1) * BUF_SIZE 1 \<le> j * BUF_SIZE 1" by (intro mult_le_mono1) simp
    then show ?thesis by simp
  next
    case False
    then have "(j + 1) * BUF_SIZE 1 \<le> i * BUF_SIZE 1" using assms(4) by (intro mult_le_mono1) simp
    then show ?thesis by simp
  qed
  then show ?thesis using buf_addr_unat(1) [OF fit assms(2)] buf_addr_unat(1) [OF fit assms(3)]
    by (simp add: apart_def del: One_nat_def)
qed

text \<open>The buffers offered to the kernel, when it has taken those before \<open>h\<close>.\<close>

abbreviation offered :: "u16 \<Rightarrow> rt \<Rightarrow> (u64 \<times> u32 \<times> u16) list" where
  "offered h rt \<equiv> ring_queue (unat (read_count (rt_buffer rt))) h (rt_buf_ring rt)"

definition isolated :: "u16 \<Rightarrow> rt \<Rightarrow> bool" where
  "isolated h rt \<longleftrightarrow>
     (\<forall>q s i a. has_read rt q s i a \<longrightarrow>
        (\<forall>r s' j b. has_read rt r s' j b \<and> (q, s) \<noteq> (r, s') \<longrightarrow> apart a b) \<and>
        (\<forall>r s' j b. has_write rt r s' j b \<longrightarrow> apart a b) \<and>
        (\<forall>e \<in> set (offered h rt). apart a (fst e))) \<and>
     (\<forall>q s i a. has_write rt q s i a \<longrightarrow>
        (\<forall>r s' j b. has_write rt r s' j b \<longrightarrow> (if i = j then a = b else apart a b)) \<and>
        (\<forall>e \<in> set (offered h rt). apart a (fst e))) \<and>
     (\<forall>j < length (offered h rt). \<forall>k < j. apart (fst (offered h rt ! j)) (fst (offered h rt ! k)))"

text \<open>The indices of the pool, each once.\<close>

lemma pool_ids_once: "count (pool_ids pool) i \<le> 1"
proof -
  have "inj_on (of_nat :: nat \<Rightarrow> u32) {0..<unat (read_count pool)}"
  proof (rule inj_onI)
    fix i j assume ij: "i \<in> {0..<unat (read_count pool)}" "j \<in> {0..<unat (read_count pool)}" and eq: "(of_nat i :: u32) = of_nat j"
    have "unat (read_count pool) < 2 ^ 32" using unsigned_less [of "read_count pool", where ?'a = nat] by simp
    with ij have "i < 2 ^ 32" "j < 2 ^ 32" by simp_all
    then have "unat (of_nat i :: u32) = i" "unat (of_nat j :: u32) = j" by (simp_all add: unat_of_nat_lt)
    with eq show "i = j" by metis
  qed
  then have "distinct (map (of_nat :: nat \<Rightarrow> u32) [0..<unat (read_count pool)])"
    by (simp only: distinct_map distinct_upt set_upt simp_thms)
  then show ?thesis unfolding pool_ids_def distinct_count_atmost_1 by (metis le_numeral_extra(3,4) zero_le_one)
qed

lemma kept_once:
  assumes "reads_kept h H rt"
  shows "count (mset (ring_ids h rt)) i + count H i \<le> 1"
    and "i \<in># H \<or> i \<in> set (ring_ids h rt) \<Longrightarrow> unat i < unat (read_count (rt_buffer rt))"
proof -
  have sub: "mset (ring_ids h rt) + H \<subseteq># pool_ids (rt_buffer rt)" using assms by (simp add: reads_kept_def)
  then have "count (mset (ring_ids h rt)) i + count H i \<le> count (pool_ids (rt_buffer rt)) i"
    by (metis count_union mset_subset_eq_count)
  then show "count (mset (ring_ids h rt)) i + count H i \<le> 1" using pool_ids_once [of "rt_buffer rt" i] by simp
  assume "i \<in># H \<or> i \<in> set (ring_ids h rt)"
  then have "i \<in># mset (ring_ids h rt) + H" by auto
  then have "i \<in># pool_ids (rt_buffer rt)" using sub by (meson mset_subset_eqD)
  then show "unat i < unat (read_count (rt_buffer rt))" using pool_ids_mem by (simp add: word_less_nat_alt)
qed

lemma isolation:
  assumes pl: "placed c (held place_local place_awaiting {} rt) rt" and w: "pool_owns (write_held rt) (rt_buffer rt)"
    and r: "reads_kept h (read_held rt) rt"
    and fit: "unat (pool_base (rt_buffer rt)) + (unat (read_count (rt_buffer rt)) + length (write_rc (rt_buffer rt))) * BUF_SIZE 1 \<le> 2 ^ 64"
  shows "isolated h rt"
proof -
  let ?addr = "\<lambda>i :: u32. buf_addr 1 (rt_buffer rt) (unat i)"
  let ?n = "unat (read_count (rt_buffer rt))" and ?T = "unat (read_count (rt_buffer rt)) + length (write_rc (rt_buffer rt))"
  note once = kept_once [OF r]
  have at: "at_place c x \<longleftrightarrow> snd x = ?addr (fst x)" for x
    using pl by (simp add: at_place_def placed_def buf_addr_def)
  have rw: "a = ?addr i" "i \<in># read_held rt" if "has_read rt q s i a" for q s i a
    using has_read_counted [OF that] pl at by (auto simp: placed_def)
  have ww: "a = ?addr i" "?n \<le> unat i \<and> unat i < ?T" if "has_write rt q s i a" for q s i a
  proof -
    show "a = ?addr i" using has_write_counted(2) [OF that] pl at by (auto simp: placed_def)
    from has_write_counted(1) [OF that] pool_ownsD(5) [OF w, of i] unat_slot_abs [OF pool_ownsD(1) [OF w]]
    show "?n \<le> unat i \<and> unat i < ?T" by auto
  qed
  have off: "fst (offered h rt ! k) = ?addr (ring_ids h rt ! k)" if "k < length (offered h rt)" for k
  proof -
    let ?e = "offered h rt ! k"
    have "?e = released_entry (ucast (snd (snd ?e))) (rt_buffer rt)"
      using that r unfolding reads_kept_def list_all_iff by (meson nth_mem)
    then have "fst ?e = ?addr (ucast (snd (snd ?e)))" unfolding released_entry_def by (metis fst_conv)
    then show ?thesis using that by (simp add: ring_ids_def split_def)
  qed
  have len: "length (offered h rt) = length (ring_ids h rt)" by (simp add: ring_ids_def)
  have ap: "apart (?addr i) (?addr j)" if "unat i < ?T" "unat j < ?T" "i \<noteq> j" for i j :: u32
    using slices_apart [OF fit that(1,2)] that(3) unsigned_word_eqI by blast
  have reads: "i \<noteq> j" if "has_read rt q s i a" "has_read rt r s' j b" "(q, s) \<noteq> (r, s')" for q s i a r s' j b
  proof
    assume "i = j"
    with mset_subset_eq_count [OF two_reads_counted [OF that], of i] have "2 \<le> count (read_held rt) i" by simp
    with once(1) [of i] show False by simp
  qed
  have ring: "i \<noteq> ring_ids h rt ! k" if "i \<in># read_held rt" "k < length (ring_ids h rt)" for i k
  proof -
    have "0 < count (read_held rt) i" using that(1) by simp
    with once(1) [of i] have "count (mset (ring_ids h rt)) i = 0" by linarith
    then have "i \<notin> set (ring_ids h rt)" by simp
    then show ?thesis using that(2) nth_mem by metis
  qed
  have twice: "ring_ids h rt ! j \<noteq> ring_ids h rt ! k" if "j < length (ring_ids h rt)" "k < j" for j k
  proof -
    have "count (mset (ring_ids h rt)) i = (if i \<in> set (ring_ids h rt) then 1 else 0)" for i
    proof (cases "i \<in> set (ring_ids h rt)")
      case True
      then have "0 < count (mset (ring_ids h rt)) i" by simp
      then have "count (mset (ring_ids h rt)) i = 1" using once(1) [of i] by linarith
      with True show ?thesis by simp
    qed simp
    then have "distinct (ring_ids h rt)" unfolding distinct_count_atmost_1 by blast
    then show ?thesis using that by (simp add: nth_eq_iff_index_eq)
  qed
  have in_ring: "\<exists>k < length (ring_ids h rt). fst e = ?addr (ring_ids h rt ! k)" if "e \<in> set (offered h rt)" for e
  proof -
    from that obtain k where "k < length (offered h rt)" "e = offered h rt ! k" by (metis in_set_conv_nth)
    then show ?thesis using off [of k] len by metis
  qed
  have rbound: "unat i < ?n" if "has_read rt q s i a" for q s i a using once(2) rw(2) [OF that] by blast
  have kbound: "unat (ring_ids h rt ! k) < ?n" if "k < length (ring_ids h rt)" for k using once(2) that by simp
  have rt: "unat i < ?T" if "has_read rt q s i a" for q s i a using rbound [OF that] by simp
  show ?thesis unfolding isolated_def
  proof (intro conjI allI impI ballI)
    fix q s i a assume b: "has_read rt q s i a"
    show "apart a b'" if "has_read rt r s' j b' \<and> (q, s) \<noteq> (r, s')" for r s' j b'
    proof -
      from that have b': "has_read rt r s' j b'" and ne: "(q, s) \<noteq> (r, s')" by simp_all
      show ?thesis unfolding rw(1) [OF b] rw(1) [OF b'] by (rule ap [OF rt [OF b] rt [OF b'] reads [OF b b' ne]])
    qed
    show "apart a b'" if v: "has_write rt r s' j b'" for r s' j b'
      unfolding rw(1) [OF b] ww(1) [OF v] by (rule ap) (use ww(2) [OF v] rbound [OF b] in auto)
    show "apart a (fst e)" if e: "e \<in> set (offered h rt)" for e
    proof -
      from in_ring [OF e] obtain k where k: "k < length (ring_ids h rt)" "fst e = ?addr (ring_ids h rt ! k)" by blast
      show ?thesis unfolding rw(1) [OF b] k(2)
        by (rule ap [OF rt [OF b] _ ring [OF rw(2) [OF b] k(1)]]) (use kbound [OF k(1)] in simp)
    qed
  next
    fix q s i a assume v: "has_write rt q s i a"
    show "if i = j then a = b else apart a b" if v': "has_write rt r s' j b" for r s' j b
      unfolding ww(1) [OF v] ww(1) [OF v'] using ap ww(2) [OF v] ww(2) [OF v'] by simp
    show "apart a (fst e)" if e: "e \<in> set (offered h rt)" for e
    proof -
      from in_ring [OF e] obtain k where k: "k < length (ring_ids h rt)" "fst e = ?addr (ring_ids h rt ! k)" by blast
      show ?thesis unfolding ww(1) [OF v] k(2) by (rule ap) (use kbound [OF k(1)] ww(2) [OF v] in auto)
    qed
  next
    fix j k assume j: "j < length (offered h rt)" and k: "k < j"
    have "k < length (offered h rt)" using j k by simp
    then show "apart (fst (offered h rt ! j)) (fst (offered h rt ! k))" unfolding off [OF j] off [OF \<open>k < length (offered h rt)\<close>]
      by (intro ap twice) (use kbound [of j] kbound [of k] j k len in auto)
  qed
qed

end
