(* ===== verification/Delivery.thy ===== *)
theory Delivery
  imports In_Step
begin

text \<open>
  Completions that reach a body in a state it was not meant to be polled in. A completion that carries the
  number of its task polls the task, whichever entry it belongs to; one that carries an earlier number
  does not. The await of a fan-out is never woken for its second write, the await of a commit is ended by
  any completion of its task, and a body that is over, or a read stream that ends, panics.
\<close>

subsection \<open>What a completion does, for any state of the task\<close>

text \<open>The state in which the task at \<open>p\<close> is polled for the completion \<open>c\<close>.\<close>

definition polled_for :: "cqe \<Rightarrow> u64 \<Rightarrow> frame raw_task \<Rightarrow> rt \<Rightarrow> rt" where
  "polled_for c p t rt =
     dispatched p (TaskInfo_from_entry c) (t\<lparr>ref_counter := ref_counter t + 1\<rparr>)
       (rt\<lparr>rt_heap := (rt_heap rt)(p \<mapsto> t\<lparr>ref_counter := ref_counter t + 1\<rparr>)\<rparr>)"

lemma polled_for_context [simp]:
  "ti_result (rt_current (polled_for c p t rt)) = cqe_result c" "ti_flags (rt_current (polled_for c p t rt)) = cqe_flags c"
  "ti_response_gen (rt_current (polled_for c p t rt)) = up_response_gen (from_user_data (cqe_user_data c))"
  "rt_buffer (polled_for c p t rt) = rt_buffer rt"
  by (simp_all add: polled_for_def dispatched_def Let_def TaskInfo_from_entry_def payload_from_entry_def)

lemma delivered:
  assumes "slab_index (udata_idx (cqe_user_data c)) (rt_tasks rt) = Inr p" "rt_heap rt p = Some t"
    "ref_counter t \<noteq> U16_MAX" "entry_nb (cqe_user_data c) = syscall_nb t"
  shows "handle_cqe_entry E (frame_poll E) frame_drop c rt =
    and_then (task_poll_with (frame_poll E (task_fut t)) p (polled_for c p t rt)) (\<lambda>(_, rt).
    and_then (if env_more E (cqe_flags c) then Inr rt else task_drop frame_drop p rt) (task_drop frame_drop p))"
proof -
  let ?t = "t\<lparr>ref_counter := ref_counter t + 1\<rparr>"
  let ?rt = "rt\<lparr>rt_heap := (rt_heap rt)(p \<mapsto> ?t)\<rparr>"
  have "tag_syscall_nb (ti_tag (TaskInfo_from_entry c)) = syscall_nb ?t"
    using assms(4) by (simp add: TaskInfo_from_entry_def Let_def payload_from_entry_def)
  from dispatch_delivers [OF _ this, of ?rt p "frame_poll E"]
  have "dispatch_cqe (frame_poll E) p (TaskInfo_from_entry c) ?rt =
      and_then (task_poll_with (frame_poll E (task_fut t)) p (polled_for c p t rt)) (\<lambda>(_, rt). Inr rt)"
    by (simp add: polled_for_def)
  then show ?thesis
    by (simp add: handle_cqe_entry_def clone_task_at_exact [OF assms(1-3)] Let_def and_then_assoc split_def cong: if_cong)
qed

text \<open>Completions of earlier numbers, one after the other.\<close>

lemma drop_counted:
  assumes "rt_heap rt p = Some t" "1 < unat (ref_counter t)"
  shows "task_drop d p rt = Inr (rt\<lparr>rt_heap := (rt_heap rt)(p \<mapsto> t\<lparr>ref_counter := ref_counter t - 1\<rparr>)\<rparr>)"
proof -
  have "sub_ovf (ref_counter t) 1 = Inr (ref_counter t - 1)" using assms(2) by (simp add: sub_ovf_def word_le_nat_alt)
  moreover have "ref_counter t - 1 \<noteq> 0" using assms(2) by auto
  ultimately show ?thesis using assms(1) by (simp add: task_drop_def task_release_def task_deref_def)
qed

lemma drop_last:
  assumes "rt_heap rt p = Some t" "ref_counter t = 1" "task_drop frame_drop p rt = Inr rt'"
  shows "rt_heap rt' p = None"
proof -
  have "task_deref p (rt_heap rt) = Inr t" using assms(1) by (simp add: task_deref_def)
  then show ?thesis using assms(2,3)
    by (auto simp: task_drop_def task_release_def sub_ovf_def Let_def res_simps split: option.splits)
qed

lemma counter_ignored [simp]: "evaluate_syscall_nb nb (t\<lparr>ref_counter := n\<rparr>) = evaluate_syscall_nb nb t"
  by (simp add: evaluate_syscall_nb_def)

lemma task_fields: "t\<lparr>ref_counter := n, syscall_nb := nb, task_fut := f\<rparr> = t\<lparr>task_fut := f, syscall_nb := nb, ref_counter := n\<rparr>"
  by simp

lemma expired_batch:
  assumes "slab_index i (rt_tasks rt) = Inr p" "rt_heap rt p = Some t" "ref_counter t \<noteq> U16_MAX" "length cs < unat (ref_counter t)"
    "\<forall>c \<in> set cs. udata_idx (cqe_user_data c) = i \<and> evaluate_syscall_nb (entry_nb (cqe_user_data c)) t = Expired \<and>
      \<not> env_more E (cqe_flags c)"
  shows "fold_res (handle_cqe_entry E poll_fn drop_fn) cs rt =
    Inr (rt\<lparr>rt_heap := (rt_heap rt)(p \<mapsto> t\<lparr>ref_counter := ref_counter t - of_nat (length cs)\<rparr>)\<rparr>)"
  using assms
proof (induction cs arbitrary: rt t)
  case Nil
  then show ?case by (simp add: fun_upd_idem)
next
  case (Cons c cs)
  let ?t = "t\<lparr>ref_counter := ref_counter t - 1\<rparr>"
  let ?rt = "rt\<lparr>rt_heap := (rt_heap rt)(p \<mapsto> ?t)\<rparr>"
  have rc: "1 < unat (ref_counter t)" "ref_counter t \<noteq> 0" using Cons.prems(4) by auto
  then have u: "unat (ref_counter t - 1) = unat (ref_counter t) - 1" by (simp add: unat_sub_one)
  have "handle_cqe_entry E poll_fn drop_fn c rt = Inr ?rt"
    using undelivered [OF _ Cons.prems(2) rc(2) Cons.prems(3) refl, of c E poll_fn drop_fn] Cons.prems(1,5)
      drop_counted [OF Cons.prems(2) rc(1), of drop_fn] by simp
  moreover have "ref_counter ?t \<noteq> U16_MAX" using u rc(1) unat_u16_lt [of "ref_counter t"] by (auto simp: word_unat_eq_iff)
  moreover have "length cs < unat (ref_counter ?t)" using Cons.prems(4) u by simp
  ultimately show ?case using Cons.IH [of ?rt ?t] Cons.prems(1,5) by (simp add: diff_diff_eq cong: if_cong)
qed

lemma expired_all:
  assumes i: "slab_index i (rt_tasks rt) = Inr p" and t: "rt_heap rt p = Some t" "ref_counter t \<noteq> U16_MAX"
    and n: "length cs = unat (ref_counter t)" "cs \<noteq> []"
    and cs: "\<forall>c \<in> set cs. udata_idx (cqe_user_data c) = i \<and> evaluate_syscall_nb (entry_nb (cqe_user_data c)) t = Expired \<and>
      \<not> env_more E (cqe_flags c)"
    and res: "fold_res (handle_cqe_entry E poll_fn frame_drop) cs rt = Inr rt'"
  shows "rt_heap rt' p = None"
proof -
  obtain cs' c where c: "cs = cs' @ [c]" using n(2) by (metis rev_exhaust)
  let ?u = "t\<lparr>ref_counter := ref_counter t - of_nat (length cs')\<rparr>"
  let ?rt = "rt\<lparr>rt_heap := (rt_heap rt)(p \<mapsto> ?u)\<rparr>"
  have "of_nat (length cs) = (of_nat (unat (ref_counter t)) :: u16)" by (simp only: n)
  then have "ref_counter t = of_nat (Suc (length cs'))" unfolding c by simp
  then have one: "ref_counter ?u = 1" by simp
  have "fold_res (handle_cqe_entry E poll_fn frame_drop) cs' rt = Inr ?rt"
    by (rule expired_batch [OF i t]) (use n(1) cs c in auto)
  then have "handle_cqe_entry E poll_fn frame_drop c ?rt = Inr rt'"
    using res unfolding c fold_res_append by (simp add: and_then_def split: sum.splits)
  moreover have "handle_cqe_entry E poll_fn frame_drop c ?rt = task_drop frame_drop p ?rt"
    using undelivered [of c ?rt p ?u _ E poll_fn frame_drop] i cs c one by simp
  ultimately show ?thesis using drop_last [of ?rt p ?u rt'] one by simp
qed

subsection \<open>A task on its own, for concrete instances\<close>

definition lone_task :: "frame \<Rightarrow> u16 \<Rightarrow> u16 \<Rightarrow> frame raw_task" where
  "lone_task fr rc nb = \<lparr>task_fut = fr, alloc_size = 96, ref_counter = rc, syscall_nb = nb, slab_idx = Some 0\<rparr>"

definition lone_rt :: "frame raw_task \<Rightarrow> rt" where
  "lone_rt t = demo_rt\<lparr>rt_heap := [0x1000 \<mapsto> t],
     rt_tasks := \<lparr>slots = [0x1000, 5], slab_head = 1, slab_len = 2, task_count = 1\<rparr>\<rparr>"

lemma lone_index: "slab_index 0 (rt_tasks (lone_rt t)) = Inr 0x1000" "rt_heap (lone_rt t) 0x1000 = Some t"
  by (simp_all add: lone_rt_def slab_index_def slot_at_def eval_slots)

subsection \<open>Properties\<close>

text \<open>C33. The await of a fan-out is lost. A task in single-shot mode awaits a fan-out with two or more
  writes in flight, all submitted with the task's number. The first completion to arrive is delivered,
  leaves the fan-out pending, since others are in flight, and advances the task's number. From then on
  every completion of the fan-out is expired: it polls nothing and gives back one reference, until the
  last one destroys the task with its body still suspended. So the await never returns.\<close>

theorem fan_out_await_lost:
  assumes "slab_index i (rt_tasks rt) = Inr p" "rt_heap rt p = Some t"
    "fr_state (task_fut t) = Await (Aw_write_multiple (WM_Pending s) k)"
    "\<not> is_multiple (syscall_nb t)" "rank (syscall_nb t) < 32767"
    "2 \<le> unat (wm_in_fligth_count s)" "2 \<le> unat (ref_counter t)" "ref_counter t \<noteq> U16_MAX"
    "\<forall>c \<in> set (c # cs). \<exists>g. cqe_user_data c = into_user_data \<lparr>up_task_idx = i, up_response_gen = g, up_syscall_nb = syscall_nb t\<rparr> \<and>
      unat g < length (wm_fds s) \<and> \<not> env_more E (cqe_flags c)"
    "wm_fds s ! unat (up_response_gen (from_user_data (cqe_user_data c))) \<noteq> U32_MAX"
  shows "\<exists>s'. wm_in_fligth_count s' = wm_in_fligth_count s - 1 \<and>
    (Suc (length cs) < unat (ref_counter t) \<longrightarrow>
      (\<exists>rt'. fold_res (handle_cqe_entry E (frame_poll E) frame_drop) (c # cs) rt = Inr rt' \<and>
        rt_heap rt' p = Some (t\<lparr>task_fut := \<lparr>fr_state = Await (Aw_write_multiple (WM_Pending s') k), fr_locals = fr_locals (task_fut t)\<rparr>,
          syscall_nb := syscall_nb t + 1, ref_counter := ref_counter t - of_nat (Suc (length cs))\<rparr>))) \<and>
    (Suc (length cs) = unat (ref_counter t) \<longrightarrow>
      (\<forall>rt'. fold_res (handle_cqe_entry E (frame_poll E) frame_drop) (c # cs) rt = Inr rt' \<longrightarrow> rt_heap rt' p = None))"
proof -
  let ?h = "handle_cqe_entry E (frame_poll E) frame_drop"
  let ?g = "up_response_gen (from_user_data (cqe_user_data c))" and ?R = "polled_for c p t rt"
  let ?s = "s\<lparr>wm_in_fligth_count := wm_in_fligth_count s - 1, wm_fds := (wm_fds s)[unat ?g := U32_MAX],
    wm_faileds := wm_faileds s @ write_failures (wm_fds s ! unat ?g) (wm_len s) (cqe_result c)\<rparr>"
  let ?f = "\<lparr>fr_state = Await (Aw_write_multiple (WM_Pending ?s) k), fr_locals = fr_locals (task_fut t)\<rparr>"
  let ?t = "t\<lparr>task_fut := ?f, syscall_nb := syscall_nb t + 1, ref_counter := ref_counter t - 1\<rparr>"
  have ent: "udata_idx (cqe_user_data c') = i" "entry_nb (cqe_user_data c') = syscall_nb t" "\<not> env_more E (cqe_flags c')"
    if "c' \<in> set (c # cs)" for c' using assms(9) that by (auto simp: udata_idx_into from_into_user_data)
  have g: "unat ?g < length (wm_fds s)" using assms(9) by (auto simp: from_into_user_data)
  have more: "wm_in_fligth_count s \<noteq> 0" "wm_in_fligth_count s \<noteq> 1" using assms(6) by auto
  have poll: "frame_poll E (task_fut t) ?R = Inr (?f, False, ?R)"
    using assms(3) wm_poll_step [OF g assms(10) more polled_for_context(3,1) [of c p t rt]]
    by (simp add: frame_poll_def resume_def await_leaf_def)
  have R: "rt_heap ?R = (rt_heap rt)(p \<mapsto> t\<lparr>ref_counter := ref_counter t + 1, syscall_nb := syscall_nb t + 1\<rparr>)"
    "?R\<lparr>rt_heap := h\<rparr> = rt\<lparr>rt_heap := h, rt_current := rt_current ?R\<rparr>" for h
    using assms(4) by (simp_all add: polled_for_def dispatched_def Let_def)
  let ?rt1 = "rt\<lparr>rt_heap := (rt_heap rt)(p \<mapsto> ?t\<lparr>ref_counter := ref_counter t + 1\<rparr>), rt_current := rt_current ?R\<rparr>"
  have rt1: "task_poll_with (frame_poll E (task_fut t)) p ?R = Inr (False, ?rt1)"
    by (simp add: task_poll_with_def task_deref_def poll R task_fields)
  have up: "unat (ref_counter t + 1) = unat (ref_counter t) + 1"
    using assms(8) unat_u16_lt [of "ref_counter t"] by (intro unat_add_one_of_lt) (auto simp: word_unat_eq_iff)
  let ?rt = "rt\<lparr>rt_heap := (rt_heap rt)(p \<mapsto> ?t), rt_current := rt_current ?R\<rparr>"
  have drops: "and_then (task_drop frame_drop p ?rt1) (task_drop frame_drop p) = Inr ?rt"
    using drop_counted [of ?rt1 p "?t\<lparr>ref_counter := ref_counter t + 1\<rparr>" frame_drop]
      drop_counted [of "?rt1\<lparr>rt_heap := (rt_heap ?rt1)(p \<mapsto> ?t\<lparr>ref_counter := ref_counter t\<rparr>)\<rparr>" p "?t\<lparr>ref_counter := ref_counter t\<rparr>" frame_drop]
      up assms(7) by simp
  have first: "?h c rt = Inr ?rt"
    using delivered [of c rt p t E] ent [of c] assms(1,2,8) rt1 drops by simp
  have u: "unat (ref_counter t - 1) = unat (ref_counter t) - 1" using assms(7) by (intro unat_sub_one) auto
  have "evaluate_syscall_nb (syscall_nb t) ?t = Expired"
    using assms(5) rank_succ [of "syscall_nb t"] number_taken(2) [OF assms(4)] by (simp add: evaluate_syscall_nb_eq)
  then have late: "\<forall>c \<in> set cs. udata_idx (cqe_user_data c) = i \<and> evaluate_syscall_nb (entry_nb (cqe_user_data c)) ?t = Expired \<and>
      \<not> env_more E (cqe_flags c)" using ent by auto
  have max: "ref_counter ?t \<noteq> U16_MAX" using u assms(7) unat_u16_lt [of "ref_counter t"] by (auto simp: word_unat_eq_iff)
  have "rt_heap rt' p = None" if n: "Suc (length cs) = unat (ref_counter t)" and res: "fold_res ?h (c # cs) rt = Inr rt'" for rt'
  proof (rule expired_all [where i = i, OF _ _ max])
    show "fold_res ?h cs ?rt = Inr rt'" using res by (simp add: first)
    show "length cs = unat (ref_counter ?t)" "cs \<noteq> []" using n u assms(7) by auto
  qed (use assms(1) late in auto)
  moreover have "\<exists>rt'. fold_res ?h (c # cs) rt = Inr rt' \<and>
      rt_heap rt' p = Some (?t\<lparr>ref_counter := ref_counter t - of_nat (Suc (length cs))\<rparr>)" if "Suc (length cs) < unat (ref_counter t)"
    using expired_batch [OF _ _ max _ late, of ?rt p] assms(1) first that u by (simp add: diff_diff_eq)
  ultimately show ?thesis by (intro exI [of _ ?s]) simp
qed

definition fan_out_pair :: wm_pending where
  "fan_out_pair = \<lparr>wm_in_fligth_count = 2, wm_fds = [7, 8], wm_faileds = [], wm_len = 4, wm_buffer = \<lparr>w_ptr = 0x12000, w_abs_idx = 2\<rparr>\<rparr>"

definition written :: "u16 \<Rightarrow> cqe" where
  "written g = \<lparr>cqe_user_data = into_user_data \<lparr>up_task_idx = 0, up_response_gen = g, up_syscall_nb = 0\<rparr>, cqe_result = 4, cqe_flags = 0\<rparr>"

theorem fan_out_await_lost_witness:
  "\<exists>rt' t'. fold_res (handle_cqe_entry demo_env (frame_poll demo_env) frame_drop) [written 1, written 0]
     (lone_rt (lone_task \<lparr>fr_state = Await (Aw_write_multiple (WM_Pending fan_out_pair) (\<lambda>_. Crash)), fr_locals = []\<rparr> 3 0)) = Inr rt' \<and>
     rt_heap rt' 0x1000 = Some t' \<and> ref_counter t' = 1 \<and> syscall_nb t' = 1"
proof -
  let ?t = "lone_task \<lparr>fr_state = Await (Aw_write_multiple (WM_Pending fan_out_pair) (\<lambda>_. Crash)), fr_locals = []\<rparr> 3 0"
  have await: "fr_state (task_fut ?t) = Await (Aw_write_multiple (WM_Pending fan_out_pair) (\<lambda>_. Crash))" by (simp add: lone_task_def)
  have t: "\<not> is_multiple (syscall_nb ?t)" "rank (syscall_nb ?t) < 32767" "2 \<le> unat (ref_counter ?t)" "ref_counter ?t \<noteq> U16_MAX"
    by (simp_all add: lone_task_def is_multiple_iff rank_def)
  have "\<exists>g. cqe_user_data (written h) = into_user_data \<lparr>up_task_idx = 0, up_response_gen = g, up_syscall_nb = syscall_nb ?t\<rparr> \<and>
      unat g < length (wm_fds fan_out_pair) \<and> \<not> env_more demo_env (cqe_flags (written h))" if "h < 2" for h
    using that by (intro exI [of _ h]) (simp add: written_def lone_task_def fan_out_pair_def demo_env_def word_less_nat_alt)
  then have ents: "\<forall>c \<in> set [written 1, written 0]. \<exists>g. cqe_user_data c = into_user_data \<lparr>up_task_idx = 0, up_response_gen = g,
      up_syscall_nb = syscall_nb ?t\<rparr> \<and> unat g < length (wm_fds fan_out_pair) \<and> \<not> env_more demo_env (cqe_flags c)" by simp
  have s: "2 \<le> unat (wm_in_fligth_count fan_out_pair)" "wm_fds fan_out_pair ! unat (up_response_gen (from_user_data (cqe_user_data (written 1)))) \<noteq> U32_MAX"
    by (simp_all add: fan_out_pair_def written_def from_into_user_data)
  from fan_out_await_lost [OF lone_index await t(1,2) s(1) t(3,4) ents s(2)] show ?thesis
    by (auto simp: lone_task_def)
qed

text \<open>C35. The end of a stream panics. A task whose body awaits the next item of a running read stream panics
  on the completion that ends the stream normally: result 0, no buffer. And a body that is over while
  operations of its task are in flight is polled again by the next completion with the task's number, and
  panics: in multiple mode every completion of the task carries it.\<close>

theorem stream_end_panics:
  assumes "slab_index (udata_idx (cqe_user_data c)) (rt_tasks rt) = Inr p" "rt_heap rt p = Some t"
    "ref_counter t \<noteq> U16_MAX" "entry_nb (cqe_user_data c) = syscall_nb t"
  shows "(\<forall>i j k sr. fr_state (task_fut t) = Await (Aw_read_next i j k) \<and> map_of (fr_locals (task_fut t)) i = Some (L_read sr) \<and>
      rs_state sr = SS_Running \<and> cqe_result c = 0 \<and> env_buffer_select E (cqe_flags c) = None \<longrightarrow>
      handle_cqe_entry E (frame_poll E) frame_drop c rt = Inl (Panic Missing_buf_id)) \<and>
    (fr_state (task_fut t) = Stopped \<longrightarrow>
      handle_cqe_entry E (frame_poll E) frame_drop c rt = Inl (Panic Resumed_after_completion))"
  unfolding delivered [OF assms]
  by (auto simp: task_poll_with_def frame_poll_def resume_def poll_read_next_def read_poll_next_def current_result_def
      current_cqe_flags_def expect_def Let_def)

theorem stream_end_panics_witness:
  "handle_cqe_entry demo_env (frame_poll demo_env) frame_drop
     \<lparr>cqe_user_data = into_user_data \<lparr>up_task_idx = 0, up_response_gen = 0, up_syscall_nb = 0x8000\<rparr>, cqe_result = 0, cqe_flags = 0\<rparr>
     (lone_rt (lone_task \<lparr>fr_state = Await (Aw_read_next 0 1 (\<lambda>_. Done)), fr_locals = [(0, L_read \<lparr>rs_fd = 3, rs_state = SS_Running\<rparr>)]\<rparr> 1 0x8000)) =
   Inl (Panic Missing_buf_id) \<and>
   handle_cqe_entry demo_env (frame_poll demo_env) frame_drop
     \<lparr>cqe_user_data = into_user_data \<lparr>up_task_idx = 0, up_response_gen = 0, up_syscall_nb = 0x8000\<rparr>, cqe_result = 0, cqe_flags = 0\<rparr>
     (lone_rt (lone_task \<lparr>fr_state = Stopped, fr_locals = []\<rparr> 1 0x8000)) = Inl (Panic Resumed_after_completion)"
proof -
  let ?c = "\<lparr>cqe_user_data = into_user_data \<lparr>up_task_idx = 0, up_response_gen = 0, up_syscall_nb = 0x8000\<rparr>, cqe_result = 0, cqe_flags = 0\<rparr>"
  have "slab_index (udata_idx (cqe_user_data ?c)) (rt_tasks (lone_rt t)) = Inr 0x1000" for t
    by (simp add: udata_idx_into lone_index)
  note ends = stream_end_panics [OF this lone_index(2), where E = demo_env]
  show ?thesis
    using ends [of "lone_task \<lparr>fr_state = Await (Aw_read_next 0 1 (\<lambda>_. Done)), fr_locals = [(0, L_read \<lparr>rs_fd = 3, rs_state = SS_Running\<rparr>)]\<rparr> 1 0x8000"]
      ends [of "lone_task \<lparr>fr_state = Stopped, fr_locals = []\<rparr> 1 0x8000"]
    by (simp add: lone_task_def from_into_user_data demo_env_def)
qed

text \<open>C37. A commit is ended by any completion that carries its task's number, whichever entry it belongs to.
  In multiple mode, which the commit's own entry needs, these are all the task's completions, those of
  its receive among them: the commit gives its buffer back to the kernel, with its write still in
  flight, and the body goes on with that completion's result as the number of bytes written.\<close>

theorem commit_takes_any_completion:
  assumes "slab_index (udata_idx (cqe_user_data c)) (rt_tasks rt) = Inr p" "rt_heap rt p = Some t"
    "ref_counter t \<noteq> U16_MAX" "entry_nb (cqe_user_data c) = syscall_nb t" "is_multiple (syscall_nb t)"
    "fr_state (task_fut t) = Await (Aw_commit b (CF_Pending i) k)"
  shows "handle_cqe_entry E (frame_poll E) frame_drop c rt =
    and_then (task_poll_with (\<lambda>rt. and_then (release_read_buf i rt) (\<lambda>rt. and_then (rwbuffer_drop b rt)
      (run E (k (cqe_result c)) (fr_locals (task_fut t))))) p
      (rt\<lparr>rt_heap := (rt_heap rt)(p \<mapsto> t\<lparr>ref_counter := ref_counter t + 1\<rparr>), rt_current := TaskInfo_from_entry c\<rparr>)) (\<lambda>(_, rt).
    and_then (if env_more E (cqe_flags c) then Inr rt else task_drop frame_drop p rt) (task_drop frame_drop p))"
proof -
  let ?R = "rt\<lparr>rt_heap := (rt_heap rt)(p \<mapsto> t\<lparr>ref_counter := ref_counter t + 1\<rparr>), rt_current := TaskInfo_from_entry c\<rparr>"
  have tag: "tag_syscall_nb (ti_tag (TaskInfo_from_entry c)) = syscall_nb t"
    using assms(4) by (simp add: TaskInfo_from_entry_def Let_def payload_from_entry_def)
  have "(ti_tag (TaskInfo_from_entry c))\<lparr>tag_syscall_nb := syscall_nb t\<rparr> = ti_tag (TaskInfo_from_entry c)"
    unfolding tag [symmetric] by simp
  then have R: "polled_for c p t rt = ?R" using assms(5) by (simp add: polled_for_def dispatched_def Let_def)
  have res: "current_result rt' = cqe_result c" if "release_read_buf j ?R = Inr rt'" for j rt'
    using that by (auto simp: release_read_buf_def res_simps current_result_def TaskInfo_from_entry_def Let_def)
  have "frame_poll E (task_fut t) ?R = and_then (release_read_buf i ?R) (\<lambda>rt. and_then (rwbuffer_drop b rt)
      (run E (k (cqe_result c)) (fr_locals (task_fut t))))"
    using assms(6) res by (cases "release_read_buf i ?R")
      (auto simp: frame_poll_def resume_def await_leaf_def commit_poll_def)
  then show ?thesis unfolding delivered [OF assms(1-4)] R by (simp add: task_poll_with_def)
qed

definition committing :: "frame" where
  "committing = \<lparr>fr_state = Await (Aw_commit \<lparr>rw_ptr = 0x10000, rw_buf_idx = 0, rw_fd_idx = 3, rw_bytes = 5, rw_committed = True\<rparr>
     (CF_Pending 0) (\<lambda>n. if n = 6 then Crash else Done)), fr_locals = []\<rparr>"

theorem commit_takes_any_completion_witness:
  "handle_cqe_entry demo_env (frame_poll demo_env) frame_drop
     \<lparr>cqe_user_data = into_user_data \<lparr>up_task_idx = 0, up_response_gen = 0, up_syscall_nb = 0x8000\<rparr>, cqe_result = 6, cqe_flags = 0x10003\<rparr>
     (lone_rt (lone_task committing 2 0x8000)) = Inl (Panic Client_panic)"
proof -
  let ?c = "\<lparr>cqe_user_data = into_user_data \<lparr>up_task_idx = 0, up_response_gen = 0, up_syscall_nb = 0x8000\<rparr>, cqe_result = 6, cqe_flags = 0x10003\<rparr>"
  let ?t = "lone_task committing 2 0x8000"
  have i: "slab_index (udata_idx (cqe_user_data ?c)) (rt_tasks (lone_rt ?t)) = Inr 0x1000"
    by (simp add: udata_idx_into lone_index)
  have "ring_wf 2 (rt_buf_ring (lone_rt ?t))" by (simp add: ring_wf_def lone_rt_def demo_rt_def exI [of _ 1])
  from release_spec [OF this, of "rt_buffer (lone_rt ?t)" 0] obtain m where
    m: "release_buf_to_ring 0 (rt_buffer (lone_rt ?t)) (rt_buf_ring (lone_rt ?t)) = Inr m"
    by (auto simp: lone_rt_def demo_rt_def demo_pool_def)
  from commit_takes_any_completion [OF i lone_index(2), of _ 0 "\<lambda>n. if n = 6 then Crash else Done" demo_env] m show ?thesis
    by (simp add: lone_task_def committing_def from_into_user_data is_multiple_iff task_poll_with_def release_read_buf_def rwbuffer_drop_def)
qed

end
