(* ===== verification/Freed_Reads.thy ===== *)
theory Freed_Reads
  imports Resources
begin

text \<open>
  The read of freed memory in \<open>Task::release\<close> (\<open>src/src/task.rs\<close>), which the state counts in
  \<open>rt_freed_reads\<close>. No operation frees a task without it: whenever an allocation that was there is
  gone, the count has grown. The locale \<open>paying_client\<close> carries this from polls and destructors to whole
  runs; the bodies of \<open>Client\<close> meet it.
\<close>

subsection \<open>Nothing is freed without the read\<close>

definition pays :: "'f runtime \<Rightarrow> 'f runtime \<Rightarrow> bool" where
  "pays rt rt' \<longleftrightarrow> rt_freed_reads rt \<le> rt_freed_reads rt' \<and>
     (dom (rt_heap rt) \<subseteq> dom (rt_heap rt') \<or> rt_freed_reads rt < rt_freed_reads rt')"

lemma pays_refl [simp]: "pays rt rt"
  by (simp add: pays_def)

lemma pays_trans: "pays a b \<Longrightarrow> pays b c \<Longrightarrow> pays a c"
  by (auto simp: pays_def)

lemma pays_fields [simp]:
  "pays a (rt\<lparr>rt_current := c\<rparr>) \<longleftrightarrow> pays a rt" "pays a (rt\<lparr>rt_tasks := s\<rparr>) \<longleftrightarrow> pays a rt"
  "pays a (rt\<lparr>rt_free_list := l\<rparr>) \<longleftrightarrow> pays a rt" "pays a (rt\<lparr>rt_pending := q\<rparr>) \<longleftrightarrow> pays a rt"
  "pays a (rt\<lparr>rt_wake_list := w\<rparr>) \<longleftrightarrow> pays a rt" "pays (rt\<lparr>rt_current := c\<rparr>) b \<longleftrightarrow> pays rt b"
  "pays (rt\<lparr>rt_wake_list := w\<rparr>) b \<longleftrightarrow> pays rt b" "pays (rt\<lparr>rt_pending := q\<rparr>) b \<longleftrightarrow> pays rt b"
  by (simp_all add: pays_def)

lemma pays_update: "rt_heap rt p = Some t \<Longrightarrow> pays a rt \<Longrightarrow> pays a (rt\<lparr>rt_heap := (rt_heap rt)(p \<mapsto> t')\<rparr>)"
  by (auto simp: pays_def)

lemma pays_at [simp]: "rt_heap rt p = Some t \<Longrightarrow> pays rt (rt\<lparr>rt_heap := (rt_heap rt)(p \<mapsto> t')\<rparr>)"
  by (simp add: pays_update)

lemma pays_unseen: "unseen rt rt' \<Longrightarrow> pays rt rt'"
  by (simp add: pays_def unseen_def)

lemma pays_untouched: "untouched rt rt' \<Longrightarrow> pays rt rt'"
proof -
  assume u: "untouched rt rt'"
  have "dom (rt_heap x) = dom (futs x)" for x :: rt by (auto simp: futs_def)
  then show ?thesis using u by (simp add: pays_def untouched_def)
qed

text \<open>The same of the runtime in a result.\<close>

definition charged :: "'f runtime \<Rightarrow> ('a \<Rightarrow> 'f runtime) \<Rightarrow> 'a res \<Rightarrow> bool" where
  "charged rt sel r \<longleftrightarrow> (\<forall>x. r = Inr x \<longrightarrow> pays rt (sel x))"

named_theorems charged_intros \<open>operations that free nothing without the read\<close>

lemma charged_simps [simp]: "charged rt sel (Inr x) \<longleftrightarrow> pays rt (sel x)" "charged rt sel (Inl e)"
  by (simp_all add: charged_def)

lemma charged_then:
  "charged rt sel m \<Longrightarrow> (\<And>x. m = Inr x \<Longrightarrow> charged (sel x) sel' (f x)) \<Longrightarrow> charged rt sel' (and_then m f)"
  unfolding charged_def by (cases m) (auto intro: pays_trans)

lemma charged_step: "charged rt id m \<Longrightarrow> (\<And>rt'. charged rt' sel (f rt')) \<Longrightarrow> charged rt sel (and_then m f)"
  by (rule charged_then [where sel = id]) simp_all

lemma charged_from: "charged rt' sel r \<Longrightarrow> pays rt rt' \<Longrightarrow> charged rt sel r"
  unfolding charged_def using pays_trans by blast

lemma charged_value: "(\<And>x. m = Inr x \<Longrightarrow> charged rt sel (f x)) \<Longrightarrow> charged rt sel (and_then m f)"
  by (cases m) simp_all

lemma charged_still: "still rt sel r \<Longrightarrow> charged rt sel r"
  by (cases r) (auto intro: pays_untouched)

lemma charged_buffers: "buffers_only rt r \<Longrightarrow> charged rt id r"
  by (auto simp: charged_def buffers_only_def intro: pays_unseen)

subsection \<open>Tasks\<close>

lemma charged_with_task: "charged rt id (with_task i f rt)"
  by (auto simp: charged_def with_task_def task_update_def task_deref_def res_simps split: option.splits)

lemma charged_clone_task: "charged rt snd (clone_task_at i rt)"
  by (auto simp: charged_def clone_task_at_def task_clone_def task_update_def task_deref_def res_simps
      split: option.splits)

lemma spawn_insert_heap:
  assumes "spawn_insert E fut rt = Inr (p, old, rt')"
  shows "dom (rt_heap rt') = insert p (dom (rt_heap rt))" "rt_freed_reads rt' = rt_freed_reads rt"
  using assms by (auto simp: spawn_insert_def task_alloc_def task_clone_def task_update_def task_deref_def insert_task_def
      set_task_idx_def res_simps Let_def split: option.splits prod.splits if_splits)

lemma charged_spawn_insert: "charged rt (snd \<circ> snd) (spawn_insert E fut rt)"
  unfolding charged_def pays_def using spawn_insert_heap by fastforce

lemma charged_poll_with:
  assumes "\<And>rt. charged rt (snd \<circ> snd) (body rt)"
  shows "charged rt snd (task_poll_with body p rt)"
  unfolding task_poll_with_def
  by (rule charged_then [OF assms]) (auto simp: charged_def task_deref_def res_simps split: option.splits)

locale paying_drop =
  fixes drop_fn :: "'f drop_fn"
  assumes drop: "drop_ok drop_fn"
begin

lemma release: "charged rt snd (task_release drop_fn p rt)"
  unfolding task_release_def
proof (rule charged_value, rule charged_value)
  fix t n
  assume "task_deref p (rt_heap rt) = Inr t"
  then have t: "rt_heap rt p = Some t" by (simp add: task_deref_def split: option.splits)
  let ?rt = "rt\<lparr>rt_heap := (rt_heap rt)(p \<mapsto> t\<lparr>ref_counter := n\<rparr>)\<rparr>"
  have freed: "rt_freed_reads rt1 = rt_freed_reads rt" if "drop_fn f (rt\<lparr>rt_heap := h\<rparr>) = Inr rt1" for f h rt1
    using drop that by (auto simp: drop_ok_def unseen_def)
  show "charged rt snd (let rt = ?rt in if n = 0
      then and_then (drop_fn (task_fut t) rt) (\<lambda>rt. and_then (task_deref p (rt_heap rt)) (\<lambda>raw.
        let rt = rt\<lparr>rt_heap := (rt_heap rt)(p := None)\<rparr>;
            rt = (case slab_idx raw of Some i \<Rightarrow> rt\<lparr>rt_free_list := rt_free_list rt @ [i]\<rparr> | None \<Rightarrow> rt)
        in Inr (None, rt\<lparr>rt_freed_reads := Suc (rt_freed_reads rt)\<rparr>)))
      else Inr (Some n, rt))"
    using t by (auto simp: Let_def pays_def dest!: freed intro!: charged_value split: option.split)
qed

lemma task_dropped: "charged rt id (task_drop drop_fn p rt)"
  unfolding task_drop_def by (rule charged_then [OF release]) auto

lemma spawned_run:
  assumes "\<And>rt. charged rt (snd \<circ> snd) (body rt)"
  shows "charged rt id (spawn_run E body drop_fn fut rt)"
  unfolding spawn_run_def spawn_finish_def
  by (rule charged_then [OF charged_spawn_insert]) (auto intro!: charged_then [OF charged_poll_with [OF assms]]
      charged_then [OF release] charged_from [OF task_dropped] split: prod.split)

end

locale paying_client = paying_drop drop_fn for drop_fn :: "'f drop_fn" +
  fixes E :: "'f env" and poll_fn :: "'f poll_fn"
  assumes poll: "charged rt (snd \<circ> snd) (poll_fn f rt)"
begin

lemma polled: "charged rt snd (task_poll poll_fn p rt)"
  unfolding task_poll_def by (rule charged_value) (rule charged_poll_with [OF poll])

lemma dispatched: "charged rt id (dispatch_cqe poll_fn p info rt)"
proof -
  have to: "charged rt id (and_then (task_poll poll_fn p rt') (\<lambda>(_, rt). Inr rt))" if "pays rt rt'" for rt'
    by (rule charged_then [OF charged_from [OF polled that]]) auto
  have "pays rt (rt\<lparr>rt_heap := h, rt_current := i\<rparr>)" if "task_update p f (rt_heap rt) = Inr h" for f h i
    using that by (auto simp: task_update_def task_deref_def res_simps pays_def split: option.splits)
  then show ?thesis unfolding dispatch_cqe_def Let_def
    by (auto intro!: charged_value to split: SyscallNbCompResult.split)
qed

lemma handled: "charged rt id (handle_cqe_entry E poll_fn drop_fn c rt)"
  unfolding handle_cqe_entry_def Let_def
  by (rule charged_then [OF charged_clone_task])
    (auto intro!: charged_then [OF dispatched] charged_then [OF task_dropped] task_dropped split: prod.split)

lemma handled_all: "charged rt id (fold_res (handle_cqe_entry E poll_fn drop_fn) cs rt)"
proof (induction cs arbitrary: rt)
  case (Cons c cs)
  show ?case unfolding fold_res.simps by (rule charged_then [OF handled]) (use Cons.IH in simp)
qed simp

lemma woken: "charged rt id (wake_one poll_fn drop_fn awake rt)"
  unfolding wake_one_def
  by (rule charged_then [OF charged_from [OF charged_clone_task]])
    (auto intro!: charged_then [OF polled] task_dropped split: prod.split)

lemma drained:
  assumes "drain_wake_list poll_fn drop_fn rt = Some r"
  shows "charged rt id r"
proof -
  have "p = poll_fn \<longrightarrow> d = drop_fn \<longrightarrow> charged rt id r" if "drain_wake_list p d rt = Some r" for p d rt r
  proof (rule drain_wake_list.raw_induct [OF _ that], goal_cases)
    case (1 drain p d rt r)
    show ?case
    proof (intro impI)
      assume eq: "p = poll_fn" "d = drop_fn"
      show "charged rt id r"
      proof (cases "rt_wake_list rt")
        case (Cons awake rest)
        show ?thesis
        proof (cases "wake_one p d awake (rt\<lparr>rt_wake_list := rest\<rparr>)")
          case (Inr rt')
          then have "drain p d rt' = Some r" using 1(2) Cons by simp
          then have "charged rt' id r" using 1(1) eq by blast
          moreover have "pays rt rt'" using woken [of "rt\<lparr>rt_wake_list := rest\<rparr>" awake] Inr eq by simp
          ultimately show ?thesis by (rule charged_from)
        next
          case (Inl e)
          then have "r = Inl e" using 1(2) Cons by simp
          then show ?thesis by simp
        qed
      qed (use 1(2) in auto)
    qed
  qed
  with assms show ?thesis by blast
qed

lemma slots_freed: "charged rt id (free_unsed_slab_slot rt)"
  unfolding free_unsed_slab_slot_def by (rule charged_value) simp

lemma turn:
  assumes "loop_body E poll_fn drop_fn cs rt = Some r"
  shows "charged rt snd r"
proof (cases "free_unsed_slab_slot rt")
  case (Inr rt1)
  then have rt1: "pays rt rt1" using slots_freed [of rt] by simp
  show ?thesis
  proof (cases "fold_res (handle_cqe_entry E poll_fn drop_fn) cs rt1")
    case (Inr rt2)
    then have rt2: "pays rt rt2" using handled_all [of rt1 cs] pays_trans [OF rt1] by simp
    have "pays rt rt4" if "drain_wake_list poll_fn drop_fn rt2 = Some (Inr rt3)" "free_unsed_slab_slot rt3 = Inr rt4" for rt3 rt4
    proof -
      have "pays rt2 rt3" "pays rt3 rt4" using drained [OF that(1)] slots_freed [of rt3] that(2) by simp_all
      then show ?thesis using pays_trans rt2 by blast
    qed
    then show ?thesis using assms Inr rt1 \<open>free_unsed_slab_slot rt = Inr rt1\<close>
      by (auto simp: loop_body_def charged_def res_simps split: if_splits option.splits sum.splits)
  qed (use assms Inr rt1 in \<open>auto simp: loop_body_def split: if_splits\<close>)
qed (use assms in \<open>auto simp: loop_body_def\<close>)

lemma loop_paid: "block_loop E poll_fn drop_fn kern n K rt = Finished rt' \<Longrightarrow> pays rt rt'"
proof (induction n arbitrary: K rt)
  case (Suc n)
  obtain es rt1 where sub: "submit_pending E rt = Inr (es, rt1)" using Suc.prems by (auto split: sum.splits)
  then have rt1: "pays rt rt1" by (auto simp: submit_pending_def res_simps)
  obtain cs where cs: "kern n (K @ map sqe_user_data es) = Completions cs"
    using Suc.prems sub by (auto simp: Let_def split: kernel_turn.splits)
  obtain over rt2 where body: "loop_body E poll_fn drop_fn cs rt1 = Some (Inr (over, rt2))"
    using Suc.prems sub cs by (auto simp: Let_def split: option.splits sum.splits)
  then have rt2: "pays rt rt2" using turn [OF body] pays_trans [OF rt1] by simp
  show ?case
  proof (cases over)
    case False
    from Suc.prems have "pays rt2 rt'" by (intro Suc.IH) (simp add: sub cs body False Let_def)
    with rt2 show ?thesis by (rule pays_trans)
  qed (use Suc.prems sub cs body rt2 in \<open>simp add: Let_def\<close>)
qed simp

text \<open>A run that returns with no task left has read freed memory at least once.\<close>

lemma return_paid:
  assumes "rt_heap rt = Map.empty" "block_on E poll_fn drop_fn kern n fut rt = Finished rt'" "rt_heap rt' = Map.empty"
  shows "rt_freed_reads rt < rt_freed_reads rt'"
proof -
  obtain rt3 rt4 where sp: "spawn E poll_fn drop_fn fut rt = Inr rt3" "free_unsed_slab_slot rt3 = Inr rt4"
    using assms(2) by (auto simp: block_on_def res_simps split: sum.splits)
  have end_: "pays rt4 rt'" using assms(2) sp loop_paid [of kern n "[]" rt4 rt'] by (auto simp: block_on_def split: if_splits)
  obtain p old rt1 where ins: "spawn_insert E fut rt = Inr (p, old, rt1)"
    and rest: "and_then (task_poll poll_fn p rt1) (\<lambda>(_, rt). spawn_finish drop_fn p old rt) = Inr rt3"
    using sp(1) by (auto simp: spawn_def res_simps)
  have "charged rt1 id (and_then (task_poll poll_fn p rt1) (\<lambda>(_, rt). spawn_finish drop_fn p old rt))"
    unfolding spawn_finish_def
    by (rule charged_then [OF polled]) (auto intro!: charged_then [OF release] charged_from [OF task_dropped] split: prod.split)
  then have "pays rt1 rt3" using rest by simp
  moreover have "pays rt3 rt4" using slots_freed [of rt3] sp(2) by simp
  ultimately have "pays rt1 rt'" using end_ pays_trans by blast
  moreover have "rt_freed_reads rt1 = rt_freed_reads rt" "p \<in> dom (rt_heap rt1)"
    using spawn_insert_heap [OF ins] by simp_all
  ultimately show ?thesis using assms(3) by (auto simp: pays_def)
qed

end

subsection \<open>The bodies\<close>

interpretation frames: paying_drop frame_drop
  by unfold_locales (rule frame_drop_ok)

lemma charged_drops [charged_intros]:
  "charged rt id (rwbuffer_drop b rt)" "charged rt id (drop_wbuffer w rt)" "charged rt id (write_multiple_drop f rt)"
  "charged rt id (drop_local l rt)" "charged rt id (drop_locals ls rt)"
  by (rule charged_buffers, rule buffers_only_drops buffers_only_drop_local buffers_only_drop_locals)+

lemma charged_pool [charged_intros]:
  "charged rt id (clone_wbuffer w rt)" "charged rt snd (alloc_write_buffer rt)" "charged rt id (release_read_buf i rt)" for rt :: rt
  by (auto simp: charged_def clone_wbuffer_def alloc_write_buffer_def res_simps pays_def
      dest!: on_pool_unseen release_read_buf_unseen simp: unseen_def)

lemma charged_assign [charged_intros]: "charged rt snd (assign i l ls rt)"
  unfolding assign_def by (rule charged_then [where sel = id]) (auto intro: charged_drops split: option.split)

lemma charged_leaf: "charged rt id m \<Longrightarrow> charged rt (snd \<circ> snd) (and_then m (\<lambda>rt. Inr (a rt, b rt, rt)))"
  by (rule charged_then [where sel = id]) auto

lemma charged_fan_out [charged_intros]: "charged rt (snd \<circ> snd) (write_multiple_poll f rt)" for rt :: rt
proof -
  have w: "charged rt id (send_writes ud w len k fds rt)" for ud w len k fds and rt :: rt
  proof (induction fds arbitrary: k rt)
    case (Cons fd fds)
    show ?case unfolding send_writes.simps wbuffer_write_def and_then_assoc and_then_Inr split_conv
      by (rule charged_step [OF charged_pool(1)], rule charged_step [OF charged_drops(2)])
        (rule charged_from [OF Cons.IH], simp add: sqe_queue_push_def)
  qed simp
  have send: "charged rt id (send_multiple_write fds w len rt)" for fds w len and rt :: rt
    unfolding send_multiple_write_def Let_def
    by (rule charged_step [OF w], rule charged_step [OF charged_with_task], rule charged_drops)
  have tag: "charged rt id (advance_syscall_nb t rt)" for t and rt :: rt
    unfolding advance_syscall_nb_def by (rule charged_with_task)
  show ?thesis
  proof (cases f)
    case (WM_Init fds b len)
    show ?thesis unfolding WM_Init write_multiple_poll_def WriteMultipleFuture.case submits
      by (rule charged_step [OF charged_pool(1)], rule charged_leaf [OF send])
  next
    case (WM_Pending st)
    have "pays rt r" if "advance_syscall_nb t rt = Inr r" for t r using tag [of rt t] that by simp
    then show ?thesis unfolding WM_Pending write_multiple_poll_def
      by (auto simp: charged_def Let_def res_simps split: if_splits)
  qed (simp add: write_multiple_poll_def)
qed

lemma charged_polls [charged_intros]:
  "charged rt (snd \<circ> snd) (accept_poll fa rt)" "charged rt (snd \<circ> snd) (write_poll fw rt)"
  "charged rt (snd \<circ> snd) (socket_poll a fs rt)" "charged rt (snd \<circ> snd) (accept_poll_next E sa rt)"
  "charged rt (snd \<circ> snd) (commit_poll fc rt)" "charged rt (snd \<circ> snd) (read_poll E fr rt)"
  "charged rt (snd \<circ> snd) (read_poll_next E sr rt)" for rt :: rt
proof -
  show "charged rt (snd \<circ> snd) (accept_poll fa rt)" "charged rt (snd \<circ> snd) (write_poll fw rt)"
    "charged rt (snd \<circ> snd) (socket_poll a fs rt)" "charged rt (snd \<circ> snd) (accept_poll_next E sa rt)"
    using still_polls by (auto intro: charged_still)
  show "charged rt (snd \<circ> snd) (commit_poll fc rt)"
    by (cases fc) (auto simp: commit_poll_def intro!: charged_leaf charged_pool charged_still [OF still_sends(6)])
  show "charged rt (snd \<circ> snd) (read_poll E fr rt)"
    using charged_still [OF still_sends(1), of rt] charged_pool(3) [of rt]
    by (auto simp: charged_def read_poll_def Let_def res_simps split: ReadFuture.splits option.splits if_splits)
  show "charged rt (snd \<circ> snd) (read_poll_next E sr rt)"
    using charged_still [OF still_multishot(1), of rt]
    by (auto simp: charged_def read_poll_next_def Let_def res_simps split: stream_state.splits if_splits)
qed

lemma charged_await:
  assumes "charged rt (snd \<circ> snd) r" "\<And>leaf v rt. charged rt (snd \<circ> snd) (go leaf v rt)"
  shows "charged rt (snd \<circ> snd) (await_leaf r wrap ls go)"
  unfolding await_leaf_def by (rule charged_then [OF assms(1)]) (use assms(2) in \<open>auto split: poll_result.split prod.split\<close>)

lemma charged_bind:
  assumes "\<And>n ls rt. charged rt (snd \<circ> snd) (go n ls rt)"
  shows "charged rt (snd \<circ> snd) (bind_buffer j b ls rt go)"
  unfolding bind_buffer_def by (rule charged_then [OF charged_assign]) (use assms in \<open>auto split: prod.split\<close>)

lemma charged_read:
  "(\<And>v ls rt. charged rt (snd \<circ> snd) (go v ls rt)) \<Longrightarrow> charged rt (snd \<circ> snd) (read_done j v ls rt go)"
  unfolding read_done_def by (auto intro: charged_bind split: sum.split)

lemma charged_next:
  assumes "\<And>v ls rt. charged rt (snd \<circ> snd) (go v ls rt)"
  shows "charged rt (snd \<circ> snd) (poll_accept_next E i k go ls rt)" "charged rt (snd \<circ> snd) (poll_read_next E i j k go ls rt)"
  unfolding poll_accept_next_def poll_read_next_def Let_def
  by (auto intro!: charged_then [OF charged_polls(4)] charged_then [OF charged_polls(7)] charged_bind assms
      split: option.split local_value.split poll_result.split prod.split)

lemma charged_run: "charged rt (snd \<circ> snd) (run E p ls rt)"
  by (induction p arbitrary: ls rt)
    (auto simp: Let_def intro!: charged_await charged_read charged_next charged_step [OF frames.spawned_run]
      charged_step [OF charged_drops(1)] charged_step [OF charged_drops(3)] charged_step [OF charged_drops(4)]
      charged_step [OF charged_drops(5)] charged_then [OF charged_assign] charged_then [OF charged_pool(2)]
      charged_step [OF charged_pool(1)] charged_intros split: option.split local_value.split prod.split)

lemma charged_resume: "charged rt (snd \<circ> snd) (resume E a ls rt)"
  by (cases a) (auto simp: resume_def charged_run intro!: charged_await charged_read charged_next
      charged_step [OF charged_drops(1)] charged_step [OF charged_drops(3)] charged_intros)

lemma charged_frame: "charged rt (snd \<circ> snd) (frame_poll E fr rt)"
  by (auto simp: frame_poll_def charged_run charged_resume split: suspended.split)

interpretation freeing: paying_client frame_drop E "frame_poll E"
  for E
  by unfold_locales (rule charged_frame)

end
