(* ===== verification/Debug_Output.thy ===== *)
theory Debug_Output
  imports Event_Loop
begin

text \<open>
  What the debug profile prints of entries (\<open>src/src/runtime.rs\<close>): one line per staged entry before it
  is submitted and one per completion received. A line is the tuple of the values it shows; the text
  around them is fixed. The number of the opcode is the io_uring crate's and an argument.
\<close>

datatype debug_line =
    Sqe_line u8 u16 u16 SlabIdx             \<comment> \<open>opcode, generation, number, task\<close>
  | Cqe_line i32 u32 u16 u16 SlabIdx        \<comment> \<open>result, flags, generation, number, task\<close>

definition from_sqe_entry :: "sqe \<Rightarrow> user_data_payload" where
  "from_sqe_entry entry = from_user_data (sqe_user_data entry)"

definition debug_pending :: "(opcode \<Rightarrow> u8) \<Rightarrow> 'f runtime \<Rightarrow> debug_line list" where
  "debug_pending opcode_nb rt =
     map (\<lambda>entry. let payload = from_sqe_entry entry
                  in Sqe_line (opcode_nb (sqe_op entry)) (up_response_gen payload) (up_syscall_nb payload)
                       (up_task_idx payload)) (rt_pending rt)"

definition debug_cqe_entries :: "cqe list \<Rightarrow> debug_line list" where
  "debug_cqe_entries entries =
     map (\<lambda>entry. let payload = payload_from_entry entry
                  in Cqe_line (cqe_result entry) (cqe_flags entry) (up_response_gen payload)
                       (up_syscall_nb payload) (up_task_idx payload)) entries"

text \<open>The task, number and generation of a line.\<close>

definition line_payload :: "debug_line \<Rightarrow> user_data_payload" where
  "line_payload l =
     (case l of
        Sqe_line opc gen nb i \<Rightarrow> \<lparr>up_task_idx = i, up_response_gen = gen, up_syscall_nb = nb\<rparr>
      | Cqe_line res fl gen nb i \<Rightarrow> \<lparr>up_task_idx = i, up_response_gen = gen, up_syscall_nb = nb\<rparr>)"

lemma debug_payloads:
  "map line_payload (debug_pending opcode_nb rt) = map (from_user_data \<circ> sqe_user_data) (rt_pending rt)"
  "map line_payload (debug_cqe_entries cs) = map (from_user_data \<circ> cqe_user_data) cs"
  by (simp_all add: debug_pending_def debug_cqe_entries_def line_payload_def from_sqe_entry_def payload_from_entry_def Let_def)

lemma batch_in_flight: "legal_batch E cs K \<Longrightarrow> c \<in> set cs \<Longrightarrow> cqe_user_data c \<in> set K"
proof (induction cs arbitrary: K)
  case (Cons a cs)
  have sub: "set (complete_one E a K) \<subseteq> set K" using set_remove1_subset [of "cqe_user_data a" K] by (simp add: complete_one_def)
  show ?case
  proof (cases "c = a")
    case False
    then have "cqe_user_data c \<in> set (complete_one E a K)" using Cons by simp
    with sub show ?thesis by blast
  qed (use Cons.prems in simp)
qed simp

text \<open>The log explains itself: every completion line names the task, number and generation that the line of
  some entry submitted before has named.\<close>

lemma completion_line_matches:
  assumes "legal_batch E cs (map sqe_user_data es)" "l \<in> set (debug_cqe_entries cs)"
  shows "\<exists>m \<in> set (debug_pending opcode_nb (rt\<lparr>rt_pending := es\<rparr>)). line_payload m = line_payload l"
proof -
  have "line_payload l \<in> set (map (from_user_data \<circ> cqe_user_data) cs)"
    using assms(2) unfolding debug_payloads(2) [symmetric] by simp
  then obtain c where c: "c \<in> set cs" "line_payload l = from_user_data (cqe_user_data c)" by auto
  from batch_in_flight [OF assms(1) c(1)] obtain e where "e \<in> set es" "cqe_user_data c = sqe_user_data e" by auto
  with c(2) have "line_payload l \<in> set (map (from_user_data \<circ> sqe_user_data) es)" by simp
  then have "line_payload l \<in> set (map line_payload (debug_pending opcode_nb (rt\<lparr>rt_pending := es\<rparr>)))"
    unfolding debug_payloads(1) by simp
  then show ?thesis by auto
qed

end
