(* ===== verification/Spec2Isabelle.thy ===== *)
theory Spec2Isabelle
  imports Unit_Tests Connect_Loop Stream_Reuse Teardown Borrowed_Calls In_Step Isolation Delivery Freed_Reads Debug_Output
begin

text \<open>
  \<^bold>\<open>A verification of onlyio, a single-threaded async runtime on io_uring.\<close>

  \<^bold>\<open>The program.\<close> A client calls \<open>block_on\<close> with a future. The runtime (\<open>src/src/runtime.rs\<close>)
  allocates it as a task (\<open>src/src/task.rs\<close>), keeps the task in a slab (\<open>src/src/task_slab.rs\<close>) and
  polls it. The futures of \<open>src/src/calls/\<close> stage submission entries whose \<open>user_data\<close> packs the
  task's slab index, a response generation and the task's system-call number. The event loop hands
  the staged entries to the kernel, waits, looks up the task of every completion, compares numbers
  and polls the task in the context of the completion. Tasks are reference counted by hand: one
  reference per handle and per entry staged or in flight; the last release frees the allocation and
  queues the slab index. Read buffers travel through a ring shared with the kernel, write buffers
  are reference-counted slots of a pool (\<open>src/src/buf_pool.rs\<close>).

  \<^bold>\<open>The theories.\<close>
  \<^item> \<open>Onlyio_Prelude\<close>: machine integers as words, faults (panics and undefined behaviour), the
    result type and its sequencing, checked arithmetic. The development profile is modelled:
    overflow checks and debug assertions are faults.
  \<^item> \<open>Raw_Task\<close> (\<open>task.rs\<close>): the header as the record \<open>raw_task\<close>, the layout computed by \<open>Task::new\<close>,
    the comparison and advance of system-call numbers, the counter operations, the heap of headers
    (a dereference of a freed header is the fault \<open>Ub Dangling_task\<close>).
  \<^item> \<open>User_Data\<close> (\<open>runtime.rs\<close>, \<open>buf_pool.rs\<close>): the packed \<open>user_data\<close>, tags, the context \<open>task_info\<close> of
    the current task, the internal encodings of the buffer pool. Locales \<open>codec\<close>, \<open>bicodec\<close>.
  \<^item> \<open>Task_Slab\<close> (\<open>task_slab.rs\<close>): slots as tagged 64-bit words with an intrusive free list, growth,
    insertion, removal, indexing. \<open>slab_inv\<close> says the free list visits exactly the free slots; the
    locale \<open>task_store\<close> is the finite-map contract the runtime relies on, interpreted on the slab.
  \<^item> \<open>Buf_Pool\<close> (\<open>buf_pool.rs\<close>): the pool, its handles and reference counts. \<open>pool_owns H\<close> says the
    counters agree with the multiset \<open>H\<close> of live handles; the locale \<open>refcounted\<close> carries the
    fan-out lemmas.
  \<^item> \<open>Buf_Ring\<close> (\<open>runtime.rs\<close>): the provided-buffer ring byte by byte (its tail lies inside entry 0),
    its construction and \<open>release_buf_to_ring\<close>; the locale \<open>fifo\<close> is the queue contract.
  \<^item> \<open>Runtime\<close> (\<open>runtime.rs\<close>): the state (\<open>runtime\<close>: slab, heap, pool, ring, staged entries and the
    thread-local cells), every submission function, \<open>spawn\<close>, \<open>release\<close>, the dispatch of completions,
    the wake list and the loop of \<open>block_on\<close>. The kernel is a function from the entries in flight to
    an error or a list of completions. Every undefined behaviour is a fault but one: \<open>Task::release\<close> ends
    by reading the counter it may just have freed, nothing uses the value, and the read is counted in the
    field \<open>rt_freed_reads\<close>, so that what follows it can be described. \<open>env\<close> holds the allocators, the layout of futures, the
    io_uring crate's readers of flags and the capacity of the submission queue.
  \<^item> \<open>Task_Accounting\<close>: the invariant \<open>rt_inv ok K H\<close>: the counter of a live task is the number of its
    entries staged or in flight (\<open>K\<close>) plus the handles on the stack (\<open>H\<close>), every token belongs to a
    live task and every header is reached from the slab. \<open>keeps\<close> is preservation without undefined
    behaviour; there is a rule per operation.
  \<^item> \<open>Event_Loop\<close>: completions, batches, iterations and the whole loop in the locale \<open>task_client\<close>,
    whose assumptions are what polling and dropping a future must respect.
  \<^item> \<open>Calls\<close> (\<open>calls/\<close>, \<open>stream.rs\<close>): every future and stream as a state machine with its \<open>poll\<close>. The
    locale \<open>stream\<close> is the contract of the trait, \<open>multishot_stream\<close> extends it with what a completion
    yields; both are interpreted on the accept and the read stream.
  \<^item> \<open>Client\<close>: bodies of \<open>async\<close> blocks over the whole API, with owned locals, drops and nested
    spawns, as well-founded trees (a body performs finitely many operations on every path); they are
    shown to meet \<open>task_client\<close>, which closes the theorems about \<open>block_on\<close>.
  \<^item> \<open>Progress\<close>: termination. The load of a state (the entries in flight and, per live body, the rest of
    its tree) decreases in a well-founded order with every last completion, so the loop ends.
  \<^item> \<open>Resources\<close>: what frames own, for any kind of resource. The locale \<open>resource\<close> says what each operation of
    the crate must do to the books of a resource and shows once that every body, completion, turn and
    run then keeps them.
  \<^item> \<open>Ownership\<close>: the instance for write slots; the pool's counts are the numbers of handles owned.
  \<^item> \<open>Read_Ownership\<close>: the instance for read buffers; a buffer is in the ring or owned, and once only.
  \<^item> \<open>Isolation\<close>: a third instance, for the addresses in the handles; with the other two it shows which
    buffers of bodies (in locals, commits and fan-outs) and of the ring do not overlap, and that clones
    of a write buffer share their bytes.
  \<^item> \<open>In_Step\<close>: bodies of single-shot calls. \<open>in_step\<close> relates, for every task, the call it awaits, its entry
    and the numbers in its header and in the entry; \<open>completion_resumes\<close> says what a completion does then.
  \<^item> \<open>Delivery\<close>: completions that find a body in a state it was not meant to be polled in, for any state of
    the task: fan-outs, commits, ends of streams, finished bodies.
  \<^item> \<open>Freed_Reads\<close>: no operation frees a task without the read of its freed counter. The locale
    \<open>paying_client\<close> carries this from polls and destructors to whole runs.
  \<^item> \<open>Teardown\<close> (\<open>Drop for Runtime\<close>, \<open>Slab\<close>, \<open>SlabSlot\<close>, \<open>BufPool\<close>): the runtime dropped at the end of its
    thread, its ring first, then the slab with the tasks that are still in it, then the pool.
  \<^item> \<open>Borrowing\<close>: \<open>spawn\<close>, dispatch and the loop again with the borrow flags of the thread's \<open>RefCell\<close>s,
    section by section. The locales \<open>borrowing_drop\<close>, \<open>borrowing_client\<close> are what destructors and polls must
    respect.
  \<^item> \<open>Borrowed_Calls\<close>: the futures, bodies and destructors with the section of every call they make; they
    meet those locales.
  \<^item> \<open>Debug_Output\<close>: the lines that the debug profile prints of entries and completions.
  \<^item> \<open>Scenarios\<close>: a concrete environment and complete runs evaluated by rewriting.
  \<^item> \<open>Connect_Loop\<close>: a connect whose socket is slot 0, in every environment and under every kernel that
    answers 0: the state of its task repeats forever.
  \<^item> \<open>Repo_Tests\<close> (tests of \<open>lib.rs\<close>): the bodies of the repository's tests run against scripted kernels.
  \<^item> \<open>Stream_Reuse\<close>: runs on a ring with buffers: one read, loops over streams, a commit next to a stream.
  \<^item> \<open>Unit_Tests\<close> (tests of \<open>task.rs\<close> and \<open>task_slab.rs\<close>): the unit tests with their assertions.

  \<^bold>\<open>What is shown.\<close> In this theory: \<open>block_on\<close> is free of undefined behaviour, other than the counted reads
  of freed counters, for every client body under every legal kernel; when it returns nothing is left; while it has not, every task is
  referenced by an entry staged or in flight; it enters the kernel only with something in flight; it
  ends, for the finite bodies of the model, when the kernel ends its multishot operations; it conserves the write buffers; for bodies
  without read streams every read buffer has one owner and the memory of held and offered buffers is
  disjoint, but for clones of a write buffer; for bodies of single-shot calls completions and awaits stay in step and a completion resumes
  the await that asked for it with its result; dropping the runtime afterwards is safe; no
  borrow of a \<open>RefCell\<close> fails; one completion, one spawn and one poll keep the accounting; a new runtime
  is complete, or its construction fails in one of the listed ways. In the component theories: the slab refines a finite map and reuses slots
  last-in first-out; the packing is a bijection; completions are classified exactly and a single-shot
  completion is delivered once; the pool and the ring lose and duplicate no buffer; submissions stage
  exactly the entries they should; each future and stream yields what its completions say.

  \<^bold>\<open>Findings.\<close> The theorems at the end and in \<open>Delivery\<close>, \<open>Event_Loop\<close>, \<open>User_Data\<close>, \<open>Task_Slab\<close> also record where
  the code does not do what its documentation or its tests say: every last release reads freed memory, a
  commit after a single-shot read
  panics, the await of a fan-out write to two or more descriptors never returns, a connect whose
  socket is file slot 0 takes its own completion for the socket's and connects again, for ever if it succeeds, a running stream yields an item once per poll and not once per completion (so
  loops spin, buffers are handed out and released twice, and \<open>stream_test\<close> panics on its first answer), a
  commit is ended by any completion of its task, the end of a read stream panics, a finished body is
  polled again while its multishot operations are in flight, tasks with several entries in flight are
  leaked at the end of the thread, a waker's reference is never given back, \<open>WBuffer::submit\<close>
  frees its buffer while the write is in flight and its completion is taken for a task's, a link of
  the free list holds 31 bits only, the last of the 32768 ranks is followed by the multiple flag.

  \<^bold>\<open>Bounds.\<close> \<open>block_loop\<close> takes the number of turns to observe; every theorem about \<open>block_on\<close> is for
  every number, \<open>Running\<close> is the outcome of a run still waiting then, and the termination theorem says
  that some number is enough. The kernel sees how many turns are left; \<open>timed\<close> turns a kernel that
  counts from the start into one. The wake-list loop is a \<open>partial_function\<close>; that it ends is part of
  C1. Bodies are well-founded trees. For the statements about every number of turns a loop can be taken as
  its unrolling to any depth; for termination it cannot, and a body that loops forever, like the server
  of the README, is not covered. Fan-outs are bounded by
  \<open>u16::MAX\<close> because the source counts them in a \<open>u16\<close>; slab arrays by \<open>2 ^ 31\<close> slots because the links
  hold 31 bits.

  \<^bold>\<open>What is not modelled.\<close> The contents of buffers (addresses and lengths are): outside its tests the crate reads
  and writes none of them, it hands out slices. What the set-up calls of io_uring do (their outcomes are
  parameters). The fixed text of debug lines (the values are modelled, as functions of the entries, and the
  count printed while slots are freed is left out). Unwinding after a panic: a panic ends the run. The unit
  test of type sizes and the threads and sockets of the tests' peers, which are kernel scripts. The client
  bodies do not use \<open>WBuffer::submit\<close> (\<open>submitted_buffer_misrouted\<close> shows why) and create no \<open>Waker\<close>, which
  no public function of the crate can construct; waking and dropping one are defined in \<open>Runtime\<close>. In-step
  delivery is stated for bodies of single-shot calls and isolation for bodies without read streams,
  because commits, fan-outs and running streams break them, as the findings show.
\<close>

section \<open>The event loop\<close>



text \<open>C12. The undefined behaviour that every run meets: a \<open>block_on\<close> that returns has read the counter of a
  freed task at least once, at the end of \<open>Task::release\<close>, after the \<open>dealloc\<close>.\<close>

theorem block_on_reads_freed_counter:
  assumes "env_ok E" "legal_kernel E kern" "idle frame_ok rt" "prog_ok p"
    "block_on E (frame_poll E) frame_drop kern n (async_block p) rt = Finished rt'"
  shows "rt_freed_reads rt < rt_freed_reads rt'"
proof -
  have "frame_ok (async_block p)" using assms(4) by (simp add: frame_ok_def async_block_def)
  from client.block_on_spec [OF assms(1-3) this, of n] assms(5) have "idle frame_ok rt'" by simp
  then show ?thesis using freeing.return_paid [OF _ assms(5)] assms(3) by (simp add: idle_def)
qed

theorem block_on_reads_freed_counter_witness:
  "\<exists>rt'. block_on demo_env (frame_poll demo_env) frame_drop (oldest_first 9 0) (Suc (Suc (Suc 0)))
     (async_block spawn_two) demo_rt = Finished rt' \<and> 0 < rt_freed_reads rt'"
proof -
  from spawn_two_run obtain rt' where fin: "block_on demo_env (frame_poll demo_env) frame_drop
      (oldest_first 9 0) (Suc (Suc (Suc 0))) (async_block spawn_two) demo_rt = Finished rt'" by blast
  have "prog_ok spawn_two" by (simp add: spawn_two_def)
  from block_on_reads_freed_counter [OF demo_env_ok oldest_first_legal demo_rt_idle this fin] fin
  show ?thesis by (auto simp: demo_rt_def)
qed

text \<open>C2. Nothing is left behind: when \<open>block_on\<close> returns, every task of the run has been freed (no
  allocation is left and no slot is occupied), nothing is staged and nothing is left to wake, and the
  runtime is again at rest, so that another \<open>block_on\<close> can follow.\<close>

theorem block_on_frees_everything:
  assumes "env_ok E" "legal_kernel E kern" "idle frame_ok rt" "prog_ok p"
    "block_on E (frame_poll E) frame_drop kern n (async_block p) rt = Finished rt'"
  shows "rt_heap rt' = Map.empty \<and> slab_lookup (rt_tasks rt') = Map.empty \<and>
    unat (slab_count (rt_tasks rt')) = 0 \<and> rt_pending rt' = [] \<and> rt_wake_list rt' = [] \<and> idle frame_ok rt'"
proof -
  have "frame_ok (async_block p)" using assms(4) by (simp add: frame_ok_def async_block_def)
  from client.block_on_spec [OF assms(1-3) this, of n] assms(5) have idle: "idle frame_ok rt'" by simp
  moreover have "slab_inv (rt_tasks rt')" using idle acctD(1) by (auto simp: idle_def rt_inv_def)
  ultimately show ?thesis using slab.count_zero_iff by (simp add: idle_def)
qed

theorem block_on_frees_everything_witness:
  "\<exists>rt'. block_on demo_env (frame_poll demo_env) frame_drop (oldest_first 9 0) (Suc (Suc (Suc 0)))
     (async_block spawn_two) demo_rt = Finished rt' \<and> rt_heap rt' = Map.empty"
proof -
  from spawn_two_run obtain rt' where fin: "block_on demo_env (frame_poll demo_env) frame_drop
      (oldest_first 9 0) (Suc (Suc (Suc 0))) (async_block spawn_two) demo_rt = Finished rt'" by blast
  have "prog_ok spawn_two" by (simp add: spawn_two_def)
  from block_on_frees_everything [OF demo_env_ok oldest_first_legal demo_rt_idle this fin] fin
  show ?thesis by blast
qed

text \<open>C3. The loop never waits in vain: whenever it has not returned, every task still in the slab is
  referenced by an entry that is staged or in flight (its counter is exactly their number), so
  something is staged or in flight and a completion can arrive.\<close>

theorem block_on_waits_for_work:
  assumes "env_ok E" "legal_kernel E kern" "idle frame_ok rt" "prog_ok p"
    "block_on E (frame_poll E) frame_drop kern n (async_block p) rt = Running K rt'"
  shows "(K \<noteq> [] \<or> rt_pending rt' \<noteq> []) \<and>
    (\<forall>i q. slab_lookup (rt_tasks rt') i = Some q \<longrightarrow> (\<exists>t. rt_heap rt' q = Some t \<and>
      unat (ref_counter t) = count (mset (map udata_idx (K @ map sqe_user_data (rt_pending rt')))) i \<and>
      0 < unat (ref_counter t)))"
proof -
  have "frame_ok (async_block p)" using assms(4) by (simp add: frame_ok_def async_block_def)
  from client.block_on_spec [OF assms(1-3) this, of n] assms(5) have w: "waiting frame_ok K rt'" by simp
  then have inv: "rt_inv frame_ok K {#} rt'" and fl: "rt_free_list rt' = []" "\<not> is_runtime_free rt'"
    by (simp_all add: waiting_def)
  have tok: "tokens K {#} rt' = mset (map udata_idx (K @ map sqe_user_data (rt_pending rt')))"
    by (simp add: tokens_def comp_def)
  have "\<exists>t. rt_heap rt' q = Some t \<and> header_ok frame_ok (tokens K {#} rt') i t"
    if "slab_lookup (rt_tasks rt') i = Some q" for i q
    using acctD(4) [of frame_ok "tokens K {#} rt'" rt' i q] inv that fl by (simp add: rt_inv_def live_def)
  then show ?thesis
    using busy_has_work [OF inv fl] by (fastforce simp: header_ok_def tok)
qed

theorem block_on_waits_for_work_witness:
  "\<exists>K rt'. block_on demo_env (frame_poll demo_env) frame_drop (oldest_first 9 0) 0
     (async_block accept_once) demo_rt = Running K rt' \<and> (K \<noteq> [] \<or> rt_pending rt' \<noteq> [])"
proof -
  obtain K rt' where run: "block_on demo_env (frame_poll demo_env) frame_drop (oldest_first 9 0) 0
      (async_block accept_once) demo_rt = Running K rt'"
    by (simp add: eval_demo accept_once_def)
  have "prog_ok accept_once" by (simp add: accept_once_def)
  from block_on_waits_for_work [OF demo_env_ok oldest_first_legal demo_rt_idle this run] run
  show ?thesis by blast
qed

text \<open>C4. The loop enters the kernel only with something in flight: what a kernel would answer to a wait
  with nothing in flight has no influence on any run, so the wait of \<open>submit_and_wait\<close> for one
  completion never blocks on an empty ring.\<close>

theorem block_on_enters_kernel_in_flight:
  assumes "env_ok E" "legal_kernel E kern" "idle frame_ok rt" "prog_ok p"
    "\<And>n K. K \<noteq> [] \<Longrightarrow> kern' n K = kern n K"
  shows "block_on E (frame_poll E) frame_drop kern' n (async_block p) rt =
    block_on E (frame_poll E) frame_drop kern n (async_block p) rt"
proof -
  have "frame_ok (async_block p)" using assms(4) by (simp add: frame_ok_def async_block_def)
  from client.block_on_in_flight [OF assms(1,2,5,3) this] show ?thesis by blast
qed

theorem block_on_enters_kernel_in_flight_witness:
  "block_on demo_env (frame_poll demo_env) frame_drop
     (\<lambda>n K. if K = [] then Io_err 4 else oldest_first 9 0 n K) 2 (async_block accept_once) demo_rt =
   block_on demo_env (frame_poll demo_env) frame_drop (oldest_first 9 0) 2 (async_block accept_once) demo_rt"
  using block_on_enters_kernel_in_flight [OF demo_env_ok oldest_first_legal [of _ 9 0] demo_rt_idle,
      of accept_once "\<lambda>n K. if K = [] then Io_err 4 else oldest_first 9 0 n K" 2]
  by (simp add: accept_once_def)

text \<open>C5. Termination. A body of the model is a well-founded tree: on every path, whatever its awaits yield,
  it performs finitely many operations and spawns finitely many children. Bodies that loop without
  end, such as the server of the README, which accepts and spawns forever, are not among them; on those
  \<open>block_on\<close> is not meant to return. For every body of the model without \<open>connect\<close> there is a turn after
  which \<open>block_on\<close> has ended, under every kernel that completes only what is in flight and, from some
  turn on, announces no further completions for an entry (it ends its multishot operations): the run
  returns with the runtime at rest, reports an I/O error, or panics. It does not wait forever, and the
  outcome is the same for every longer observation. The exclusion of \<open>connect\<close> is necessary, as the
  theorem on file slot 0 shows.\<close>

theorem block_on_returns:
  assumes "env_ok E" "legal_kernel E ks" "idle frame_ok rt" "prog_ok p" "connectless p"
    "\<And>n L cs. n \<ge> T \<Longrightarrow> ks n L = Completions cs \<Longrightarrow> last_ones E cs"
  shows "\<exists>N r. (\<forall>n \<ge> N. block_on E (frame_poll E) frame_drop (timed n ks) n (async_block p) rt = r) \<and>
    ((\<exists>rt'. r = Finished rt' \<and> idle frame_ok rt') \<or> (\<exists>e rt'. r = Io_error e rt') \<or> (\<exists>e. r = Faulted (Panic e)))"
proof -
  have ok: "frame_ok (async_block p)" using assms(4) by (simp add: frame_ok_def async_block_def)
  from block_on_ends [where T = T, OF assms(1-3) ok assms(5)] assms(6) obtain N r where
    r: "\<forall>K rt. r \<noteq> Running K rt"
    "\<forall>n \<ge> N. block_on E (frame_poll E) frame_drop (timed n ks) n (async_block p) rt = r" by blast
  have "legal_kernel E (timed N ks)" using assms(2) by (auto simp: legal_kernel_def timed_def)
  from client.block_on_spec [OF assms(1) this assms(3) ok, of N] r(2) have "outcome_ok frame_ok r" by simp
  then have "(\<exists>rt'. r = Finished rt' \<and> idle frame_ok rt') \<or> (\<exists>e rt'. r = Io_error e rt') \<or> (\<exists>e. r = Faulted (Panic e))"
    using r(1) by (cases r) simp_all
  with r(2) show ?thesis by blast
qed

theorem block_on_returns_witness:
  "\<exists>N r. (\<forall>n \<ge> N. block_on demo_env (frame_poll demo_env) frame_drop (timed n (oldest_first 9 0)) n
      (async_block accept_once) demo_rt = r) \<and>
    ((\<exists>rt'. r = Finished rt' \<and> idle frame_ok rt') \<or> (\<exists>e rt'. r = Io_error e rt') \<or> (\<exists>e. r = Faulted (Panic e)))"
  by (rule block_on_returns [OF demo_env_ok oldest_first_legal demo_rt_idle, of _ 0])
    (auto simp: accept_once_def oldest_first_def last_ones_def demo_env_def split: list.splits)

text \<open>C6. Write buffers are conserved across whole runs. Started with every write slot free,
  \<open>block_on\<close> ends with every write slot free again, each exactly once; while it runs, the reference
  counts of the pool are exactly the numbers of handles that the frames of the live tasks own; and no
  assertion on the state of a write slot fails, whatever clones, fan-outs, moves into children,
  overwritten locals and destructors the bodies perform.\<close>

theorem write_buffers_conserved:
  assumes "env_ok E" "legal_kernel E kern" "idle frame_ok rt" "prog_ok p" "pool_owns {#} (rt_buffer rt)"
  shows "case block_on E (frame_poll E) frame_drop kern n (async_block p) rt of
      Finished rt' \<Rightarrow> pool_owns {#} (rt_buffer rt') \<and> shape (rt_buffer rt') = shape (rt_buffer rt) \<and>
        mset (write_free (rt_buffer rt')) = mset (write_free (rt_buffer rt))
    | Running K rt' \<Rightarrow> pool_owns (write_held rt') (rt_buffer rt') \<and> shape (rt_buffer rt') = shape (rt_buffer rt)
    | Io_error e rt' \<Rightarrow> pool_owns (write_held rt') (rt_buffer rt') \<and> shape (rt_buffer rt') = shape (rt_buffer rt)
    | Faulted e \<Rightarrow> e \<noteq> Panic Write_slot_state
    | Diverged \<Rightarrow> False"
proof -
  have ok: "frame_ok (async_block p)" using assms(4) by (simp add: frame_ok_def async_block_def)
  note own = write_slots_run [OF assms(1-3) ok assms(5), of n]
  note spec = client.block_on_spec [OF assms(1-3) ok, of n]
  show ?thesis
  proof (cases "block_on E (frame_poll E) frame_drop kern n (async_block p) rt")
    case (Finished rt')
    then have "slots_kept (shape (rt_buffer rt)) {#} rt'" using own spec write_slots.owned_idle by simp
    then show ?thesis using Finished all_free_same [OF _ assms(5)] by (simp add: slots_kept_def)
  qed (use own spec in \<open>auto dest!: write_slots_owned\<close>)
qed

theorem write_buffers_conserved_witness:
  "\<exists>rt'. block_on demo_env (frame_poll demo_env) frame_drop (oldest_first 4 0) (Suc (Suc (Suc 0)))
     (async_block fan_out_two) demo_rt = Finished rt' \<and> pool_owns {#} (rt_buffer rt') \<and>
     mset (write_free (rt_buffer rt')) = {#2, 3#}"
proof -
  obtain rt' where run: "block_on demo_env (frame_poll demo_env) frame_drop (oldest_first 4 0) (Suc (Suc (Suc 0)))
     (async_block fan_out_two) demo_rt = Finished rt'" using fan_out_two_run by blast
  have "prog_ok fan_out_two" by (simp add: fan_out_two_def)
  from write_buffers_conserved [OF demo_env_ok oldest_first_legal [of _ 4 0] demo_rt_idle this demo_pool_free,
      of "Suc (Suc (Suc 0))", unfolded run]
  show ?thesis using run by (simp add: demo_rt_def demo_pool_def)
qed

text \<open>C7. Read buffers have one owner. For bodies that do not use read streams, on a kernel that takes the
  buffers of the ring from its head in order, \<open>block_on\<close> started with no buffer out keeps this: the
  entries between the kernel's head and the tail are proper entries of the pool, and no buffer is in
  the ring twice, held by two bodies (in a local or in a commit under way), or both in the ring and
  held. In particular the ring is never overrun, and no assertion on the index of a read buffer fails.
  \<open>kernel_head\<close> is the kernel's head at the end of the run: past every buffer of every completion.\<close>

theorem read_buffers_exclusive:
  assumes "env_ok E" "legal_kernel E kern" "idle frame_ok rt" "prog_ok p" "streamless p" "reads_kept h {#} rt"
    "run_legal (fifo_batch E) (advance_head E) E kern n h (async_block p) rt"
  shows "case block_on E (frame_poll E) frame_drop kern n (async_block p) rt of
      Finished rt' \<Rightarrow> reads_kept (kernel_head E kern n h (async_block p) rt) {#} rt'
    | Running K rt' \<Rightarrow> reads_kept (kernel_head E kern n h (async_block p) rt) (read_held rt') rt'
    | Io_error e rt' \<Rightarrow> reads_kept (kernel_head E kern n h (async_block p) rt) (read_held rt') rt'
    | Faulted e \<Rightarrow> e \<noteq> Panic Read_index
    | Diverged \<Rightarrow> False"
proof -
  have ok: "frame_ok (async_block p)" using assms(4) by (simp add: frame_ok_def async_block_def)
  note own = read_bufs_run [OF assms(1-3) ok assms(5-7)]
  note spec = client.block_on_spec [OF assms(1-3) ok, of n]
  show ?thesis
  proof (cases "block_on E (frame_poll E) frame_drop kern n (async_block p) rt")
    case (Finished rt')
    then show ?thesis using own spec read_bufs.owned_idle by (simp add: kernel_head_def)
  qed (use own spec in \<open>auto simp: kernel_head_def dest!: read_bufs_owned\<close>)
qed

theorem read_buffers_exclusive_witness:
  "\<exists>rt'. block_on demo_env (frame_poll demo_env) frame_drop (oldest_first 5 1) (Suc (Suc 0))
     (async_block read_once) ring_rt = Finished rt' \<and> reads_kept 1 {#} rt'"
proof -
  obtain rt' where run: "block_on demo_env (frame_poll demo_env) frame_drop (oldest_first 5 1) (Suc (Suc 0))
     (async_block read_once) ring_rt = Finished rt'" using read_once_run by blast
  have ok: "prog_ok read_once" "streamless read_once" by (simp_all add: read_once_def)
  from read_buffers_exclusive [OF demo_env_ok oldest_first_legal ring_rt_idle ok ring_rt_kept read_once_legal, unfolded run]
  show ?thesis using run by (simp add: read_once_head)
qed

text \<open>C8. Memory isolation. Under the hypotheses of the previous theorem, and if the pool lies in the address
  space, in every state in which the loop waits, for all buffers that bodies have, in their locals or
  inside the commit or the fan-out they await: the 4096 bytes behind a read buffer overlap neither those
  of a read buffer in another place, nor those of any write buffer, nor those of any buffer that is
  offered to the kernel in the ring; write buffers of different slots do not overlap, and handles of one
  slot, which are clones of each other, point to the same bytes and share them; no write buffer overlaps
  an offered one, and the offered ones do not overlap each other. So the kernel never receives into a
  buffer that a body can reach, and two mutable slices alias only if both are of clones of one write
  buffer.\<close>

theorem buffers_isolated:
  assumes "env_ok E" "legal_kernel E kern" "idle frame_ok rt" "prog_ok p" "streamless p" "reads_kept h {#} rt"
    "pool_owns {#} (rt_buffer rt)" "run_legal (fifo_batch E) (advance_head E) E kern n h (async_block p) rt"
    "unat (pool_base (rt_buffer rt)) + (unat (read_count (rt_buffer rt)) + length (write_rc (rt_buffer rt))) * 4096 \<le> 2 ^ 64"
    "block_on E (frame_poll E) frame_drop kern n (async_block p) rt = Running K rt'"
  shows "isolated (kernel_head E kern n h (async_block p) rt) rt'"
proof -
  have ok: "frame_ok (async_block p)" using assms(4) by (simp add: frame_ok_def async_block_def)
  have w: "shape (rt_buffer rt') = shape (rt_buffer rt) \<and> pool_owns (write_held rt') (rt_buffer rt')"
    using write_slots_run [OF assms(1-3) ok assms(7), of n] assms(10) by (auto dest!: write_slots_owned)
  have "reads_kept (kernel_head E kern n h (async_block p) rt) (read_held rt') rt'"
    using read_bufs_run [OF assms(1-3) ok assms(5,6,8)] assms(10) by (auto simp: kernel_head_def dest!: read_bufs_owned)
  moreover have "placed (pool_base (rt_buffer rt)) (held place_local place_awaiting {} rt') rt'"
    using places_run [OF assms(1-3) ok, of n] assms(10) by (auto dest!: places_owned)
  ultimately show ?thesis using isolation w assms(9) by (simp add: shape_def BUF_SIZE_def PAGE_SIZE_def)
qed

theorem buffers_isolated_witness:
  "\<exists>K rt'. block_on demo_env (frame_poll demo_env) frame_drop (oldest_first 5 1) (Suc 0) (async_block read_hold) ring_rt =
     Running K rt' \<and> (\<exists>i a. has_read rt' 0x1000 (Local 0) i a) \<and> isolated 1 rt'"
proof -
  obtain K rt' t b where run: "block_on demo_env (frame_poll demo_env) frame_drop (oldest_first 5 1) (Suc 0)
      (async_block read_hold) ring_rt = Running K rt'" "rt_heap rt' 0x1000 = Some t" "fr_locals (task_fut t) = [(0, L_rw b)]"
    using read_hold_run by blast
  have ok: "prog_ok read_hold" "streamless read_hold" by (simp_all add: read_hold_def)
  have pool: "pool_owns {#} (rt_buffer ring_rt)" using demo_pool_free by (simp add: ring_rt_def)
  have "isolated 1 rt'"
    using buffers_isolated [OF demo_env_ok oldest_first_legal ring_rt_idle ok ring_rt_kept pool read_hold_legal _ run(1)]
    by (simp add: read_hold_head) (simp add: ring_rt_def demo_rt_def demo_pool_def)
  moreover have "has_read rt' 0x1000 (Local 0) (rw_buf_idx b) (rw_ptr b)"
    using run(2,3) by (simp add: has_read_def futs_def frame_reads_def local_at_def)
  ultimately show ?thesis using run(1) by blast
qed

text \<open>C9. In step. For bodies of single-shot calls, on kernels whose completions are final, the numbers that
  pair completions with awaits never disagree. Whenever the loop has not returned, every live task is
  suspended on a call it has submitted, exactly one entry staged or in flight belongs to it, and that
  entry carries the number the task expects. So no completion is ever taken for stale, none is refused
  as newer than its task, and no body is polled after its end; a run that panics does so for another
  reason.\<close>

theorem single_shot_in_step:
  assumes "env_ok E" "legal_kernel E kern" "single_kernel E kern" "idle frame_ok rt" "single p"
  shows "case block_on E (frame_poll E) frame_drop kern n (async_block p) rt of
      Running K rt' \<Rightarrow> \<forall>q t. rt_heap rt' q = Some t \<longrightarrow> (\<exists>i d a. slab_idx t = Some i \<and>
        fr_state (task_fut t) = Await a \<and> posted a \<and>
        filter (\<lambda>d. udata_idx d = i) (K @ map sqe_user_data (rt_pending rt')) = [d] \<and>
        up_syscall_nb (from_user_data d) = syscall_nb t)
    | Faulted e \<Rightarrow> e \<noteq> Panic Newer_cqe \<and> e \<noteq> Panic Resumed_after_completion
    | Diverged \<Rightarrow> False
    | _ \<Rightarrow> True"
proof -
  have ok: "frame_ok (async_block p)" using single_prog_ok [OF assms(5)] by (simp add: frame_ok_def async_block_def)
  note spec = client.block_on_spec [OF assms(1,2,4) ok, of n] and st = block_on_in_step [OF assms, of n]
  show ?thesis
  proof (cases "block_on E (frame_poll E) frame_drop kern n (async_block p) rt")
    case (Running K rt')
    then have "rt_inv frame_ok K {#} rt'" "in_step K rt'" using spec st by (simp_all add: waiting_def)
    then show ?thesis using Running in_step_task [of K rt'] by (simp add: ents_def)
  qed (use spec st in \<open>auto simp: derailed_def\<close>)
qed

theorem single_shot_in_step_witness:
  "\<exists>K rt'. block_on demo_env (frame_poll demo_env) frame_drop (oldest_first 9 0) (Suc 0) (async_block spawn_two) demo_rt = Running K rt' \<and>
    length K = 1 \<and> (\<forall>q t. rt_heap rt' q = Some t \<longrightarrow> (\<exists>i d a. slab_idx t = Some i \<and> fr_state (task_fut t) = Await a \<and> posted a \<and>
      filter (\<lambda>d. udata_idx d = i) (K @ map sqe_user_data (rt_pending rt')) = [d] \<and> up_syscall_nb (from_user_data d) = syscall_nb t))"
proof -
  obtain K rt' where run: "block_on demo_env (frame_poll demo_env) frame_drop (oldest_first 9 0) (Suc 0)
      (async_block spawn_two) demo_rt = Running K rt'" "length K = 1"
    using spawn_two_half by blast
  have "single spawn_two" by (simp add: spawn_two_def)
  from single_shot_in_step [OF demo_env_ok oldest_first_legal oldest_first_single demo_rt_idle this, of 9 "Suc 0", unfolded run(1)]
  show ?thesis using run by simp
qed

text \<open>C10. The completion goes to the await that asked for it. In such a run, handling the final completion of
  any entry in flight is resuming the one task whose entry it is, at the call it awaits, with the
  completion's result and flags as its context and its counter, its number and its context advanced
  together; then the two handles are dropped. An awaited accept goes on with the result, as a
  descriptor or as an error, an awaited write with the result itself.\<close>

theorem completion_resumes_awaiter:
  assumes "env_ok E" "legal_kernel E kern" "single_kernel E kern" "idle frame_ok rt" "single p"
    "block_on E (frame_poll E) frame_drop kern n (async_block p) rt = Running K rt'"
    "cqe_user_data c \<in> set K" "\<not> env_more E (cqe_flags c)"
  shows "\<exists>q t a. rt_heap rt' q = Some t \<and> slab_idx t = Some (udata_idx (cqe_user_data c)) \<and>
    fr_state (task_fut t) = Await a \<and> posted a \<and>
    handle_cqe_entry E (frame_poll E) frame_drop c rt' =
      and_then (task_poll_with (resume E a (fr_locals (task_fut t))) q (resumed q t c rt')) (\<lambda>(_, rt).
      and_then (task_drop frame_drop q rt) (task_drop frame_drop q)) \<and>
    (\<forall>k ls. a = Aw_accept AF_Submited k \<longrightarrow> resume E a ls (resumed q t c rt') =
      run E (k (if 0 \<le> sint (cqe_result c) then Inr (cqe_result c) else Inl (cqe_result c))) ls (resumed q t c rt')) \<and>
    (\<forall>k ls. a = Aw_write WF_Pending k \<longrightarrow> resume E a ls (resumed q t c rt') = run E (k (cqe_result c)) ls (resumed q t c rt'))"
proof -
  have ok: "frame_ok (async_block p)" using single_prog_ok [OF assms(5)] by (simp add: frame_ok_def async_block_def)
  have "rt_inv frame_ok K {#} rt'" "in_step K rt'"
    using client.block_on_spec [OF assms(1,2,4) ok, of n] block_on_in_step [OF assms(1-5), of n] assms(6) by (simp_all add: waiting_def)
  from completion_resumes [where E = E, OF this assms(7,8)] resumed_values [of E _ _ _ _ c rt'] show ?thesis by blast
qed

theorem completion_resumes_awaiter_witness:
  "\<exists>K rt'. block_on demo_env (frame_poll demo_env) frame_drop (oldest_first 9 0) (Suc 0) (async_block spawn_two) demo_rt = Running K rt' \<and>
    (\<exists>q t. rt_heap rt' q = Some t \<and> slab_idx t = Some (udata_idx (hd K)))"
proof -
  obtain K rt' where run: "block_on demo_env (frame_poll demo_env) frame_drop (oldest_first 9 0) (Suc 0)
      (async_block spawn_two) demo_rt = Running K rt'" "length K = 1"
    using spawn_two_half by blast
  have "single spawn_two" by (simp add: spawn_two_def)
  moreover have "hd K \<in> set K" using run(2) by (cases K) auto
  ultimately show ?thesis
    using completion_resumes_awaiter [OF demo_env_ok oldest_first_legal oldest_first_single demo_rt_idle _ run(1),
        of "\<lparr>cqe_user_data = hd K, cqe_result = 8, cqe_flags = 0\<rparr>"] run(1) by (auto simp: demo_env_def)
qed



text \<open>C13. No borrow fails. Run with the borrow flags of the runtime, the list of slots to free and the wake
  list, section by section as the source opens them, down to the section of every call a body makes, where
  a second borrow of a borrowed cell panics, \<open>block_on\<close> does exactly what it does without flags, for every
  body, kernel and number of turns.\<close>

theorem borrows_never_fail:
  "b_block_on E (b_frame_poll E) b_frame_drop kern n (async_block p) ({}, rt) =
   block_on E (frame_poll E) frame_drop kern n (async_block p) rt"
  by (rule bodies.b_block_on_eq)





text \<open>C16. The contract of a poll, for every well-formed body: no undefined behaviour, other than the
  counted freed-counter read of each child that is freed within the poll; the new frame is
  again well formed, the books hold and the current task is unchanged; a body that reports ready has
  dropped all its locals and is stopped, one that reports pending is suspended on a leaf future. A
  stopped body that is polled again panics.\<close>

theorem poll_contract:
  assumes "env_ok E" "frame_ok fr" "rt_inv frame_ok K H rt" "cur_idx rt \<in># H"
  shows "no_ub (frame_poll E fr rt) \<and>
    (fr_state fr = Stopped \<longrightarrow> frame_poll E fr rt = Inl (Panic Resumed_after_completion)) \<and>
    (\<forall>fr' over rt'. frame_poll E fr rt = Inr (fr', over, rt') \<longrightarrow>
       frame_ok fr' \<and> rt_inv frame_ok K H rt' \<and> cur_idx rt' = cur_idx rt \<and>
       (if over then fr' = \<lparr>fr_state = Stopped, fr_locals = []\<rparr> else \<exists>a. fr_state fr' = Await a))"
proof -
  note ok = frame_poll_ok [OF assms(1,2)]
  note k = run_okD(1) [OF ok assms(3,4)]
  have "frame_ok fr' \<and> rt_inv frame_ok K H rt' \<and> cur_idx rt' = cur_idx rt" if "frame_poll E fr rt = Inr (fr', over, rt')"
    for fr' over rt'
    using keepsD [OF k] run_okD(2) [OF ok assms(3,4) that] that by (force simp: stable_def)
  moreover have "no_ub (frame_poll E fr rt)" using keepsD(1) [OF k] .
  moreover have "fr_state fr = Stopped \<longrightarrow> frame_poll E fr rt = Inl (Panic Resumed_after_completion)"
    by (simp add: frame_poll_def)
  ultimately show ?thesis using settled_poll [of E fr rt] by (simp add: settled_def)
qed

theorem poll_contract_witness:
  "\<exists>rt. no_ub (frame_poll demo_env (async_block accept_once) rt) \<and> cur_idx rt = 0 \<and> rt_heap rt 0x1000 \<noteq> None"
proof -
  have inv: "rt_inv frame_ok [] {#} demo_rt" using demo_rt_idle by (simp add: idle_def)
  have ok: "frame_ok (async_block accept_once)" by (simp add: frame_ok_def async_block_def accept_once_def)
  obtain p old rt1 where ins: "spawn_insert demo_env (async_block accept_once) demo_rt = Inr (p, old, rt1)"
    and rt1: "cur_idx rt1 = 0" "rt_heap rt1 0x1000 \<noteq> None"
    by (simp add: eval_demo)
  from spawn_insert_spec(2) [OF demo_env_ok ok inv ins] obtain i where
    "rt_inv frame_ok [] (add_mset i (add_mset i {#})) rt1" "cur_idx rt1 = i"
    by (auto simp: initial_poll_def Tag_new_def)
  from poll_contract [OF demo_env_ok ok this(1)] this(2) rt1 show ?thesis by auto
qed

text \<open>Both streams are fused: once \<open>next().await\<close> has yielded \<open>None\<close>, it yields \<open>None\<close> ever after
  and touches nothing, whatever completion it is polled for.\<close>

theorem streams_fused:
  "(next_poll (accept_poll_next E) (stream_next sa) rt = Inr (sa', Poll_Ready None, rt1) \<longrightarrow>
     next_poll (accept_poll_next E) (stream_next sa') rt2 = Inr (sa', Poll_Ready None, rt2)) \<and>
   (next_poll (read_poll_next E) (stream_next sr) rt = Inr (sr', Poll_Ready None, rt1) \<longrightarrow>
     next_poll (read_poll_next E) (stream_next sr') rt2 = Inr (sr', Poll_Ready None, rt2))"
  using accept_stream.next_fused read_stream.next_fused by blast

theorem streams_fused_witness:
  "next_poll (accept_poll_next demo_env) (stream_next \<lparr>as_listen_fd = 3, as_state = SS_Done\<rparr>) demo_rt =
     Inr (\<lparr>as_listen_fd = 3, as_state = SS_Done\<rparr>, Poll_Ready None, demo_rt) \<and>
   next_poll (read_poll_next demo_env) (stream_next \<lparr>rs_fd = 3, rs_state = SS_Done\<rparr>) demo_rt =
     Inr (\<lparr>rs_fd = 3, rs_state = SS_Done\<rparr>, Poll_Ready None, demo_rt)"
  using streams_fused [of demo_env "\<lparr>as_listen_fd = 3, as_state = SS_Running\<rparr>"
      "demo_rt\<lparr>rt_current := TaskInfo_dummy\<rparr>" "\<lparr>as_listen_fd = 3, as_state = SS_Done\<rparr>"
      "demo_rt\<lparr>rt_current := TaskInfo_dummy\<rparr>" demo_rt "\<lparr>rs_fd = 3, rs_state = SS_Running\<rparr>"
      "\<lparr>rs_fd = 3, rs_state = SS_Done\<rparr>"]
  by (simp add: accept_poll_next_def read_poll_next_def current_result_def TaskInfo_dummy_def Tag_new_def Let_def)

text \<open>C30. Construction of the runtime, every outcome. When \<open>Runtime::new\<close> returns a runtime, every set-up
  call succeeded, was given all 1024 buffers and the 512-entry ring, and the runtime is at rest and
  complete: no task, nothing staged, all 512 read buffers in the ring in order, all 512 write buffers
  free. An \<open>Err\<close> is that of a registration that was refused; a panic comes from a ring that could not
  be created or a failed allocation.\<close>

theorem new_runtime_ready:
  fixes ok :: "'f \<Rightarrow> bool"
  shows "case Runtime_new su entries conns of
     Inr (Inr rt) \<Rightarrow> su_ring su entries \<and> su_files su conns = None \<and>
       su_buffers su (build_iovecs 1 (rt_buffer rt)) = None \<and> length (build_iovecs 1 (rt_buffer rt)) = 1024 \<and>
       su_buf_ring su (rt_buf_ring rt) 512 = None \<and>
       idle ok rt \<and> pool_owns {#} (rt_buffer rt) \<and> length (write_free (rt_buffer rt)) = 512 \<and>
       ring_wf 512 (rt_buf_ring rt) \<and> ring_queue 512 0 (rt_buf_ring rt) =
         map (\<lambda>k. (buf_addr 1 (rt_buffer rt) k, 4096, of_nat k)) [0..<512]
   | Inr (Inl e) \<Rightarrow> su_files su conns = Some e \<or> (\<exists>iov. length iov = 1024 \<and> su_buffers su iov = Some e) \<or>
       (\<exists>m. ring_wf 512 m \<and> su_buf_ring su m 512 = Some e)
   | Inl e \<Rightarrow> \<not> su_ring su entries \<and> e = Panic Ring_creation_failed \<or> su_pool su = None \<and> e = Panic Pool_oom \<or>
       \<not> su_ring_mem su \<and> e = Panic Buf_ring_oom \<or> \<not> su_slab su 16 \<and> e = Panic Slab_alloc_failed"
proof (cases "su_ring su entries \<and> su_files su conns = None")
  case True
  show ?thesis
  proof (cases "su_pool su")
    case None
    then show ?thesis using True by (simp add: Runtime_new_def try_io_def pool_512_oom del: One_nat_def)
  next
    case (Some base)
    obtain p where p: "BufPool_new 1 (Some base) 512 512 = Inr p" "pool_owns {#} p" "read_count p = 512"
      "length (write_free p) = 512" "length (build_iovecs 1 p) = 1024" "ring_wf 512 (buf_ring_new 1 p)"
      "ring_queue 512 0 (buf_ring_new 1 p) = map (\<lambda>k. (buf_addr 1 p k, 4096, of_nat k)) [0..<512]"
      using pool_512 by blast
    let ?ring = "buf_ring_new 1 p"
    consider (buffers) e where "su_buffers su (build_iovecs 1 p) = Some e"
      | (mem) "su_buffers su (build_iovecs 1 p) = None" "\<not> su_ring_mem su"
      | (ring) e where "su_buffers su (build_iovecs 1 p) = None" "su_ring_mem su" "su_buf_ring su ?ring 512 = Some e"
      | (slab) "su_buffers su (build_iovecs 1 p) = None" "su_ring_mem su" "su_buf_ring su ?ring 512 = None"
      by (cases "su_buffers su (build_iovecs 1 p)"; cases "su_buf_ring su ?ring 512"; blast)
    then show ?thesis
    proof cases
      case slab
      show ?thesis
      proof (cases "with_capacity (su_slab su) 16")
        case (Inl e)
        with with_capacity_16 [OF Inl] True Some slab p show ?thesis by (simp add: Runtime_new_def try_io_def)
      next
        case (Inr s)
        with True Some slab p obtain rt :: "'f runtime" where rt: "Runtime_new su entries conns = Inr (Inr rt)"
          "rt_buffer rt = p" "rt_buf_ring rt = ?ring" by (simp add: Runtime_new_def try_io_def)
        then show ?thesis using Runtime_new_idle [OF rt(1)] True slab p by (simp del: upt_rec_numeral)
      qed
    qed (use True Some p in \<open>auto simp: Runtime_new_def try_io_def\<close>)
  qed
qed (cases "su_ring su entries"; auto simp: Runtime_new_def try_io_def)

section \<open>Runs of documented client code\<close>

text \<open>The echo handler of the README does not work: on a kernel that delivers five bytes to the read and
  then completes the committed write, the run ends in the panic for a completion newer than expected
  instead of returning.\<close>

theorem readme_echo_panics:
  "block_on demo_env (frame_poll demo_env) frame_drop (oldest_first 5 0x10001) (Suc (Suc (Suc 0)))
     (async_block echo_once) demo_rt = Faulted (Panic Newer_cqe)"
  by (rule echo_once_run)

text \<open>C34. A connect whose socket gets slot 0 of the fixed-file table: descriptor 0 stands for a socket not
  yet created, so the completion of the connect is taken for that of the socket and the connect is
  submitted again. For every body that starts with a \<open>connect\<close>, whatever single-shot calls follow, in every
  environment, and under every kernel that answers 0 to every entry (slot 0 for the socket, success for
  each connect): however long it is observed, \<open>block_on\<close> does not return, and as long as it runs, its
  task is still suspended on the same connect, with no socket.\<close>

theorem connect_slot_zero_never_returns:
  assumes "env_ok E" "legal_kernel E kern" "single_kernel E kern" "zero_kernel kern" "idle frame_ok rt" "\<forall>v. single (k v)"
  shows "\<exists>addr. connect ip port = SF_CreateSocket addr \<and>
    (case block_on E (frame_poll E) frame_drop kern n (async_block (Connect ip port adr k)) rt of
       Finished rt' \<Rightarrow> False
     | Running K rt' \<Rightarrow> rt_heap rt' \<noteq> Map.empty \<and>
         (\<forall>q t. rt_heap rt' q = Some t \<longrightarrow>
           task_fut t = \<lparr>fr_state = Await (Aw_connect adr (SF_Connecting 0 addr) k), fr_locals = []\<rparr>)
     | _ \<Rightarrow> True)"
proof -
  from connect_stuck [OF assms] obtain addr where "connect ip port = SF_CreateSocket addr"
    "stuck (connecting adr addr k) (block_on E (frame_poll E) frame_drop kern n (async_block (Connect ip port adr k)) rt)" by blast
  then show ?thesis
    by (intro exI [of _ addr]) (auto simp: stuck_def only_connects_def futs_def connecting_def split: outcome.splits)
qed

theorem connect_slot_zero_never_returns_witness:
  "\<forall>rt'. block_on demo_env (frame_poll demo_env) frame_drop (oldest_first 0 0) 3
     (async_block (Connect (127, 0, 0, 1) 80 0x7000 (\<lambda>_. Done))) demo_rt \<noteq> Finished rt'"
proof -
  have z: "zero_kernel (oldest_first 0 0)" by (auto simp: zero_kernel_def oldest_first_def split: list.splits)
  have "\<forall>v. single ((\<lambda>_. Done) v)" by simp
  from connect_slot_zero_never_returns [OF demo_env_ok oldest_first_legal oldest_first_single z demo_rt_idle this,
      where ip = "(127, 0, 0, 1)" and port = 80 and n = 3 and adr = "0x7000"] show ?thesis by (auto split: outcome.splits)
qed

text \<open>The repository's tests of echoing cannot pass: the bodies of \<open>test_close\<close> and \<open>test_two_connexion\<close>
  panic on the completion of their committed write, when the kernel accepts the connections, delivers
  four bytes and completes the write in full.\<close>

theorem echo_tests_panic:
  "block_on demo_env (frame_poll demo_env) frame_drop (script [(0, 1, 0), (0, 4, 1), (0, 4, 0)]) (Suc (Suc (Suc 0)))
     (async_block (test_close 3)) demo_rt = Faulted (Panic Newer_cqe) \<and>
   block_on demo_env (frame_poll demo_env) frame_drop (script [(0, 1, 0), (0, 4, 1), (Suc 0, 4, 0)]) (Suc (Suc (Suc 0)))
     (async_block (test_two_connexion 3 (Suc (Suc 0)))) demo_rt = Faulted (Panic Newer_cqe)"
  using test_close_run test_two_connexion_run by blast

text \<open>The repository's tests of streams cannot pass. In \<open>test_echo_double\<close> the body has ended after the
  echo, but both multishot operations are still in flight and hold its task, so \<open>block_on\<close> waits on;
  when the peer closes, the stopped body is polled again and panics. \<open>stream_test\<close> answers one piece and
  panics on the completion of its answer, which polls the stream again and comes without a buffer; when
  the peer closes at once, the end of the stream, which also comes without a buffer, panics as well.\<close>

theorem stream_tests_panic:
  "(\<exists>K rt. block_on demo_env (frame_poll demo_env) frame_drop
     (script [(0, 1, 2), (Suc 0, 4, 3), (Suc (Suc 0), 8, 0)]) (Suc (Suc (Suc 0)))
     (async_block (test_echo_double 3)) demo_rt = Running K rt \<and> length K = 2 \<and> rt_pending rt = [] \<and>
     (\<exists>t. rt_heap rt 0x1000 = Some t \<and> fr_state (task_fut t) = Stopped \<and> ref_counter t = 2)) \<and>
   block_on demo_env (frame_poll demo_env) frame_drop
     (script [(0, 1, 2), (Suc 0, 4, 3), (Suc (Suc 0), 8, 0), (Suc 0, 0, 0)]) (Suc (Suc (Suc (Suc 0))))
     (async_block (test_echo_double 3)) demo_rt = Faulted (Panic Resumed_after_completion) \<and>
   block_on demo_env (frame_poll demo_env) frame_drop
     (script [(0, 1, 2), (Suc 0, 5, 3), (Suc (Suc 0), 34, 0)]) (Suc (Suc (Suc 0)))
     (async_block (stream_test (Suc (Suc depth)) 3)) demo_rt = Faulted (Panic Missing_buf_id) \<and>
   block_on demo_env (frame_poll demo_env) frame_drop (script [(0, 1, 2), (Suc 0, 0, 0)]) (Suc (Suc 0))
     (async_block (stream_test (Suc depth) 3)) demo_rt = Faulted (Panic Missing_buf_id)"
  using test_echo_double_served test_echo_double_run stream_test_run stream_test_end_run by blast

text \<open>C36. A running stream takes every poll for a new completion. Polled \<open>n\<close> times for one completion that
  announces more, both streams yield its item \<open>n\<close> times, without suspending and without any effect: a
  connection is reported again, a received buffer is handed out again.\<close>

theorem stream_item_repeats:
  assumes "\<not> neg (ti_result i)" "env_more E (ti_flags i)" "env_buffer_select E (ti_flags i) = Some b"
    "ucast b < read_count (rt_buffer rt)" "0 < n"
  shows "stream_feed (accept_poll_next E) (replicate n i) \<lparr>as_listen_fd = fd, as_state = SS_Running\<rparr> rt =
      Inr (replicate n (Poll_Ready (Some (ti_result i))), \<lparr>as_listen_fd = fd, as_state = SS_Running\<rparr>, rt\<lparr>rt_current := i\<rparr>) \<and>
    (\<exists>buf. rw_buf_idx buf = ucast b \<and> rw_committed buf = False \<and>
      stream_feed (read_poll_next E) (replicate n i) \<lparr>rs_fd = conn, rs_state = SS_Running\<rparr> rt =
        Inr (replicate n (Poll_Ready (Some buf)), \<lparr>rs_fd = conn, rs_state = SS_Running\<rparr>, rt\<lparr>rt_current := i\<rparr>))"
proof -
  obtain m where n: "n = Suc m" using assms(5) by (cases n) auto
  obtain buf where buf: "checkout_read 1 (ucast b) conn (ti_result i) (rt_buffer rt) = Inr buf" "rw_buf_idx buf = ucast b" "\<not> rw_committed buf"
    using assms(4) by (simp add: checkout_read_def)
  have "stream_feed (read_poll_next E) (replicate n i) \<lparr>rs_fd = conn, rs_state = SS_Running\<rparr> rt =
      Inr (replicate n (Poll_Ready (Some buf)), \<lparr>rs_fd = conn, rs_state = SS_Running\<rparr>, rt\<lparr>rt_current := i\<rparr>)"
    unfolding n by (rule read_stream.feed_same) (use assms(1-3) buf(1) in \<open>simp_all add: read_item_def del: One_nat_def\<close>)
  moreover have "stream_feed (accept_poll_next E) (replicate n i) \<lparr>as_listen_fd = fd, as_state = SS_Running\<rparr> rt =
      Inr (replicate n (Poll_Ready (Some (ti_result i))), \<lparr>as_listen_fd = fd, as_state = SS_Running\<rparr>, rt\<lparr>rt_current := i\<rparr>)"
    unfolding n by (rule accept_stream.feed_same) (use assms(1,2) in simp_all)
  ultimately show ?thesis using buf(2,3) by auto
qed

theorem stream_item_repeats_witness:
  "stream_feed (accept_poll_next demo_env) (replicate 2 \<lparr>ti_tag = Tag_new 0, ti_result = 7, ti_flags = 3, ti_response_gen = 0\<rparr>)
     \<lparr>as_listen_fd = 3, as_state = SS_Running\<rparr> demo_rt =
   Inr (replicate 2 (Poll_Ready (Some 7)), \<lparr>as_listen_fd = 3, as_state = SS_Running\<rparr>,
     demo_rt\<lparr>rt_current := \<lparr>ti_tag = Tag_new 0, ti_result = 7, ti_flags = 3, ti_response_gen = 0\<rparr>\<rparr>)"
  using stream_item_repeats [of "\<lparr>ti_tag = Tag_new 0, ti_result = 7, ti_flags = 3, ti_response_gen = 0\<rparr>" demo_env 0 demo_rt 2 3]
  by (simp add: demo_env_def demo_rt_def demo_pool_def)

text \<open>What follows for clients. The loop \<open>while let Some(_) = conns.next().await\<close> does not suspend
  after its first completion: it goes round any number of times within one poll. A body that takes two
  items from a read stream gets one buffer twice from one completion and releases it twice: the
  two-entry ring then offers buffer 0 three times, and buffer 1 is gone. And a commit takes any
  completion that polls its task for its own: while the answer is being written from buffer 0, more data
  arrives in buffer 1, and the commit reports the six bytes received as its result and gives buffer 0
  back to the kernel, with the receive and the write still in flight.\<close>

theorem stream_clients_misled:
  "block_on demo_env (frame_poll demo_env) frame_drop (oldest_first 7 2) (Suc 0)
     (async_block (Accept_stream 0 3 (accept_loop (Suc n)))) demo_rt = Faulted (Panic Client_panic) \<and>
   (\<exists>K rt. block_on demo_env (frame_poll demo_env) frame_drop (oldest_first 5 3) (Suc 0)
     (async_block read_pair) ring_rt = Running K rt \<and> ring_ids 1 rt = [0, 0, 0]) \<and>
   (\<exists>K rt. block_on demo_env (frame_poll demo_env) frame_drop (script [(0, 5, 3), (0, 6, 0x10003)]) (Suc (Suc 0))
     (async_block commit_then_wait) ring_rt = Running K rt \<and> length K = 2 \<and> ring_ids 2 rt = [0])"
  using accept_loop_run read_pair_run commit_then_wait_run by blast



text \<open>The unit tests of tasks and of the slab pass: those of tasks with every sound allocator that can
  serve them, leaving the heap as it was, those of the slab in the concrete environment.\<close>

theorem unit_tests_pass:
  assumes "env_ok E" "can_alloc E rt"
  shows "(\<exists>rt'. ready_future E rt = Inr rt' \<and> rt_heap rt' = rt_heap rt) \<and>
    (\<exists>rt'. clone_bump_et_drop_dec E rt = Inr rt' \<and> rt_heap rt' = rt_heap rt) \<and>
    (\<exists>rt'. into_raw_from_raw_preserves_rc E rt = Inr rt' \<and> rt_heap rt' = rt_heap rt) \<and>
    (\<exists>rt'. drop_fn_appele_si_future_non_consommee demo_env demo_rt = Inr rt' \<and> rt_heap rt' = Map.empty) \<and>
    (\<exists>rt'. simple_test demo_env demo_rt = Inr rt' \<and> rt_heap rt' = Map.empty) \<and>
    (\<exists>rt'. free_list_reuse demo_env demo_rt = Inr rt' \<and> rt_heap rt' = Map.empty) \<and>
    (\<exists>rt'. growth_test demo_env demo_rt = Inr rt' \<and> rt_heap rt' = Map.empty)"
  using task_tests_run [OF assms] drop_fn_run simple_test_run free_list_reuse_run growth_test_run by blast

theorem unit_tests_pass_witness:
  "\<exists>rt'. ready_future demo_env demo_rt = Inr rt' \<and> rt_heap rt' = Map.empty"
proof -
  have "can_alloc demo_env demo_rt" by (simp add: can_alloc_def demo_env_def demo_rt_def task_new_def eval_layout)
  from unit_tests_pass [OF demo_env_ok this] show ?thesis by (auto simp: demo_rt_def)
qed

end
